(* ===== verification/Prelude.thy ===== *)
theory Prelude
  imports Main "HOL-Library.Word" "HOL-Library.Multiset"
begin

text \<open>
  Shared vocabulary of the development: the error codes of
  \<^verbatim>\<open>src/include/daos_errno.h\<close>, machine integer types, the little-endian byte
  representation of fixed-width integers in memory, \<^verbatim>\<open>memcmp\<close>, and the list lemmas the
  component theories use.
\<close>

section \<open>Theorem collections\<close>

named_theorems bytes_simps \<open>rewrite rules for the byte representation of integers\<close>
named_theorems list_upd_simps \<open>rewrite rules for lists cut at an index\<close>

section \<open>Error codes and results\<close>

text \<open>
  \<^verbatim>\<open>daos_errno_t\<close>. The code returns the negated value (\<^verbatim>\<open>return -DER_INVAL;\<close>) or 0; the
  model returns \<open>Inl DER_INVAL\<close> or \<open>Inr\<close> of what the function computes.
\<close>

datatype der =
    DER_NO_PERM | DER_NO_HDL | DER_INVAL | DER_EXIST | DER_NONEXIST | DER_UNREACH
  | DER_NOSPACE | DER_ALREADY | DER_NOMEM | DER_NOSYS | DER_TIMEDOUT | DER_BUSY
  | DER_AGAIN | DER_PROTO | DER_UNINIT | DER_TRUNC | DER_OVERFLOW | DER_CANCELED
  | DER_OOG | DER_CRT_HG | DER_CRT_UNREG | DER_CRT_ADDRSTR_GEN | DER_CRT_PMIX
  | DER_IVCB_FORWARD | DER_MISC | DER_BADPATH | DER_NOTDIR | DER_UNKNOWN
  | DER_IO | DER_FREE_MEM | DER_ENOENT | DER_NOTYPE | DER_NOSCHEMA | DER_NOLOCAL
  | DER_STALE | DER_NOTLEADER | DER_SHUTDOWN | DER_TGT_CREATE | DER_EP_RO | DER_EP_OLD
  | DER_KEY2BIG | DER_REC2BIG | DER_IO_INVAL | DER_EQ_BUSY | DER_DOMAIN

type_synonym 'a res = "der + 'a"

type_synonym u8 = "8 word"
type_synonym u32 = "32 word"
type_synonym u64 = "64 word"
type_synonym bytes = "u8 list"

section \<open>Bytes\<close>

text \<open>
  An integer of \<open>k\<close> bytes in memory, least significant byte first, as a store through an
  integer pointer (\<^verbatim>\<open>*(uint32_t *)p = x\<close>) lays it out on the little-endian machines the
  program is built for.
\<close>

fun le_bytes :: "nat \<Rightarrow> nat \<Rightarrow> u8 list" where
  "le_bytes 0 n = []"
| "le_bytes (Suc k) n = of_nat (n mod 256) # le_bytes k (n div 256)"

fun le_nat :: "u8 list \<Rightarrow> nat" where
  "le_nat [] = 0"
| "le_nat (b # bs) = unat b + 256 * le_nat bs"

lemma length_le_bytes [simp]: "length (le_bytes k n) = k"
  by (induction k n rule: le_bytes.induct) auto

lemma unat_byte [simp]: "unat (of_nat (n mod 256) :: u8) = n mod 256"
  by (simp add: unat_of_nat take_bit_nat_eq_self_iff)

lemma le_nat_le_bytes [bytes_simps]: "le_nat (le_bytes k n) = n mod 256 ^ k"
proof (induction k n rule: le_bytes.induct)
  case (1 n)
  then show ?case by simp
next
  case (2 k n)
  then show ?case
    using mod_mult2_eq [of n 256 "256 ^ k"] by simp
qed

lemma le_nat_less: "le_nat bs < 256 ^ length bs"
proof (induction bs)
  case Nil
  then show ?case by simp
next
  case (Cons b bs)
  have "unat b < 256"
    using unsigned_less [of b] by simp
  moreover have "Suc (le_nat bs) * 256 \<le> 256 ^ length bs * 256"
    using Cons by (intro mult_le_mono1) simp
  ultimately show ?case by simp
qed

lemma le_bytes_le_nat [bytes_simps]: "le_bytes (length bs) (le_nat bs) = bs"
proof (induction bs)
  case Nil
  then show ?case by simp
next
  case (Cons b bs)
  have b: "unat b < 256"
    using unsigned_less [of b] by simp
  then have "(unat b + 256 * le_nat bs) mod 256 = unat b"
    "(unat b + 256 * le_nat bs) div 256 = le_nat bs"
    by simp_all
  with Cons show ?case by simp
qed

lemma le_bytes_inj: "m < 256 ^ k \<Longrightarrow> n < 256 ^ k \<Longrightarrow> le_bytes k m = le_bytes k n \<Longrightarrow> m = n"
  by (metis le_nat_le_bytes mod_less)

text \<open>\<^verbatim>\<open>uint32_t\<close> and \<^verbatim>\<open>uint64_t\<close> objects.\<close>

definition u32_bytes :: "u32 \<Rightarrow> u8 list" where
  "u32_bytes w = le_bytes 4 (unat w)"

definition bytes_u32 :: "u8 list \<Rightarrow> u32" where
  "bytes_u32 bs = of_nat (le_nat bs)"

definition u64_bytes :: "u64 \<Rightarrow> u8 list" where
  "u64_bytes w = le_bytes 8 (unat w)"

definition bytes_u64 :: "u8 list \<Rightarrow> u64" where
  "bytes_u64 bs = of_nat (le_nat bs)"

text \<open>Equations that evaluate without going through the natural numbers.\<close>

lemma bytes_u64_code [code]: "bytes_u64 [] = 0" "bytes_u64 (b # bs) = ucast b + 256 * bytes_u64 bs"
  by (simp_all add: bytes_u64_def)

lemma u8_mod: "(word_of_nat (n mod 256) :: u8) = word_of_nat n"
  by (simp add: word_unat_eq_iff unsigned_of_nat take_bit_eq_mod)

lemma u64_drop: "(word_of_nat (unat (w :: u64) div 2 ^ n) :: u8) = ucast (drop_bit n w)"
proof -
  have "take_bit 64 (unat w) = unat w" using unsigned_less [of w, where 'a = nat] by (simp add: take_bit_nat_eq_self)
  then have "unat (drop_bit n w) = unat w div 2 ^ n"
    by (simp only: unsigned_drop_bit_eq) (simp add: drop_bit_eq_div)
  then show ?thesis by (metis of_nat_unat)
qed

lemma le_bytes_map: "le_bytes k n = map (\<lambda>i. word_of_nat (n div 2 ^ (8 * i))) [0..<k]"
proof (induction k arbitrary: n)
  case (Suc k)
  have "[0..<Suc k] = 0 # map Suc [0..<k]" by (simp add: upt_conv_Cons map_Suc_upt del: upt_Suc)
  then show ?case using Suc by (simp add: u8_mod power_add div_mult2_eq [symmetric] del: upt_Suc)
qed simp

lemma u64_bytes_code [code]: "u64_bytes w = map (\<lambda>k. ucast (drop_bit (8 * k) w)) [0..<8]"
  by (simp only: u64_bytes_def le_bytes_map u64_drop)

lemma length_u32_bytes [simp]: "length (u32_bytes w) = 4"
  by (simp add: u32_bytes_def)

lemma length_u64_bytes [simp]: "length (u64_bytes w) = 8"
  by (simp add: u64_bytes_def)

lemma bytes_u32_u32_bytes [simp, bytes_simps]: "bytes_u32 (u32_bytes w) = w"
proof -
  have "unat w < 256 ^ 4"
    using unsigned_less [of w] by simp
  then show ?thesis
    by (simp add: bytes_u32_def u32_bytes_def le_nat_le_bytes)
qed

lemma bytes_u64_u64_bytes [simp, bytes_simps]: "bytes_u64 (u64_bytes w) = w"
proof -
  have "unat w < 256 ^ 8"
    using unsigned_less [of w] by simp
  then show ?thesis
    by (simp add: bytes_u64_def u64_bytes_def le_nat_le_bytes)
qed

lemma u64_bytes_bytes_u64: "length bs = 8 \<Longrightarrow> u64_bytes (bytes_u64 bs) = bs"
proof -
  assume l: "length bs = 8"
  then have "le_nat bs < 2 ^ 64"
    using le_nat_less [of bs] by simp
  then have "unat (of_nat (le_nat bs) :: u64) = le_nat bs"
    by (simp add: unat_of_nat take_bit_nat_eq_self_iff)
  with l show ?thesis
    using le_bytes_le_nat [of bs] by (simp add: u64_bytes_def bytes_u64_def)
qed

lemma u32_bytes_bytes_u32: "length bs = 4 \<Longrightarrow> u32_bytes (bytes_u32 bs) = bs"
proof -
  assume l: "length bs = 4"
  then have "le_nat bs < 2 ^ 32"
    using le_nat_less [of bs] by simp
  then have "unat (of_nat (le_nat bs) :: u32) = le_nat bs"
    by (simp add: unat_of_nat take_bit_nat_eq_self_iff)
  with l show ?thesis
    using le_bytes_le_nat [of bs] by (simp add: u32_bytes_def bytes_u32_def)
qed

lemma u64_bytes_inject [simp]: "u64_bytes v = u64_bytes w \<longleftrightarrow> v = w"
  by (metis bytes_u64_u64_bytes)

text \<open>The last epoch.\<close>

definition DAOS_EPOCH_MAX :: u64 where "DAOS_EPOCH_MAX = - 1"

section \<open>Lists cut at an index\<close>

lemma take_drop_nth: "i < length xs \<Longrightarrow> xs = take i xs @ xs ! i # drop (Suc i) xs"
  by (rule id_take_nth_drop)

lemma mset_swap_nth:
  "i < length xs \<Longrightarrow> j < length xs \<Longrightarrow> mset (xs[i := xs ! j, j := xs ! i]) = mset xs"
  by (rule mset_swap)

end
