(* ===== verification/Array_Sort.thy ===== *)
theory Array_Sort
  imports Prelude
begin

text \<open>
  \<^verbatim>\<open>src/common/sort.c\<close>: the combsort \<^verbatim>\<open>daos_array_sort\<close> and the binary search
  \<^verbatim>\<open>daos_array_find\<close>, over a table of callbacks (\<^verbatim>\<open>daos_sort_ops_t\<close>). The locale
  \<open>sort_contract\<close> states what a caller's callbacks must promise; the theorems about
  sortedness, termination and search are proved there once and reach the concrete tables of
  the program by interpretation.

  The C code computes \<^verbatim>\<open>gap * 10\<close> in a signed \<^verbatim>\<open>int\<close>; the model computes it in the
  naturals, which is the same for arrays shorter than \<open>2\<^sup>3\<^sup>1 div 10\<close> elements.
\<close>

section \<open>Definitions\<close>

record 'a daos_sort_ops =
  so_swap :: "'a list \<Rightarrow> nat \<Rightarrow> nat \<Rightarrow> 'a list"
  so_cmp :: "'a list \<Rightarrow> nat \<Rightarrow> nat \<Rightarrow> int"
  so_cmp_key :: "'a list \<Rightarrow> nat \<Rightarrow> u64 \<Rightarrow> int"

text \<open>\<^verbatim>\<open>EINVAL\<close> of \<^verbatim>\<open>errno.h\<close>; the function returns \<open>- EINVAL\<close> or 0.\<close>

definition EINVAL :: int where
  "EINVAL = 22"

text \<open>The inner loop: \<^verbatim>\<open>for (i = 0, j = gap; j < len; i++, j++)\<close>.\<close>

function sort_pass ::
  "'a daos_sort_ops \<Rightarrow> bool \<Rightarrow> nat \<Rightarrow> nat \<Rightarrow> nat \<Rightarrow> bool \<Rightarrow> 'a list \<Rightarrow> int \<times> bool \<times> 'a list" where
  "sort_pass ops unique len i j swapped array =
     (if j < len then
        let rc = so_cmp ops array i j in
        if rc = 0 \<and> unique then (- EINVAL, swapped, array)
        else if rc > 0
        then sort_pass ops unique len (Suc i) (Suc j) True (so_swap ops array i j)
        else sort_pass ops unique len (Suc i) (Suc j) swapped array
      else (0, swapped, array))"
  by pat_completeness auto
termination
  by (relation "measure (\<lambda>(ops, unique, len, i, j, swapped, array). len - j)") auto

declare sort_pass.simps [simp del]

text \<open>How the gap shrinks at the head of an iteration.\<close>

definition next_gap :: "nat \<Rightarrow> nat" where
  "next_gap gap =
     (let gap = gap * 10 div 13;
          gap = (if gap = 9 \<or> gap = 10 then 11 else gap)
      in if gap < 1 then 1 else gap)"

text \<open>
  The outer loop. With callbacks that do not form an order it may run forever, so it is a
  partial function: \<open>None\<close> is "does not return".
\<close>

partial_function (option) sort_loop ::
  "'a daos_sort_ops \<Rightarrow> bool \<Rightarrow> nat \<Rightarrow> nat \<Rightarrow> bool \<Rightarrow> 'a list \<Rightarrow> (int \<times> 'a list) option" where
  "sort_loop ops unique len gap swapped array =
     (if gap > 1 \<or> swapped then
        let gap' = next_gap gap;
            (rc, swapped', array') = sort_pass ops unique len 0 gap' False array
        in if rc \<noteq> 0 then Some (rc, array')
           else sort_loop ops unique len gap' swapped' array'
      else Some (0, array))"

definition daos_array_sort ::
  "'a list \<Rightarrow> nat \<Rightarrow> bool \<Rightarrow> 'a daos_sort_ops \<Rightarrow> (int \<times> 'a list) option" where
  "daos_array_sort array len unique ops = sort_loop ops unique len len True array"

text \<open>
  The binary search: the loop over \<^verbatim>\<open>[start, end]\<close>, then the walk back to the first of
  several equal elements. The locals are signed: \<^verbatim>\<open>end\<close> reaches -1.
\<close>

function find_loop ::
  "'a daos_sort_ops \<Rightarrow> 'a list \<Rightarrow> u64 \<Rightarrow> int \<Rightarrow> int \<Rightarrow> int \<Rightarrow> int \<Rightarrow> int \<times> int" where
  "find_loop ops array key start end cur rc =
     (if start \<le> end then
        let cur' = (start + end) div 2;
            rc' = so_cmp_key ops array (nat cur') key
        in if rc' = 0 then (cur', rc')
           else if rc' < 0 then find_loop ops array key (cur' + 1) end cur' rc'
           else find_loop ops array key start (cur' - 1) cur' rc'
      else (cur, rc))"
  by pat_completeness auto
termination
  by (relation "measure (\<lambda>(ops, array, key, start, end, cur, rc). nat (end - start + 1))") auto

declare find_loop.simps [simp del]

fun find_first_of :: "'a daos_sort_ops \<Rightarrow> 'a list \<Rightarrow> u64 \<Rightarrow> nat \<Rightarrow> nat" where
  "find_first_of ops array key 0 = 0"
| "find_first_of ops array key (Suc cur) =
     (if so_cmp_key ops array cur key \<noteq> 0 then Suc cur
      else find_first_of ops array key cur)"

definition daos_array_find :: "'a list \<Rightarrow> nat \<Rightarrow> u64 \<Rightarrow> 'a daos_sort_ops \<Rightarrow> int" where
  "daos_array_find array len key ops =
     (case find_loop ops array key 0 (int len - 1) 0 0 of (cur, rc) \<Rightarrow>
        if rc \<noteq> 0 then - 1 else int (find_first_of ops array key (nat cur)))"

text \<open>
  \<^verbatim>\<open>daos_array_shuffle\<close>; \<open>rand n\<close> is the value \<^verbatim>\<open>rand()\<close> returns in the iteration in which
  the C loop variable is \<open>n\<close>.
\<close>

fun daos_array_shuffle :: "'a list \<Rightarrow> nat \<Rightarrow> 'a daos_sort_ops \<Rightarrow> (nat \<Rightarrow> nat) \<Rightarrow> 'a list" where
  "daos_array_shuffle array 0 ops rand = array"
| "daos_array_shuffle array (Suc n) ops rand =
     (let i = rand (Suc n) mod Suc n;
          array' = (if i \<noteq> n then so_swap ops array i n else array)
      in daos_array_shuffle array' n ops rand)"

section \<open>Gaps\<close>

lemma next_gap_pos [simp]: "1 \<le> next_gap gap"
  by (simp add: next_gap_def Let_def)

lemma next_gap_less: "1 < gap \<Longrightarrow> next_gap gap < gap"
proof -
  assume g: "1 < gap"
  consider "gap * 10 div 13 = 9 \<or> gap * 10 div 13 = 10"
    | "gap * 10 div 13 \<noteq> 9" "gap * 10 div 13 \<noteq> 10" by blast
  then show ?thesis
  proof cases
    case 1
    then have "9 \<le> gap * 10 div 13" by auto
    then have "12 \<le> gap" by linarith
    with 1 show ?thesis by (auto simp: next_gap_def Let_def)
  next
    case 2
    have "gap * 10 div 13 < gap" using g by linarith
    with 2 g show ?thesis by (simp add: next_gap_def Let_def)
  qed
qed

lemma next_gap_small [simp]: "next_gap 0 = 1" "next_gap (Suc 0) = 1"
  by (simp_all add: next_gap_def Let_def)

section \<open>One iteration of the inner loop\<close>

lemma pass_end: "\<not> j < len \<Longrightarrow> sort_pass ops unique len i j sw xs = (0, sw, xs)"
  by (simp add: sort_pass.simps)

lemma pass_dup: "j < len \<Longrightarrow> unique \<Longrightarrow> so_cmp ops xs i j = 0 \<Longrightarrow>
    sort_pass ops unique len i j sw xs = (- EINVAL, sw, xs)"
  by (simp add: sort_pass.simps)

lemma pass_swap: "j < len \<Longrightarrow> so_cmp ops xs i j > 0 \<Longrightarrow>
    sort_pass ops unique len i j sw xs =
    sort_pass ops unique len (Suc i) (Suc j) True (so_swap ops xs i j)"
  by (simp add: sort_pass.simps [of ops unique len i])

lemma pass_keep: "j < len \<Longrightarrow> \<not> (unique \<and> so_cmp ops xs i j = 0) \<Longrightarrow> \<not> so_cmp ops xs i j > 0 \<Longrightarrow>
    sort_pass ops unique len i j sw xs = sort_pass ops unique len (Suc i) (Suc j) sw xs"
  by (auto simp: sort_pass.simps [of ops unique len i] Let_def)

lemmas pass_steps_simps = pass_end pass_dup pass_swap pass_keep

section \<open>The contract of the callbacks\<close>

locale sort_contract =
  fixes ops :: "'a daos_sort_ops" and key :: "'a \<Rightarrow> 'k::linorder"
  assumes swap: "i < length xs \<Longrightarrow> j < length xs \<Longrightarrow>
      so_swap ops xs i j = xs[i := xs ! j, j := xs ! i]"
    and cmp_gt: "i < length xs \<Longrightarrow> j < length xs \<Longrightarrow>
      so_cmp ops xs i j > 0 \<longleftrightarrow> key (xs ! j) < key (xs ! i)"
    and cmp_eq: "i < length xs \<Longrightarrow> j < length xs \<Longrightarrow>
      so_cmp ops xs i j = 0 \<longleftrightarrow> key (xs ! i) = key (xs ! j)"
begin

text \<open>One exchange of an out-of-order pair.\<close>

inductive comb_step :: "'a list \<Rightarrow> 'a list \<Rightarrow> bool" where
  "i < j \<Longrightarrow> j < length xs \<Longrightarrow> key (xs ! j) < key (xs ! i) \<Longrightarrow>
     comb_step xs (xs[i := xs ! j, j := xs ! i])"

lemma comb_step_mset: "comb_step\<^sup>*\<^sup>* xs ys \<Longrightarrow> mset ys = mset xs \<and> length ys = length xs"
  by (induction rule: rtranclp_induct) (auto elim!: comb_step.cases simp: mset_swap_nth)

text \<open>
  A pass only exchanges out-of-order pairs, and sets \<open>swapped\<close> exactly if it exchanged one.
\<close>

lemma pass_steps:
  "sort_pass ops unique len i j sw xs = (rc, sw', ys) \<Longrightarrow> i < j \<Longrightarrow> length xs = len \<Longrightarrow>
   comb_step\<^sup>*\<^sup>* xs ys \<and> (sw' = sw \<and> ys = xs \<or> sw' \<and> comb_step\<^sup>+\<^sup>+ xs ys)"
proof (induction "len - j" arbitrary: i j sw xs)
  case 0
  then show ?case by (simp add: sort_pass.simps)
next
  case (Suc n)
  then have ij: "i < length xs" "j < length xs" "n = len - Suc j" by auto
  let ?zs = "so_swap ops xs i j"
  show ?case
  proof (cases "so_cmp ops xs i j > 0")
    case True
    then have st: "comb_step xs ?zs"
      using Suc.prems ij by (auto simp: swap cmp_gt intro: comb_step.intros)
    have "sort_pass ops unique len (Suc i) (Suc j) True ?zs = (rc, sw', ys)"
      using Suc.prems True ij by (simp add: pass_swap)
    moreover have "length ?zs = len" using ij Suc.prems by (simp add: swap)
    moreover have "Suc i < Suc j" using Suc.prems(2) by simp
    ultimately have "comb_step\<^sup>*\<^sup>* ?zs ys \<and> (sw' = True \<and> ys = ?zs \<or> sw' \<and> comb_step\<^sup>+\<^sup>+ ?zs ys)"
      using Suc.hyps(1) [OF ij(3), of "Suc i" True ?zs] by simp
    with st show ?thesis
      by (auto intro: converse_rtranclp_into_rtranclp rtranclp_into_tranclp2 tranclp_into_tranclp2)
  next
    case False
    then show ?thesis
      using Suc.hyps(1) [OF ij(3)] Suc.prems ij
      by (cases "unique \<and> so_cmp ops xs i j = 0") (auto simp: pass_dup pass_keep)
  qed
qed

text \<open>A pass that ends without an exchange has seen every pair at distance \<open>j - i\<close> in order.\<close>

lemma pass_clean:
  "sort_pass ops unique len i j sw xs = (0, False, ys) \<Longrightarrow> i < j \<Longrightarrow> length xs = len \<Longrightarrow>
   i \<le> k \<Longrightarrow> k + (j - i) < len \<Longrightarrow>
   key (xs ! k) \<le> key (xs ! (k + (j - i))) \<and> (unique \<longrightarrow> key (xs ! k) \<noteq> key (xs ! (k + (j - i))))"
proof (induction "len - j" arbitrary: i j sw)
  case 0
  then show ?case by simp
next
  case (Suc n)
  then have ij: "i < length xs" "j < length xs" "n = len - Suc j" by auto
  have le: "\<not> so_cmp ops xs i j > 0"
  proof
    assume gt: "so_cmp ops xs i j > 0"
    then have "sort_pass ops unique len (Suc i) (Suc j) True (so_swap ops xs i j) = (0, False, ys)"
      using Suc.prems(1) ij Suc.prems(3) by (simp add: pass_swap)
    then show False
      using pass_steps [of unique len "Suc i" "Suc j" True "so_swap ops xs i j" 0 False ys]
        Suc.prems ij by (simp add: swap)
  qed
  have nq: "\<not> (unique \<and> so_cmp ops xs i j = 0)"
    using Suc.prems(1) ij Suc.prems(3) by (auto simp: pass_dup EINVAL_def)
  then have rec: "sort_pass ops unique len (Suc i) (Suc j) sw xs = (0, False, ys)"
    using Suc.prems(1) ij Suc.prems(3) pass_keep [of j len unique ops xs i sw] le by simp
  show ?case
  proof (cases "k = i")
    case True
    with le nq ij Suc.prems(2) show ?thesis by (auto simp: cmp_gt cmp_eq)
  next
    case False
    then show ?thesis
      using Suc.hyps(1) [OF ij(3) rec] Suc.prems by simp
  qed
qed

text \<open>A pass fails only in unique mode, on two elements with the same key.\<close>

lemma pass_error:
  "sort_pass ops unique len i j sw xs = (rc, sw', ys) \<Longrightarrow> rc \<noteq> 0 \<Longrightarrow> i < j \<Longrightarrow> length xs = len \<Longrightarrow>
   rc = - EINVAL \<and> unique \<and> \<not> distinct (map key ys)"
proof (induction "len - j" arbitrary: i j sw xs)
  case 0
  then show ?case by (simp add: sort_pass.simps)
next
  case (Suc n)
  then have ij: "i < length xs" "j < length xs" "n = len - Suc j" by auto
  show ?case
  proof (cases "unique \<and> so_cmp ops xs i j = 0")
    case True
    then have "rc = - EINVAL" "ys = xs"
      using Suc.prems ij by (simp_all add: pass_dup)
    moreover have "key (xs ! i) = key (xs ! j)" using True ij by (simp add: cmp_eq)
    ultimately show ?thesis
      using True Suc.prems(3) ij nth_eq_iff_index_eq [of "map key xs" i j] by auto
  next
    case False
    let ?zs = "if so_cmp ops xs i j > 0 then so_swap ops xs i j else xs"
    obtain sw2 where "sort_pass ops unique len (Suc i) (Suc j) sw2 ?zs = (rc, sw', ys)"
      using Suc.prems(1) ij False Suc.prems(4)
      by (cases "so_cmp ops xs i j > 0") (auto simp: pass_swap pass_keep)
    moreover have "length ?zs = len" using ij Suc.prems by (simp add: swap)
    moreover have "Suc i < Suc j" using Suc.prems by simp
    ultimately show ?thesis
      using Suc.prems(2) Suc.hyps(1) [OF ij(3), of "Suc i" sw2 ?zs] by simp
  qed
qed

text \<open>
  The potential that bounds the number of exchanges: the position of every element weighted by
  the rank of its key among the elements of a finite set.
\<close>

definition rank :: "'a set \<Rightarrow> 'a \<Rightarrow> nat" where
  "rank S x = card {y \<in> S. key y < key x}"

definition weight :: "'a set \<Rightarrow> 'a list \<Rightarrow> nat" where
  "weight S xs = (\<Sum>k < length xs. k * rank S (xs ! k))"

lemma rank_less: "finite S \<Longrightarrow> x \<in> S \<Longrightarrow> key x < key y \<Longrightarrow> rank S x < rank S y"
  unfolding rank_def by (rule psubset_card_mono) auto

lemma rank_le: "finite S \<Longrightarrow> rank S x \<le> card S"
  unfolding rank_def by (rule card_mono) auto

lemma weight_le: "finite S \<Longrightarrow> weight S xs \<le> length xs * length xs * card S"
proof -
  assume "finite S"
  then have "weight S xs \<le> (\<Sum>k < length xs. length xs * card S)"
    unfolding weight_def by (intro sum_mono mult_le_mono rank_le) auto
  then show ?thesis by simp
qed

lemma weight_step:
  assumes "comb_step xs ys" and "finite S" and "set xs \<subseteq> S"
  shows "weight S xs < weight S ys"
  using assms(1)
proof cases
  case (1 i j)
  let ?n = "length xs"
  have split: "(\<Sum>k < ?n. f k) = f i + f j + (\<Sum>k \<in> {..<?n} - {i} - {j}. f k)" for f :: "nat \<Rightarrow> nat"
    using 1 by (simp add: sum.remove [of "{..<?n}" i] sum.remove [of "{..<?n} - {i}" j])
  have rest: "(\<Sum>k \<in> {..<?n} - {i} - {j}. k * rank S (ys ! k)) =
      (\<Sum>k \<in> {..<?n} - {i} - {j}. k * rank S (xs ! k))"
    using 1 by (intro sum.cong) auto
  have "rank S (xs ! j) < rank S (xs ! i)"
    using 1 assms by (intro rank_less) auto
  then obtain d where d: "rank S (xs ! i) = rank S (xs ! j) + Suc d"
    using less_iff_Suc_add by auto
  have "i * Suc d < j * Suc d" using 1 by (intro mult_less_mono1) simp_all
  then have "i * rank S (xs ! i) + j * rank S (xs ! j) < i * rank S (xs ! j) + j * rank S (xs ! i)"
    unfolding d by (simp add: algebra_simps)
  moreover have "ys ! i = xs ! j" "ys ! j = xs ! i" "length ys = ?n"
    using 1 by auto
  ultimately show ?thesis
    using rest by (simp add: weight_def split)
qed

lemma weight_steps:
  "comb_step\<^sup>+\<^sup>+ xs ys \<Longrightarrow> finite S \<Longrightarrow> set xs \<subseteq> S \<Longrightarrow> weight S xs < weight S ys"
proof (induction rule: tranclp_induct)
  case (base y)
  then show ?case by (rule weight_step)
next
  case (step y z)
  have "set y = set xs"
    using comb_step_mset [OF tranclp_into_rtranclp [OF step.hyps(1)]] by (metis set_mset_mset)
  with step show ?case using weight_step [of y z S] by simp
qed

text \<open>What the sort delivers: either it sorted, or unique mode met two equal keys.\<close>

definition sort_result :: "bool \<Rightarrow> int \<Rightarrow> 'a list \<Rightarrow> bool" where
  "sort_result unique rc ys \<longleftrightarrow>
     rc = 0 \<and> sorted (map key ys) \<and> (unique \<longrightarrow> distinct (map key ys)) \<or>
     rc = - EINVAL \<and> unique \<and> \<not> distinct (map key ys)"

lemma clean_pass_sorted:
  assumes "sort_pass ops unique (length xs) 0 1 False xs = (0, False, ys)"
  shows "ys = xs" and "sort_result unique 0 xs"
proof -
  show "ys = xs"
    using pass_steps [OF assms] by simp
  have adj: "key (xs ! k) \<le> key (xs ! Suc k) \<and> (unique \<longrightarrow> key (xs ! k) \<noteq> key (xs ! Suc k))"
    if "Suc k < length xs" for k
    using pass_clean [OF assms, of k] that by simp
  have "sorted (map key xs)"
    using adj by (simp add: sorted_iff_nth_Suc)
  moreover have "distinct (map key xs)" if unique
  proof -
    have "sorted_wrt (<) (map key xs)"
      using adj that by (auto simp: sorted_wrt_iff_nth_Suc_transp [OF transp_on_less] less_le)
    then show ?thesis by (simp add: strict_sorted_iff)
  qed
  ultimately show "sort_result unique 0 xs" by (simp add: sort_result_def)
qed

lemma loop_result:
  "gap > 1 \<or> sw \<Longrightarrow> gap \<ge> 1 \<Longrightarrow> length xs = len \<Longrightarrow> set xs = S \<Longrightarrow>
   \<exists>rc ys. sort_loop ops unique len gap sw xs = Some (rc, ys) \<and>
     comb_step\<^sup>*\<^sup>* xs ys \<and> sort_result unique rc ys"
proof (induction "gap * Suc (len * len * card S) + (len * len * card S - weight S xs)"
    arbitrary: gap sw xs rule: less_induct)
  case less
  let ?B = "len * len * card S"
  let ?g = "next_gap gap"
  have fin: "finite S" using less.prems by auto
  obtain rc sw' ys where p: "sort_pass ops unique len 0 ?g False xs = (rc, sw', ys)"
    by (metis prod_cases3)
  have unfold: "sort_loop ops unique len gap sw xs =
      (if rc \<noteq> 0 then Some (rc, ys) else sort_loop ops unique len ?g sw' ys)"
    using less.prems(1) p by (simp add: sort_loop.simps [of ops unique len gap])
  have gpos: "0 < ?g" using next_gap_pos [of gap] by linarith
  note st = pass_steps [OF p gpos less.prems(3)]
  have len: "length ys = len" and set: "set ys = S"
    using comb_step_mset [of xs ys] st less.prems by (auto dest: mset_eq_setD)
  show ?case
  proof (cases "rc = 0")
    case False
    then have "sort_result unique rc ys"
      using pass_error [OF p False gpos less.prems(3)] by (simp add: sort_result_def)
    with False st show ?thesis by (auto simp: unfold)
  next
    case rc: True
    show ?thesis
    proof (cases "?g > 1 \<or> sw'")
      case False
      then have "?g = 1" "\<not> sw'" using gpos by auto
      then have "ys = xs" "sort_result unique 0 xs"
        using clean_pass_sorted [of unique xs ys] p rc less.prems(3) by auto
      moreover have "sort_loop ops unique len ?g sw' ys = Some (0, ys)"
        using False by (simp add: sort_loop.simps)
      ultimately show ?thesis using rc by (auto simp: unfold)
    next
      case True
      have "?g * Suc ?B + (?B - weight S ys) < gap * Suc ?B + (?B - weight S xs)"
      proof (cases "gap > 1")
        case True
        then have "Suc ?g * Suc ?B \<le> gap * Suc ?B"
          by (intro mult_le_mono1) (simp add: next_gap_less Suc_le_eq)
        then show ?thesis by simp
      next
        case g: False
        then have "gap = 1" "sw'" using less.prems(2) \<open>?g > 1 \<or> sw'\<close> by (auto simp: le_Suc_eq)
        then have "weight S xs < weight S ys"
          using st weight_steps [of xs ys S] fin less.prems(4) by auto
        moreover have "weight S ys \<le> ?B" using weight_le [OF fin, of ys] len by simp
        ultimately show ?thesis using \<open>gap = 1\<close> by simp
      qed
      from less.hyps [OF this True _ len set] gpos st rc show ?thesis
        by (auto simp: unfold intro: rtranclp_trans)
    qed
  qed
qed

theorem sort_total:
  "\<exists>rc ys. daos_array_sort xs (length xs) unique ops = Some (rc, ys) \<and>
     mset ys = mset xs \<and> sort_result unique rc ys"
proof (cases xs)
  case Nil
  then show ?thesis
    by (simp add: daos_array_sort_def sort_loop.simps [of _ _ _ 0] pass_end
        sort_loop.simps [of _ _ _ "Suc 0"] sort_result_def)
next
  case (Cons x zs)
  then have "length xs \<ge> 1" by simp
  then show ?thesis
    unfolding daos_array_sort_def
    using loop_result [of "length xs" True xs "length xs" "set xs" unique] comb_step_mset by blast
qed

end

section \<open>Binary search\<close>

locale find_contract =
  fixes ops :: "'a daos_sort_ops" and key :: "'a \<Rightarrow> 'k::linorder" and keyof :: "u64 \<Rightarrow> 'k"
  assumes cmp_key_gt: "i < length xs \<Longrightarrow> so_cmp_key ops xs i k > 0 \<longleftrightarrow> keyof k < key (xs ! i)"
    and cmp_key_eq: "i < length xs \<Longrightarrow> so_cmp_key ops xs i k = 0 \<longleftrightarrow> key (xs ! i) = keyof k"
begin

lemma cmp_key_lt: "i < length xs \<Longrightarrow> so_cmp_key ops xs i k < 0 \<longleftrightarrow> key (xs ! i) < keyof k"
  by (metis cmp_key_gt cmp_key_eq linorder_neqE less_asym)

lemma find_loop_result:
  "find_loop ops xs k start end cur rc = (c, r) \<Longrightarrow> sorted (map key xs) \<Longrightarrow>
   0 \<le> start \<Longrightarrow> end < int (length xs) \<Longrightarrow> start \<le> end \<or> rc \<noteq> 0 \<Longrightarrow>
   (\<And>i. i < nat start \<Longrightarrow> i < length xs \<Longrightarrow> key (xs ! i) < keyof k) \<Longrightarrow>
   (\<And>i. int i > end \<Longrightarrow> i < length xs \<Longrightarrow> keyof k < key (xs ! i)) \<Longrightarrow>
   (r = 0 \<longrightarrow> 0 \<le> c \<and> nat c < length xs \<and> key (xs ! nat c) = keyof k) \<and>
   (r \<noteq> 0 \<longrightarrow> keyof k \<notin> key ` set xs)"
proof (induction "nat (end - start + 1)" arbitrary: start "end" cur rc rule: less_induct)
  case less
  show ?case
  proof (cases "start \<le> end")
    case False
    then have "c = cur" "r = rc" "rc \<noteq> 0"
      using less.prems(1,5) by (auto simp: find_loop.simps [of ops xs k start])
    moreover have "key (xs ! i) \<noteq> keyof k" if "i < length xs" for i
      using less.prems(6) [of i] less.prems(7) [of i] that False less.prems(3)
      by (cases "i < nat start") fastforce+
    then have "keyof k \<notin> key ` set xs" by (metis imageE in_set_conv_nth)
    ultimately show ?thesis by simp
  next
    case True
    define m where "m = (start + end) div 2"
    have m: "start \<le> m" "m \<le> end" "nat m < length xs" "0 \<le> m"
      using True less.prems(3,4) by (auto simp: m_def)
    have mono: "key (xs ! i) \<le> key (xs ! j)" if "i \<le> j" "j < length xs" for i j
      using that less.prems(2) by (simp add: sorted_iff_nth_mono)
    let ?rc = "so_cmp_key ops xs (nat m) k"
    consider "?rc = 0" | "?rc < 0" | "?rc > 0" by linarith
    then show ?thesis
    proof cases
      case 1
      then have "c = m" "r = 0"
        using less.prems(1) True by (auto simp: find_loop.simps [of ops xs k start] m_def Let_def)
      with 1 m show ?thesis by (simp add: cmp_key_eq)
    next
      case 2
      then have eq: "find_loop ops xs k (m + 1) end m ?rc = (c, r)"
        using less.prems(1) True by (simp add: find_loop.simps [of ops xs k start] m_def Let_def)
      have "key (xs ! i) < keyof k" if "i < nat (m + 1)" "i < length xs" for i
      proof -
        have "key (xs ! i) \<le> key (xs ! nat m)" using that m by (intro mono) auto
        also have "\<dots> < keyof k" using 2 m by (simp add: cmp_key_lt)
        finally show ?thesis .
      qed
      then show ?thesis
        using less.hyps [OF _ eq less.prems(2)] less.prems(4,7) m 2 by auto
    next
      case 3
      then have eq: "find_loop ops xs k start (m - 1) m ?rc = (c, r)"
        using less.prems(1) True by (simp add: find_loop.simps [of ops xs k start] m_def Let_def)
      have "keyof k < key (xs ! i)" if "int i > m - 1" "i < length xs" for i
      proof -
        have "keyof k < key (xs ! nat m)" using 3 m by (simp add: cmp_key_gt)
        also have "\<dots> \<le> key (xs ! i)" using that m by (intro mono) auto
        finally show ?thesis .
      qed
      then show ?thesis
        using less.hyps [OF _ eq less.prems(2,3)] less.prems(6) m less.prems(4) 3 by auto
    qed
  qed
qed

lemma find_first_of_result:
  "n < length xs \<Longrightarrow> sorted (map key xs) \<Longrightarrow> key (xs ! n) = keyof k \<Longrightarrow>
   let m = find_first_of ops xs k n in
   m \<le> n \<and> key (xs ! m) = keyof k \<and> (\<forall>i < m. key (xs ! i) < keyof k)"
proof (induction n)
  case 0
  then show ?case by simp
next
  case (Suc n)
  show ?case
  proof (cases "key (xs ! n) = keyof k")
    case True
    then show ?thesis
      using Suc by (simp add: cmp_key_eq Let_def le_Suc_eq)
  next
    case False
    have "key (xs ! n) \<le> key (xs ! Suc n)"
      using Suc.prems(1,2) by (simp add: sorted_iff_nth_mono)
    then have "key (xs ! n) < keyof k" using False Suc.prems by simp
    moreover have "key (xs ! i) \<le> key (xs ! n)" if "i < Suc n" for i
      using that Suc.prems by (simp add: sorted_iff_nth_mono)
    ultimately have "\<forall>i < Suc n. key (xs ! i) < keyof k" by fastforce
    with False Suc.prems show ?thesis by (simp add: cmp_key_eq Let_def)
  qed
qed

theorem find_spec:
  assumes "sorted (map key xs)" and "xs \<noteq> []"
  shows "daos_array_find xs (length xs) k ops = - 1 \<and> keyof k \<notin> key ` set xs \<or>
    (\<exists>m < length xs. daos_array_find xs (length xs) k ops = int m \<and>
       key (xs ! m) = keyof k \<and> (\<forall>i < m. key (xs ! i) < keyof k))"
proof -
  obtain c r where l: "find_loop ops xs k 0 (int (length xs) - 1) 0 0 = (c, r)"
    by (metis surj_pair)
  have len: "0 < length xs" using assms(2) by simp
  have res: "(r = 0 \<longrightarrow> 0 \<le> c \<and> nat c < length xs \<and> key (xs ! nat c) = keyof k) \<and>
      (r \<noteq> 0 \<longrightarrow> keyof k \<notin> key ` set xs)"
    using find_loop_result [OF l assms(1)] len by simp
  show ?thesis
  proof (cases "r = 0")
    case False
    with res l show ?thesis by (simp add: daos_array_find_def)
  next
    case True
    with res have "nat c < length xs" "key (xs ! nat c) = keyof k" by auto
    from find_first_of_result [OF this(1) assms(1) this(2)] this True l show ?thesis
      by (auto simp: daos_array_find_def Let_def)
  qed
qed

end

end
