(* ===== verification/Pool_Map.thy ===== *)
theory Pool_Map
  imports Array_Sort
begin

text \<open>
  The queries of \<^verbatim>\<open>src/common/pool_map.c\<close>: component sorters, lookups by ID and by rank, the lists of
  failed targets and the map version. The two callback tables of the file interpret the contracts
  of the sort library.

  A target is its component (\<^verbatim>\<open>struct pool_target\<close> has no other member); a sorter's array of
  pointers is the list of the components pointed at. The map has the root domain's targets, which
  the code stores contiguously; building the tree from a pool buffer is not modelled here.
\<close>

unbundle bit_operations_syntax

section \<open>Data\<close>

record pool_component =
  co_type :: "16 word"
  co_status :: u8
  co_id :: u32
  co_rank :: u32
  co_ver :: u32
  co_fseq :: u32
  co_nr :: u32

type_synonym pool_target = pool_component

record pool_comp_sorter =
  cs_type :: "16 word"
  cs_comps :: "pool_component list"

record pool_domain =
  do_comp :: pool_component
  do_targets :: "pool_target list"

record pool_map =
  po_version :: u32
  po_target_sorter :: pool_comp_sorter
  po_tree :: "pool_domain option"

definition PO_COMP_ID_ALL :: u32 where "PO_COMP_ID_ALL = - 1"
definition PO_COMP_ST_DOWN :: u8 where "PO_COMP_ST_DOWN = 8"

section \<open>Sorting and searching components\<close>

definition comp_sort_op_swap :: "pool_component list \<Rightarrow> nat \<Rightarrow> nat \<Rightarrow> pool_component list" where
  "comp_sort_op_swap comps a b = (let tmp = comps ! a in comps[a := comps ! b, b := tmp])"

definition comp_sort_op_cmp :: "pool_component list \<Rightarrow> nat \<Rightarrow> nat \<Rightarrow> int" where
  "comp_sort_op_cmp comps a b =
     (if co_id (comps ! a) > co_id (comps ! b) then 1
      else if co_id (comps ! a) < co_id (comps ! b) then - 1 else 0)"

definition comp_sort_op_cmp_key :: "pool_component list \<Rightarrow> nat \<Rightarrow> u64 \<Rightarrow> int" where
  "comp_sort_op_cmp_key comps i key =
     (let id = ucast key in
      if co_id (comps ! i) > id then 1 else if co_id (comps ! i) < id then - 1 else 0)"

definition comp_sort_ops :: "pool_component daos_sort_ops" where
  "comp_sort_ops =
     \<lparr>so_swap = comp_sort_op_swap, so_cmp = comp_sort_op_cmp, so_cmp_key = comp_sort_op_cmp_key\<rparr>"

definition comp_sorter_find :: "pool_comp_sorter \<Rightarrow> u32 \<Rightarrow> pool_component option" where
  "comp_sorter_find sorter cid =
     (let at = daos_array_find (cs_comps sorter) (length (cs_comps sorter)) (ucast cid) comp_sort_ops
      in if at < 0 then None else Some (cs_comps sorter ! nat at))"


definition fseq_sort_op_swap :: "pool_component list \<Rightarrow> nat \<Rightarrow> nat \<Rightarrow> pool_component list" where
  "fseq_sort_op_swap comps a b = (let tmp = comps ! a in comps[a := comps ! b, b := tmp])"

definition fseq_sort_op_cmp :: "pool_component list \<Rightarrow> nat \<Rightarrow> nat \<Rightarrow> int" where
  "fseq_sort_op_cmp comps a b =
     (if co_fseq (comps ! a) > co_fseq (comps ! b) then 1
      else if co_fseq (comps ! a) < co_fseq (comps ! b) then - 1 else 0)"

definition fseq_sort_op_cmp_key :: "pool_component list \<Rightarrow> nat \<Rightarrow> u64 \<Rightarrow> int" where
  "fseq_sort_op_cmp_key comps i key =
     (let fseq = ucast key in
      if co_fseq (comps ! i) > fseq then 1 else if co_fseq (comps ! i) < fseq then - 1 else 0)"

definition fseq_sort_ops :: "pool_component daos_sort_ops" where
  "fseq_sort_ops =
     \<lparr>so_swap = fseq_sort_op_swap, so_cmp = fseq_sort_op_cmp, so_cmp_key = fseq_sort_op_cmp_key\<rparr>"

section \<open>Queries\<close>

definition pool_map_empty :: "pool_map \<Rightarrow> bool" where
  "pool_map_empty pmap = (po_tree pmap = None)"

text \<open>The targets found; their number is what the C function returns.\<close>

definition pool_map_find_target :: "pool_map \<Rightarrow> u32 \<Rightarrow> pool_target list" where
  "pool_map_find_target pmap cid =
     (case po_tree pmap of
        None \<Rightarrow> []
      | Some root \<Rightarrow>
         (if cid = PO_COMP_ID_ALL then do_targets root
          else (case comp_sorter_find (po_target_sorter pmap) cid of None \<Rightarrow> [] | Some t \<Rightarrow> [t])))"

definition pool_map_find_target_by_rank :: "pool_map \<Rightarrow> u32 \<Rightarrow> pool_target option" where
  "pool_map_find_target_by_rank pmap rank =
     (case po_tree pmap of
        None \<Rightarrow> None
      | Some root \<Rightarrow> find (\<lambda>t. co_rank t = rank) (do_targets root))"

record find_tgts_param =
  ftp_max_fseq :: u32
  ftp_min_fseq :: u32
  ftp_status :: u8
  ftp_chk_max_fseq :: bool
  ftp_chk_min_fseq :: bool
  ftp_chk_status :: bool

definition matched_criteria :: "find_tgts_param \<Rightarrow> pool_target \<Rightarrow> bool" where
  "matched_criteria param tgt =
     (if ftp_chk_status param \<and> ftp_status param AND co_status tgt = 0 then False
      else if ftp_chk_max_fseq param \<and> ftp_max_fseq param < co_fseq tgt then False
      else if ftp_chk_min_fseq param \<and> ftp_min_fseq param > co_fseq tgt then False
      else True)"

text \<open>The first scan counts, the second copies the same targets into an array of that size.\<close>

definition pool_map_find_tgts ::
  "pool_map \<Rightarrow> find_tgts_param \<Rightarrow> pool_component daos_sort_ops option \<Rightarrow> pool_target list option" where
  "pool_map_find_tgts pmap param sorter =
     (if pool_map_empty pmap then Some []
      else (let targets = pool_map_find_target pmap PO_COMP_ID_ALL;
                tgts = filter (matched_criteria param) targets
            in if tgts = [] then Some []
               else (case sorter of
                       None \<Rightarrow> Some tgts
                     | Some ops \<Rightarrow> map_option snd (daos_array_sort tgts (length tgts) False ops))))"

definition pool_map_find_down_tgts :: "pool_map \<Rightarrow> pool_target list option" where
  "pool_map_find_down_tgts pmap =
     pool_map_find_tgts pmap
       \<lparr>ftp_max_fseq = 0, ftp_min_fseq = 0, ftp_status = PO_COMP_ST_DOWN,
        ftp_chk_max_fseq = False, ftp_chk_min_fseq = False, ftp_chk_status = True\<rparr>
       (Some fseq_sort_ops)"


definition pool_map_set_version :: "pool_map \<Rightarrow> u32 \<Rightarrow> pool_map res" where
  "pool_map_set_version pmap version =
     (if po_version pmap > version then Inl DER_NO_PERM
      else if po_version pmap = version then Inr pmap
      else Inr (pmap\<lparr>po_version := version\<rparr>))"

section \<open>The callback tables keep the contracts\<close>

lemmas comp_ops_defs = comp_sort_ops_def comp_sort_op_swap_def comp_sort_op_cmp_def comp_sort_op_cmp_key_def
lemmas fseq_ops_defs = fseq_sort_ops_def fseq_sort_op_swap_def fseq_sort_op_cmp_def fseq_sort_op_cmp_key_def


interpretation comp_find: find_contract comp_sort_ops co_id ucast
  by unfold_locales (auto simp: comp_ops_defs Let_def)


interpretation fseq_find: find_contract fseq_sort_ops co_fseq ucast
  by unfold_locales (auto simp: fseq_ops_defs Let_def)

lemma ucast_id_32: "ucast (ucast (x :: u32) :: u64) = x"
  by (rule bit_word_eqI) (simp add: bit_unsigned_iff)

section \<open>Properties\<close>


text \<open>
  In a sorted sorter the lookup by ID finds the component with that ID, and finds nothing
  exactly when there is none.
\<close>

theorem comp_sorter_find_ok:
  assumes "sorted_wrt (<) (map co_id (cs_comps sorter))" "cs_comps sorter \<noteq> []"
  shows "case comp_sorter_find sorter cid of
      None \<Rightarrow> cid \<notin> co_id ` set (cs_comps sorter)
    | Some c \<Rightarrow> c \<in> set (cs_comps sorter) \<and> co_id c = cid"
proof -
  have "sorted (map co_id (cs_comps sorter))" using assms(1) by (simp add: strict_sorted_iff)
  from comp_find.find_spec [OF this assms(2), of "ucast cid"]
  show ?thesis by (auto simp: comp_sorter_find_def Let_def ucast_id_32)
qed

definition sorter2 :: pool_comp_sorter where
  "sorter2 = \<lparr>cs_type = 50, cs_comps =
     [\<lparr>co_type = 50, co_status = 4, co_id = 3, co_rank = 0, co_ver = 1, co_fseq = 0, co_nr = 1\<rparr>,
      \<lparr>co_type = 50, co_status = 8, co_id = 7, co_rank = 1, co_ver = 1, co_fseq = 2, co_nr = 1\<rparr>]\<rparr>"




end
