(* ===== verification/Btree.thy ===== *)
theory Btree
  imports Prelude
begin

text \<open>
  \<^verbatim>\<open>src/common/btree.c\<close>, the B+ tree behind every key-value store of the program: nodes and
  traces, probing, insertion with node splits, deletion with rebalancing and merging, cursors
  and iteration. Definitions only; the theories \<open>Btree_Search\<close>, \<open>Btree_Insert\<close> and
  \<open>Btree_Delete\<close> hold the proofs.

  A node of the C code is an object in (persistent) memory, found through its memory ID. No node
  is shared, so the model embeds a child in its parent. \<^verbatim>\<open>tn_keyn\<close> is the length of the record
  list; \<^verbatim>\<open>BTR_NODE_LEAF\<close> is the constructor; \<^verbatim>\<open>BTR_NODE_ROOT\<close> is being the last entry of the
  trace. The C code updates the node a trace entry points at and the parent sees it; the model
  writes the new child back (\<open>btr_writeback\<close>). Record bodies (\<^verbatim>\<open>rec_mmid\<close> of a leaf record) are
  the type \<open>'r\<close> of the tree class. Allocation of nodes succeeds: the failure paths
  (\<^verbatim>\<open>-DER_NOMEM\<close>) abort the surrounding memory transaction.
\<close>

section \<open>Nodes, roots, classes\<close>

datatype ('h, 'r) btr_node =
    Leaf "('h \<times> 'r) list"
  | Node "('h, 'r) btr_node" "('h \<times> ('h, 'r) btr_node) list"

record ('h, 'r) btr_root =
  tr_order :: nat
  tr_depth :: nat
  tr_class :: nat
  tr_feats :: u64
  tr_node :: "('h, 'r) btr_node option"

text \<open>
  The customised functions of a tree class, \<^verbatim>\<open>btr_ops_t\<close>. \<open>None\<close> is an absent callback.
  Hashed keys are compared by the order of their type.
\<close>

record ('k, 'v, 'h, 'r) btr_ops =
  to_hkey_gen :: "'k \<Rightarrow> 'h"
  to_key_cmp :: "('r \<Rightarrow> 'k \<Rightarrow> int) option"
  to_rec_alloc :: "'k \<Rightarrow> 'v \<Rightarrow> 'r res"
  to_rec_fetch :: "'h \<Rightarrow> 'r \<Rightarrow> 'k \<times> 'v"
  to_rec_update :: "('r \<Rightarrow> 'k \<Rightarrow> 'v \<Rightarrow> 'r res) option"

definition BTR_ORDER_MIN :: nat where "BTR_ORDER_MIN = 3"
definition BTR_ORDER_MAX :: nat where "BTR_ORDER_MAX = 4096"
definition BTR_TRACE_MAX :: nat where "BTR_TRACE_MAX = 40"
definition BTR_TYPE_MAX :: nat where "BTR_TYPE_MAX = 1024"

datatype btr_probe_opc =
    BTR_PROBE_FIRST | BTR_PROBE_LAST | BTR_PROBE_EQ | BTR_PROBE_GE | BTR_PROBE_LE
  | BTR_PROBE_UPDATE

datatype btr_probe_rc = PROBE_RC_NONE | PROBE_RC_EQ | PROBE_RC_OK

text \<open>
  The search path of a context, \<^verbatim>\<open>tc_trace\<close>, leaf entry first: nodes with the index of the record
  (leaf) or child (non-leaf) the path takes.
\<close>

type_synonym ('h, 'r) btr_trace = "(('h, 'r) btr_node \<times> nat) list"

fun tn_keyn :: "('h, 'r) btr_node \<Rightarrow> nat" where
  "tn_keyn (Leaf recs) = length recs"
| "tn_keyn (Node child recs) = length recs"

fun btr_node_is_leaf :: "('h, 'r) btr_node \<Rightarrow> bool" where
  "btr_node_is_leaf (Leaf recs) = True"
| "btr_node_is_leaf (Node child recs) = False"

definition btr_node_is_full :: "nat \<Rightarrow> ('h, 'r) btr_node \<Rightarrow> bool" where
  "btr_node_is_full order nd = (tn_keyn nd = order - 1)"

text \<open>A non-leaf node has one child more than it has keys.\<close>

fun btr_node_child_at :: "('h, 'r) btr_node \<Rightarrow> nat \<Rightarrow> ('h, 'r) btr_node" where
  "btr_node_child_at (Node child recs) at = (if at = 0 then child else snd (recs ! (at - 1)))"

fun btr_set_child :: "('h, 'r) btr_node \<Rightarrow> nat \<Rightarrow> ('h, 'r) btr_node \<Rightarrow> ('h, 'r) btr_node" where
  "btr_set_child (Node child recs) at nd =
     (if at = 0 then Node nd recs
      else Node child (recs[at - 1 := (fst (recs ! (at - 1)), nd)]))"

fun btr_writeback :: "('h, 'r) btr_node \<Rightarrow> ('h, 'r) btr_trace \<Rightarrow> ('h, 'r) btr_node" where
  "btr_writeback nd [] = nd"
| "btr_writeback nd ((par, at) # trace) = btr_writeback (btr_set_child par at nd) trace"

definition btr_hkey_cmp :: "'h::linorder \<Rightarrow> 'h \<Rightarrow> int" where
  "btr_hkey_cmp rec_hkey hkey = (if rec_hkey < hkey then - 1 else if rec_hkey = hkey then 0 else 1)"

definition btr_key_cmp :: "('k, 'v, 'h, 'r) btr_ops \<Rightarrow> 'r \<Rightarrow> 'k \<Rightarrow> int" where
  "btr_key_cmp ops rec key = (case to_key_cmp ops of Some cmp \<Rightarrow> cmp rec key | None \<Rightarrow> 0)"

definition btr_rec_update :: "('k, 'v, 'h, 'r) btr_ops \<Rightarrow> 'r \<Rightarrow> 'k \<Rightarrow> 'v \<Rightarrow> 'r res" where
  "btr_rec_update ops rec key val =
     (case to_rec_update ops of None \<Rightarrow> Inl DER_NO_PERM | Some upd \<Rightarrow> upd rec key val)"

lemma size_child_at:
  "at \<le> length recs \<Longrightarrow> size (btr_node_child_at (Node child recs) at) < size (Node child recs)"
proof (cases at)
  case 0
  then show ?thesis by simp
next
  case (Suc i)
  assume "at \<le> length recs"
  with Suc have mem: "recs ! i \<in> set recs" by simp
  have "size (snd (recs ! i)) \<le> size_prod (\<lambda>x. 0) size (recs ! i)"
    by (cases "recs ! i") simp
  also have "\<dots> \<le> size_list (size_prod (\<lambda>x. 0) size) recs"
    using mem by (intro size_list_estimation' [OF mem order_refl])
  finally show ?thesis using Suc by simp
qed

declare btr_node_child_at.simps [simp del]

section \<open>Probing\<close>

text \<open>\<^verbatim>\<open>(start + end) / 2\<close> in C, which truncates towards zero; \<^verbatim>\<open>end\<close> may reach \<open>start - 1\<close>.\<close>

definition c_half :: "int \<Rightarrow> int" where
  "c_half x = (if x < 0 then - (- x div 2) else x div 2)"

text \<open>The binary search within one node.\<close>

function btr_bsearch :: "'h::linorder list \<Rightarrow> 'h \<Rightarrow> int \<Rightarrow> int \<Rightarrow> int \<times> int" where
  "btr_bsearch hkeys hkey start end =
     (let at = c_half (start + end);
          cmp = btr_hkey_cmp (hkeys ! nat at) hkey
      in if start < end \<and> cmp \<noteq> 0
         then if cmp < 0 then btr_bsearch hkeys hkey (at + 1) end
              else btr_bsearch hkeys hkey start (at - 1)
         else (at, cmp))"
  by pat_completeness auto
termination
  by (relation "measure (\<lambda>(hkeys, hkey, start, end). nat (end - start + 1))")
    (auto simp: c_half_def)

declare btr_bsearch.simps [simp del]

definition btr_node_search :: "btr_probe_opc \<Rightarrow> 'h::linorder list \<Rightarrow> 'h \<Rightarrow> int \<times> int" where
  "btr_node_search opc hkeys hkey =
     (case opc of
        BTR_PROBE_FIRST \<Rightarrow> (0, 1)
      | BTR_PROBE_LAST \<Rightarrow> (int (length hkeys) - 1, - 1)
      | _ \<Rightarrow> btr_bsearch hkeys hkey 0 (int (length hkeys) - 1))"

text \<open>
  The descent of \<^verbatim>\<open>btr_probe\<close> to a leaf: the leaf, the index and comparison the search in it
  ended with, and the trace of the levels above. An index past the last child is undefined in
  the C code and never occurs in a tree whose nodes have records; the model stops there.
\<close>

function btr_probe_down ::
  "btr_probe_opc \<Rightarrow> 'h::linorder \<Rightarrow> ('h, 'r) btr_node \<Rightarrow> ('h, 'r) btr_trace \<Rightarrow>
   ('h, 'r) btr_node \<times> int \<times> int \<times> ('h, 'r) btr_trace" where
  "btr_probe_down opc hkey (Leaf recs) trace =
     (case btr_node_search opc (map fst recs) hkey of (at, cmp) \<Rightarrow> (Leaf recs, at, cmp, trace))"
| "btr_probe_down opc hkey (Node child recs) trace =
     (case btr_node_search opc (map fst recs) hkey of (at, cmp) \<Rightarrow>
        let at' = nat (at + (if cmp \<le> 0 then 1 else 0)) in
        if at' \<le> length recs
        then btr_probe_down opc hkey (btr_node_child_at (Node child recs) at')
               ((Node child recs, at') # trace)
        else (Node child recs, at, cmp, trace))"
  by pat_completeness auto
termination
  by (relation "measure (\<lambda>(opc, hkey, nd, trace). size nd)") (auto intro: size_child_at [simplified])

text \<open>
  Moving a cursor: up to the first level with a record left on the right (left), then down along
  the first (last) children. \<open>None\<close>: no next record, the trace is left as it is.
\<close>

fun btr_next_up :: "('h, 'r) btr_trace \<Rightarrow> ('h, 'r) btr_trace option" where
  "btr_next_up [] = None"
| "btr_next_up ((nd, at) # trace) =
     (if at = tn_keyn nd - (if btr_node_is_leaf nd then 1 else 0) then btr_next_up trace
      else Some ((nd, at + 1) # trace))"

fun btr_first_down :: "('h, 'r) btr_node \<Rightarrow> ('h, 'r) btr_trace \<Rightarrow> ('h, 'r) btr_trace" where
  "btr_first_down (Leaf recs) trace = (Leaf recs, 0) # trace"
| "btr_first_down (Node child recs) trace = btr_first_down child ((Node child recs, 0) # trace)"

definition btr_probe_next :: "('h, 'r) btr_trace \<Rightarrow> ('h, 'r) btr_trace option" where
  "btr_probe_next trace =
     (case btr_next_up trace of
        None \<Rightarrow> None
      | Some [] \<Rightarrow> None
      | Some ((nd, at) # up) \<Rightarrow>
          (if btr_node_is_leaf nd then Some ((nd, at) # up)
           else Some (btr_first_down (btr_node_child_at nd at) ((nd, at) # up))))"

fun btr_prev_up :: "('h, 'r) btr_trace \<Rightarrow> ('h, 'r) btr_trace option" where
  "btr_prev_up [] = None"
| "btr_prev_up ((nd, at) # trace) =
     (if at = 0 then btr_prev_up trace else Some ((nd, at - 1) # trace))"

function btr_last_down :: "('h, 'r) btr_node \<Rightarrow> ('h, 'r) btr_trace \<Rightarrow> ('h, 'r) btr_trace" where
  "btr_last_down (Leaf recs) trace = (Leaf recs, length recs - 1) # trace"
| "btr_last_down (Node child recs) trace =
     btr_last_down (btr_node_child_at (Node child recs) (length recs))
       ((Node child recs, length recs) # trace)"
  by pat_completeness auto
termination
  by (relation "measure (\<lambda>(nd, trace). size nd)") (auto intro: size_child_at [simplified])

definition btr_probe_prev :: "('h, 'r) btr_trace \<Rightarrow> ('h, 'r) btr_trace option" where
  "btr_probe_prev trace =
     (case btr_prev_up trace of
        None \<Rightarrow> None
      | Some [] \<Rightarrow> None
      | Some ((nd, at) # up) \<Rightarrow>
          (if btr_node_is_leaf nd then Some ((nd, at) # up)
           else Some (btr_last_down (btr_node_child_at nd at) ((nd, at) # up))))"

text \<open>The record a trace entry of a leaf points at.\<close>

fun btr_leaf_rec_at :: "('h, 'r) btr_node \<Rightarrow> nat \<Rightarrow> 'h \<times> 'r" where
  "btr_leaf_rec_at (Leaf recs) at = recs ! at"

fun btr_trace2rec :: "('h, 'r) btr_trace \<Rightarrow> 'h \<times> 'r" where
  "btr_trace2rec ((nd, at) # trace) = btr_leaf_rec_at nd at"

text \<open>The \<^verbatim>\<open>switch\<close> at the end of \<^verbatim>\<open>btr_probe\<close>.\<close>

definition btr_probe_end ::
  "btr_probe_opc \<Rightarrow> int \<Rightarrow> ('h, 'r) btr_trace \<Rightarrow> btr_probe_rc \<times> ('h, 'r) btr_trace" where
  "btr_probe_end opc cmp trace =
     (case opc of
        BTR_PROBE_FIRST \<Rightarrow> (PROBE_RC_OK, trace)
      | BTR_PROBE_LAST \<Rightarrow> (PROBE_RC_OK, trace)
      | BTR_PROBE_UPDATE \<Rightarrow> (if cmp = 0 then PROBE_RC_EQ else PROBE_RC_NONE, trace)
      | BTR_PROBE_EQ \<Rightarrow> (if cmp = 0 then PROBE_RC_EQ else PROBE_RC_NONE, trace)
      | BTR_PROBE_GE \<Rightarrow>
          (if cmp = 0 then (PROBE_RC_EQ, trace)
           else if cmp > 0 then (PROBE_RC_OK, trace)
           else (case btr_probe_next trace of
                   Some trace' \<Rightarrow> (PROBE_RC_OK, trace') | None \<Rightarrow> (PROBE_RC_NONE, trace)))
      | BTR_PROBE_LE \<Rightarrow>
          (if cmp = 0 then (PROBE_RC_EQ, trace)
           else if cmp < 0 then (PROBE_RC_OK, trace)
           else (case btr_probe_prev trace of
                   Some trace' \<Rightarrow> (PROBE_RC_OK, trace') | None \<Rightarrow> (PROBE_RC_NONE, trace))))"

text \<open>
  \<^verbatim>\<open>btr_probe\<close>: \<open>key\<close> is the key to find, \<open>anchor\<close> a hashed key to use where there is none.
\<close>

definition btr_probe ::
  "('k, 'v, 'h::linorder, 'r) btr_ops \<Rightarrow> ('h, 'r) btr_root \<Rightarrow> btr_probe_opc \<Rightarrow> 'k option \<Rightarrow>
   'h option \<Rightarrow> btr_probe_rc \<times> ('h, 'r) btr_trace" where
  "btr_probe ops root opc key anchor =
     (case tr_node root of
        None \<Rightarrow> (PROBE_RC_NONE, [])
      | Some nd \<Rightarrow>
         (let hkey = (case key of Some k \<Rightarrow> to_hkey_gen ops k | None \<Rightarrow> the anchor);
              (leaf, at, cmp, up) = btr_probe_down opc hkey nd [];
              cmp' = (if cmp = 0 \<and> key \<noteq> None
                      then btr_key_cmp ops (snd (btr_leaf_rec_at leaf (nat at))) (the key)
                      else cmp);
              at' = (if opc = BTR_PROBE_UPDATE then at + (if cmp' < 0 then 1 else 0) else at)
          in btr_probe_end opc cmp' ((leaf, nat at') # up)))"

definition btr_probe_is_public :: "btr_probe_opc \<Rightarrow> bool" where
  "btr_probe_is_public opc \<longleftrightarrow>
     opc = BTR_PROBE_FIRST \<or> opc = BTR_PROBE_LAST \<or> opc = BTR_PROBE_EQ \<or>
     opc = BTR_PROBE_GE \<or> opc = BTR_PROBE_LE"

text \<open>
  \<^verbatim>\<open>dbtree_fetch\<close>: the value, and the key found unless it equals the key asked for.
\<close>

definition dbtree_fetch ::
  "('k, 'v, 'h::linorder, 'r) btr_ops \<Rightarrow> ('h, 'r) btr_root \<Rightarrow> btr_probe_opc \<Rightarrow> 'k option \<Rightarrow>
   ('k option \<times> 'v) res" where
  "dbtree_fetch ops root opc key =
     (if \<not> btr_probe_is_public opc then Inl DER_INVAL
      else case btr_probe ops root opc key None of (rc, trace) \<Rightarrow>
        if rc = PROBE_RC_NONE then Inl DER_NONEXIST
        else (let (hkey, rec) = btr_trace2rec trace;
                  (k, v) = to_rec_fetch ops hkey rec
              in Inr (if rc = PROBE_RC_EQ then None else Some k, v)))"

definition dbtree_lookup ::
  "('k, 'v, 'h::linorder, 'r) btr_ops \<Rightarrow> ('h, 'r) btr_root \<Rightarrow> 'k \<Rightarrow> 'v res" where
  "dbtree_lookup ops root key =
     (case dbtree_fetch ops root BTR_PROBE_EQ (Some key) of
        Inl e \<Rightarrow> Inl e | Inr (k, v) \<Rightarrow> Inr v)"

section \<open>Insertion\<close>

text \<open>\<^verbatim>\<open>btr_node_insert_rec_only\<close>: shift the records from \<open>at\<close> on to the right, store the new one.\<close>

definition btr_node_insert_rec_only :: "'a list \<Rightarrow> nat \<Rightarrow> 'a \<Rightarrow> 'a list" where
  "btr_node_insert_rec_only recs at rec = take at recs @ rec # drop at recs"

text \<open>
  \<^verbatim>\<open>btr_split_at\<close>: whether the new record goes to the left node, where to split, and the insertion
  index in the node it goes to.
\<close>

definition btr_split_at :: "nat \<Rightarrow> bool \<Rightarrow> nat \<Rightarrow> bool \<times> nat \<times> nat" where
  "btr_split_at order leaf at =
     (let split_at = order div 2;
          left = at < split_at;
          split_at = (if \<not> leaf \<and> left then split_at - 1 else split_at)
      in (left, split_at, if left then at else at - split_at))"

text \<open>
  \<^verbatim>\<open>btr_node_split_and_insert\<close> on a leaf: the left node, and the record for the parent, which
  is the right node with its first hashed key.
\<close>

definition btr_leaf_split_and_insert ::
  "nat \<Rightarrow> ('h \<times> 'r) list \<Rightarrow> nat \<Rightarrow> 'h \<times> 'r \<Rightarrow> ('h, 'r) btr_node \<times> 'h \<times> ('h, 'r) btr_node" where
  "btr_leaf_split_and_insert order recs at rec =
     (let (left, split_at, at') = btr_split_at order True at;
          nd_left = take split_at recs;
          nd_right = drop split_at recs;
          nd_left' = (if left then btr_node_insert_rec_only nd_left at' rec else nd_left);
          nd_right' = (if left then nd_right else btr_node_insert_rec_only nd_right at' rec)
      in (Leaf nd_left', fst (hd nd_right'), Leaf nd_right'))"

text \<open>
  \<^verbatim>\<open>btr_node_split_and_insert\<close> on a non-leaf node: either the new record is the first of the
  right node and its key moves up, or the first key of the right node does.
\<close>

definition btr_child_split_and_insert ::
  "nat \<Rightarrow> ('h, 'r) btr_node \<Rightarrow> ('h \<times> ('h, 'r) btr_node) list \<Rightarrow> nat \<Rightarrow> 'h \<times> ('h, 'r) btr_node \<Rightarrow>
   ('h, 'r) btr_node \<times> 'h \<times> ('h, 'r) btr_node" where
  "btr_child_split_and_insert order child recs at rec =
     (let (left, split_at, at') = btr_split_at order False at;
          nd_left = take split_at recs;
          rec_src = drop split_at recs
      in if at' = 0 \<and> \<not> left
         then (Node child nd_left, fst rec, Node (snd rec) rec_src)
         else (let nd_right = tl rec_src;
                   hkey = fst (hd rec_src);
                   right_child = snd (hd rec_src)
               in if left
                  then (Node child (btr_node_insert_rec_only nd_left at' rec), hkey,
                        Node right_child nd_right)
                  else (Node child nd_left, hkey,
                        Node right_child (btr_node_insert_rec_only nd_right (at' - 1) rec))))"

text \<open>\<^verbatim>\<open>btr_root_grow\<close>: a new root above the old one.\<close>

definition btr_root_grow ::
  "('h, 'r) btr_node \<Rightarrow> 'h \<times> ('h, 'r) btr_node \<Rightarrow> ('h, 'r) btr_node" where
  "btr_root_grow left rec = Node left [rec]"

text \<open>
  \<^verbatim>\<open>btr_node_insert_rec\<close> at a non-leaf level, for the record \<open>rec\<close> that bubbles up from a split
  child whose left half \<open>left\<close> replaces the child; the root node and whether the tree grew.
\<close>

fun btr_child_insert_rec ::
  "nat \<Rightarrow> ('h, 'r) btr_trace \<Rightarrow> ('h, 'r) btr_node \<Rightarrow> 'h \<times> ('h, 'r) btr_node \<Rightarrow>
   ('h, 'r) btr_node \<times> bool" where
  "btr_child_insert_rec order [] left rec = (btr_root_grow left rec, True)"
| "btr_child_insert_rec order ((nd, at) # trace) left rec =
     (case btr_set_child nd at left of
        Node child recs \<Rightarrow>
          (if btr_node_is_full order nd
           then (case btr_child_split_and_insert order child recs at rec of
                   (left', rec') \<Rightarrow> btr_child_insert_rec order trace left' rec')
           else (btr_writeback (Node child (btr_node_insert_rec_only recs at rec)) trace, False)))"

text \<open>\<^verbatim>\<open>btr_node_insert_rec\<close> at the leaf.\<close>

fun btr_node_insert_rec ::
  "nat \<Rightarrow> ('h, 'r) btr_trace \<Rightarrow> 'h \<times> 'r \<Rightarrow> ('h, 'r) btr_node \<times> bool" where
  "btr_node_insert_rec order ((Leaf recs, at) # trace) rec =
     (if btr_node_is_full order (Leaf recs)
      then (case btr_leaf_split_and_insert order recs at rec of
              (left, rec') \<Rightarrow> btr_child_insert_rec order trace left rec')
      else (btr_writeback (Leaf (btr_node_insert_rec_only recs at rec)) trace, False))"

text \<open>\<^verbatim>\<open>btr_root_start\<close>: the first record of an empty tree.\<close>

definition btr_root_start :: "('h, 'r) btr_root \<Rightarrow> 'h \<times> 'r \<Rightarrow> ('h, 'r) btr_root" where
  "btr_root_start root rec = root\<lparr>tr_node := Some (Leaf [rec]), tr_depth := 1\<rparr>"

definition btr_insert ::
  "('k, 'v, 'h, 'r) btr_ops \<Rightarrow> ('h, 'r) btr_root \<Rightarrow> ('h, 'r) btr_trace \<Rightarrow> 'k \<Rightarrow> 'v \<Rightarrow>
   ('h, 'r) btr_root res" where
  "btr_insert ops root trace key val =
     (case to_rec_alloc ops key val of
        Inl e \<Rightarrow> Inl e
      | Inr body \<Rightarrow>
         (let rec = (to_hkey_gen ops key, body) in
          if tr_depth root \<noteq> 0
          then (case btr_node_insert_rec (tr_order root) trace rec of
                  (nd, grown) \<Rightarrow>
                    Inr (root\<lparr>tr_node := Some nd,
                              tr_depth := tr_depth root + (if grown then 1 else 0)\<rparr>))
          else Inr (btr_root_start root rec)))"

text \<open>
  \<^verbatim>\<open>btr_update_only\<close>: change the record in place, or where the class does not support that
  replace its body.
\<close>

fun btr_leaf_set_rec :: "('h, 'r) btr_node \<Rightarrow> nat \<Rightarrow> 'r \<Rightarrow> ('h, 'r) btr_node" where
  "btr_leaf_set_rec (Leaf recs) at body = Leaf (recs[at := (fst (recs ! at), body)])"

fun btr_update_only ::
  "('k, 'v, 'h, 'r) btr_ops \<Rightarrow> ('h, 'r) btr_root \<Rightarrow> ('h, 'r) btr_trace \<Rightarrow> 'k \<Rightarrow> 'v \<Rightarrow>
   ('h, 'r) btr_root res" where
  "btr_update_only ops root ((leaf, at) # trace) key val =
     (let rec = snd (btr_leaf_rec_at leaf at);
          rc = btr_rec_update ops rec key val;
          rc' = (if rc = Inl DER_NO_PERM then to_rec_alloc ops key val else rc)
      in case rc' of
           Inl e \<Rightarrow> Inl e
         | Inr body \<Rightarrow>
             Inr (root\<lparr>tr_node := Some (btr_writeback (btr_leaf_set_rec leaf at body) trace)\<rparr>))"

definition btr_update ::
  "('k, 'v, 'h::linorder, 'r) btr_ops \<Rightarrow> ('h, 'r) btr_root \<Rightarrow> 'k \<Rightarrow> 'v \<Rightarrow> ('h, 'r) btr_root res" where
  "btr_update ops root key val =
     (case btr_probe ops root BTR_PROBE_UPDATE (Some key) None of (rc, trace) \<Rightarrow>
        if rc = PROBE_RC_EQ then btr_update_only ops root trace key val
        else btr_insert ops root trace key val)"

text \<open>
  \<^verbatim>\<open>dbtree_update\<close> and \<^verbatim>\<open>btr_tx_update\<close>: on an error the memory transaction is aborted and the
  tree keeps its old contents, which is what the result \<open>Inl\<close> stands for.
\<close>

definition dbtree_update ::
  "('k, 'v, 'h::linorder, 'r) btr_ops \<Rightarrow> ('h, 'r) btr_root \<Rightarrow> 'k \<Rightarrow> 'v \<Rightarrow> ('h, 'r) btr_root res" where
  "dbtree_update ops root key val = btr_update ops root key val"

section \<open>Deletion\<close>

text \<open>
  \<^verbatim>\<open>btr_node_del_leaf_only\<close>: remove the record and close the gap. The C code closes it from the
  right or from the left, so that the free slot is where the caller stores the next record.
\<close>

definition btr_node_del_leaf_only :: "'a list \<Rightarrow> nat \<Rightarrow> 'a list" where
  "btr_node_del_leaf_only recs at = take at recs @ drop (Suc at) recs"

text \<open>Copying a hashed key into record \<open>at\<close> of a non-leaf node (\<^verbatim>\<open>btr_rec_copy_hkey\<close>).\<close>

fun btr_set_hkey :: "('h, 'r) btr_node \<Rightarrow> nat \<Rightarrow> 'h \<Rightarrow> ('h, 'r) btr_node" where
  "btr_set_hkey (Node child recs) at hkey = Node child (recs[at := (hkey, snd (recs ! at))])"

fun btr_hkey_at :: "('h, 'r) btr_node \<Rightarrow> nat \<Rightarrow> 'h" where
  "btr_hkey_at (Leaf recs) at = fst (recs ! at)"
| "btr_hkey_at (Node child recs) at = fst (recs ! at)"

text \<open>
  The functions below return the new parent. \<open>par\<close> is the parent, \<open>pat\<close> the index of the current
  node in it; the current node loses its record (child) \<open>at\<close>; the sibling is the child
  \<open>pat + 1\<close> (on the right) or \<open>pat - 1\<close>.
\<close>

definition btr_node_del_leaf_rebal ::
  "('h, 'r) btr_node \<Rightarrow> nat \<Rightarrow> ('h \<times> 'r) list \<Rightarrow> nat \<Rightarrow> ('h \<times> 'r) list \<Rightarrow> bool \<Rightarrow>
   ('h, 'r) btr_node" where
  "btr_node_del_leaf_rebal par pat cur at sib sib_on_right =
     (let cur' = btr_node_del_leaf_only cur at in
      if sib_on_right
      then btr_set_hkey
             (btr_set_child (btr_set_child par pat (Leaf (cur' @ [hd sib]))) (pat + 1) (Leaf (tl sib)))
             pat (fst (hd (tl sib)))
      else btr_set_hkey
             (btr_set_child (btr_set_child par pat (Leaf (last sib # cur'))) (pat - 1) (Leaf (butlast sib)))
             (pat - 1) (fst (last sib)))"

text \<open>The merge also returns the index of the node left empty, to be removed from the parent.\<close>

definition btr_node_del_leaf_merge ::
  "('h, 'r) btr_node \<Rightarrow> nat \<Rightarrow> ('h \<times> 'r) list \<Rightarrow> nat \<Rightarrow> ('h \<times> 'r) list \<Rightarrow> bool \<Rightarrow>
   ('h, 'r) btr_node \<times> nat" where
  "btr_node_del_leaf_merge par pat cur at sib sib_on_right =
     (let cur' = btr_node_del_leaf_only cur at in
      if sib_on_right
      then (btr_set_child (btr_set_child par pat (Leaf (cur' @ sib))) (pat + 1) (Leaf []), pat + 1)
      else (btr_set_child (btr_set_child par pat (Leaf [])) (pat - 1) (Leaf (sib @ cur')), pat))"

text \<open>
  \<^verbatim>\<open>btr_node_del_leaf\<close>; \<open>None\<close> as sibling: no rebalancing needed. The flag says that the
  deletion bubbles up.
\<close>

definition btr_node_del_leaf ::
  "('h, 'r) btr_node \<Rightarrow> nat \<Rightarrow> ('h \<times> 'r) list \<Rightarrow> nat \<Rightarrow> ('h \<times> 'r) list option \<Rightarrow> bool \<Rightarrow>
   bool \<times> ('h, 'r) btr_node \<times> nat" where
  "btr_node_del_leaf par pat cur at sib sib_on_right =
     (case sib of
        None \<Rightarrow> (False, btr_set_child par pat (Leaf (btr_node_del_leaf_only cur at)), pat)
      | Some sib' \<Rightarrow>
          (if length sib' > 1
           then (False, btr_node_del_leaf_rebal par pat cur at sib' sib_on_right, pat)
           else (True, btr_node_del_leaf_merge par pat cur at sib' sib_on_right)))"

text \<open>
  \<^verbatim>\<open>btr_node_del_child_only\<close>: the first child and the records that remain. With \<open>shift_left\<close>
  false the C code leaves the slot of the first child free and moves the first child into the
  first record; the children and keys that remain are the same.
\<close>

definition btr_node_del_child_only ::
  "('h, 'r) btr_node \<Rightarrow> ('h \<times> ('h, 'r) btr_node) list \<Rightarrow> nat \<Rightarrow>
   ('h, 'r) btr_node \<times> ('h \<times> ('h, 'r) btr_node) list" where
  "btr_node_del_child_only child recs at =
     (if at = 0 then (snd (hd recs), tl recs)
      else (child, take (at - 1) recs @ drop at recs))"

definition btr_node_del_child_rebal ::
  "('h, 'r) btr_node \<Rightarrow> nat \<Rightarrow>
   ('h, 'r) btr_node \<Rightarrow> ('h \<times> ('h, 'r) btr_node) list \<Rightarrow> nat \<Rightarrow>
   ('h, 'r) btr_node \<Rightarrow> ('h \<times> ('h, 'r) btr_node) list \<Rightarrow> bool \<Rightarrow> ('h, 'r) btr_node" where
  "btr_node_del_child_rebal par pat child recs at sib_child sib_recs sib_on_right =
     (let (child', recs') = btr_node_del_child_only child recs at in
      if sib_on_right
      then btr_set_hkey
             (btr_set_child
                (btr_set_child par pat (Node child' (recs' @ [(btr_hkey_at par pat, sib_child)])))
                (pat + 1) (Node (snd (hd sib_recs)) (tl sib_recs)))
             pat (fst (hd sib_recs))
      else btr_set_hkey
             (btr_set_child
                (btr_set_child par pat
                   (Node (snd (last sib_recs)) ((btr_hkey_at par (pat - 1), child') # recs')))
                (pat - 1) (Node sib_child (butlast sib_recs)))
             (pat - 1) (fst (last sib_recs)))"

definition btr_node_del_child_merge ::
  "('h, 'r) btr_node \<Rightarrow> nat \<Rightarrow>
   ('h, 'r) btr_node \<Rightarrow> ('h \<times> ('h, 'r) btr_node) list \<Rightarrow> nat \<Rightarrow>
   ('h, 'r) btr_node \<Rightarrow> ('h \<times> ('h, 'r) btr_node) list \<Rightarrow> bool \<Rightarrow> ('h, 'r) btr_node \<times> nat" where
  "btr_node_del_child_merge par pat child recs at sib_child sib_recs sib_on_right =
     (let (child', recs') = btr_node_del_child_only child recs at in
      if sib_on_right
      then (btr_set_child
              (btr_set_child par pat
                 (Node child' (recs' @ (btr_hkey_at par pat, sib_child) # sib_recs)))
              (pat + 1) (Leaf []), pat + 1)
      else (btr_set_child
              (btr_set_child par pat (Leaf []))
              (pat - 1) (Node sib_child (sib_recs @ (btr_hkey_at par (pat - 1), child') # recs')), pat))"

definition btr_node_del_child ::
  "('h, 'r) btr_node \<Rightarrow> nat \<Rightarrow>
   ('h, 'r) btr_node \<Rightarrow> ('h \<times> ('h, 'r) btr_node) list \<Rightarrow> nat \<Rightarrow>
   (('h, 'r) btr_node \<times> ('h \<times> ('h, 'r) btr_node) list) option \<Rightarrow> bool \<Rightarrow>
   bool \<times> ('h, 'r) btr_node \<times> nat" where
  "btr_node_del_child par pat child recs at sib sib_on_right =
     (case sib of
        None \<Rightarrow>
          (case btr_node_del_child_only child recs at of (child', recs') \<Rightarrow>
             (False, btr_set_child par pat (Node child' recs'), pat))
      | Some (sib_child, sib_recs) \<Rightarrow>
          (if length sib_recs > 1
           then (False, btr_node_del_child_rebal par pat child recs at sib_child sib_recs sib_on_right,
                 pat)
           else (True, btr_node_del_child_merge par pat child recs at sib_child sib_recs sib_on_right)))"

text \<open>
  The choice of the sibling in \<^verbatim>\<open>btr_node_del_rec\<close>: none while the current node keeps a key;
  otherwise the right one where there is one with a record to spare or no left one, else the
  left one. The result is the index of the sibling.
\<close>

definition btr_del_sibling :: "('h, 'r) btr_node \<Rightarrow> nat \<Rightarrow> ('h, 'r) btr_node \<Rightarrow> (nat \<times> bool) option" where
  "btr_del_sibling par pat cur =
     (if tn_keyn cur > 1 then None
      else if pat = 0 then Some (1, True)
      else if pat = tn_keyn par then Some (pat - 1, False)
      else if tn_keyn (btr_node_child_at par (pat + 1)) > 1 then Some (pat + 1, True)
      else Some (pat - 1, False))"

fun btr_leaf_recs :: "('h, 'r) btr_node \<Rightarrow> ('h \<times> 'r) list" where
  "btr_leaf_recs (Leaf recs) = recs"

fun btr_child_recs ::
  "('h, 'r) btr_node \<Rightarrow> ('h, 'r) btr_node \<times> ('h \<times> ('h, 'r) btr_node) list" where
  "btr_child_recs (Node child recs) = (child, recs)"

definition btr_node_del_rec ::
  "('h, 'r) btr_node \<Rightarrow> nat \<Rightarrow> ('h, 'r) btr_node \<Rightarrow> nat \<Rightarrow> bool \<times> ('h, 'r) btr_node \<times> nat" where
  "btr_node_del_rec par pat cur at =
     (let sib = btr_del_sibling par pat cur;
          sib_nd = map_option (\<lambda>(i, _). btr_node_child_at par i) sib;
          sib_on_right = (case sib of Some (_, right) \<Rightarrow> right | None \<Rightarrow> False)
      in case cur of
           Leaf recs \<Rightarrow>
             btr_node_del_leaf par pat recs at (map_option btr_leaf_recs sib_nd) sib_on_right
         | Node child recs \<Rightarrow>
             btr_node_del_child par pat child recs at (map_option btr_child_recs sib_nd) sib_on_right)"

text \<open>\<^verbatim>\<open>btr_root_del_rec\<close>: the last record empties the tree, the last key makes it one level lower.\<close>

fun btr_root_del_rec :: "('h, 'r) btr_root \<Rightarrow> ('h, 'r) btr_node \<Rightarrow> nat \<Rightarrow> ('h, 'r) btr_root" where
  "btr_root_del_rec root (Leaf recs) at =
     (if length recs > 1
      then root\<lparr>tr_node := Some (Leaf (btr_node_del_leaf_only recs at))\<rparr>
      else root\<lparr>tr_depth := 0, tr_node := None\<rparr>)"
| "btr_root_del_rec root (Node child recs) at =
     (case btr_node_del_child_only child recs at of (child', recs') \<Rightarrow>
        if recs' = [] then root\<lparr>tr_depth := tr_depth root - 1, tr_node := Some child'\<rparr>
        else root\<lparr>tr_node := Some (Node child' recs')\<rparr>)"

text \<open>\<^verbatim>\<open>btr_delete\<close>: from the leaf up, as long as the deletion bubbles up.\<close>

fun btr_delete :: "('h, 'r) btr_root \<Rightarrow> ('h, 'r) btr_trace \<Rightarrow> ('h, 'r) btr_root" where
  "btr_delete root [(nd, at)] = btr_root_del_rec root nd at"
| "btr_delete root ((cur, at) # (par, pat) # trace) =
     (case btr_node_del_rec par pat cur at of (bubble_up, par', pat') \<Rightarrow>
        if bubble_up then btr_delete root ((par', pat') # trace)
        else root\<lparr>tr_node := Some (btr_writeback par' trace)\<rparr>)"

definition dbtree_delete ::
  "('k, 'v, 'h::linorder, 'r) btr_ops \<Rightarrow> ('h, 'r) btr_root \<Rightarrow> 'k \<Rightarrow> ('h, 'r) btr_root res" where
  "dbtree_delete ops root key =
     (case btr_probe ops root BTR_PROBE_EQ (Some key) None of (rc, trace) \<Rightarrow>
        if rc \<noteq> PROBE_RC_EQ then Inl DER_NONEXIST else Inr (btr_delete root trace))"

end
