(* ===== verification/Btree_Inv.thy ===== *)
theory Btree_Inv
  imports Btree
begin

text \<open>
  The invariants of the B+ tree of \<open>Btree\<close> and the lemmas on search paths that insertion and
  deletion share.

  \<open>elems\<close> flattens a node into the list of its separators (keys of non-leaf nodes) and records,
  left to right. A tree is ordered when that list is strictly ordered by \<open>ilt\<close>: a separator
  precedes the record of the same hashed key. Splitting, merging and rebalancing non-leaf nodes
  leave \<open>elems\<close> as it is; the operations on leaves add, remove or replace one separator. \<open>node_ok\<close>
  is the shape: every leaf at the same depth and between \<open>1\<close> and \<open>order - 1\<close> keys in every node.
\<close>

section \<open>Flattening\<close>

type_synonym ('h, 'r) item = "'h \<times> 'r option"

fun elems :: "('h, 'r) btr_node \<Rightarrow> ('h, 'r) item list" where
  "elems (Leaf recs) = map (\<lambda>(h, r). (h, Some r)) recs"
| "elems (Node child recs) = elems child @ concat (map (\<lambda>(h, nd). (h, None) # elems nd) recs)"

definition flat :: "('h \<times> ('h, 'r) btr_node) list \<Rightarrow> ('h, 'r) item list" where
  "flat recs = concat (map (\<lambda>(h, nd). (h, None) # elems nd) recs)"

lemma elems_Node [simp]: "elems (Node child recs) = elems child @ flat recs"
  by (simp add: flat_def)

declare elems.simps(2) [simp del]

lemma flat_simps [simp]:
  "flat [] = []" "flat ((h, nd) # recs) = (h, None) # elems nd @ flat recs"
  "flat (xs @ ys) = flat xs @ flat ys"
  by (simp_all add: flat_def)

lemma flat_Cons: "flat (x # recs) = (fst x, None) # elems (snd x) @ flat recs"
  by (cases x) simp

lemma flat_eq_Nil [simp]: "flat recs = [] \<longleftrightarrow> recs = []"
  by (cases recs) (auto simp: flat_Cons)

abbreviation recs_items :: "('h \<times> 'r) list \<Rightarrow> ('h, 'r) item list" where
  "recs_items recs \<equiv> map (\<lambda>(h, r). (h, Some r)) recs"

text \<open>The records of a flattened tree: the contents of the key-value store, in order.\<close>

fun item_recs :: "('h, 'r) item list \<Rightarrow> ('h \<times> 'r) list" where
  "item_recs [] = []"
| "item_recs ((h, None) # xs) = item_recs xs"
| "item_recs ((h, Some r) # xs) = (h, r) # item_recs xs"

abbreviation inorder :: "('h, 'r) btr_node \<Rightarrow> ('h \<times> 'r) list" where
  "inorder nd \<equiv> item_recs (elems nd)"

lemma item_recs_append [simp]: "item_recs (xs @ ys) = item_recs xs @ item_recs ys"
  by (induction xs rule: item_recs.induct) auto

lemma item_recs_recs_items [simp]: "item_recs (recs_items recs) = recs"
  by (induction recs) auto

lemma set_item_recs: "(h, r) \<in> set (item_recs xs) \<longleftrightarrow> (h, Some r) \<in> set xs"
  by (induction xs rule: item_recs.induct) auto

section \<open>Order\<close>

definition ilt :: "('h::linorder, 'r) item \<Rightarrow> ('h, 'r) item \<Rightarrow> bool" where
  "ilt x y \<longleftrightarrow> fst x < fst y \<or> fst x = fst y \<and> snd x = None \<and> snd y \<noteq> None"

lemma ilt_trans: "ilt x y \<Longrightarrow> ilt y z \<Longrightarrow> ilt x z"
  by (auto simp: ilt_def)

lemma ilt_simps [simp]:
  "ilt (h, None) (h', None) \<longleftrightarrow> h < h'"
  "ilt (h, Some r) (h', None) \<longleftrightarrow> h < h'"
  "ilt (h, Some r) (h', Some r') \<longleftrightarrow> h < h'"
  "ilt (h, None) (h', Some r') \<longleftrightarrow> h \<le> h'"
  by (auto simp: ilt_def)

abbreviation ordered :: "('h::linorder, 'r) item list \<Rightarrow> bool" where
  "ordered xs \<equiv> sorted_wrt ilt xs"

lemma ilt_irrefl: "\<not> ilt x x"
  by (auto simp: ilt_def)

lemma ilt_sep: "ilt x (h, None) \<longleftrightarrow> fst x < h"
  by (auto simp: ilt_def)

lemma ilt_fst: "ilt x y \<Longrightarrow> fst x \<le> fst y"
  by (auto simp: ilt_def)

lemma ordered_inorder:
  assumes "ordered xs" shows "sorted_wrt (<) (map fst (item_recs xs))"
  using assms
proof (induction xs rule: item_recs.induct)
  case (3 h r xs)
  then show ?case by (auto simp: set_item_recs dest: ilt_simps(3) [THEN iffD1])
qed auto

text \<open>An item between the two halves of an ordered list.\<close>

lemma ordered_insert:
  assumes "ordered (L @ R)" "\<forall>x\<in>set L. ilt x y" "\<forall>x\<in>set R. ilt y x"
  shows "ordered (L @ y # R)"
  using assms by (auto simp: sorted_wrt_append)

lemma ordered_remove: "ordered (L @ M @ R) \<Longrightarrow> ordered (L @ R)"
  by (auto simp: sorted_wrt_append)

text \<open>A record may be preceded by a separator of its key where the item before it is a record.\<close>

lemma ordered_sep:
  assumes "ordered (L @ x # (h, Some r) # R)" "fst x < h"
  shows "ordered (L @ x # (h, None) # (h, Some r) # R)"
proof -
  have "\<forall>y\<in>set L. ilt y (h, None)"
    using assms by (fastforce simp: sorted_wrt_append ilt_def)
  moreover have "\<forall>y\<in>set R. ilt (h, None) y"
    using assms by (fastforce simp: sorted_wrt_append ilt_def)
  moreover have "ilt x (h, None)" using assms(2) by (simp add: ilt_def)
  ultimately show ?thesis using assms by (simp add: sorted_wrt_append)
qed

lemma sorted_fst_split:
  assumes "sorted_wrt (<) (map fst (L @ (h::'h::linorder, r) # R))"
  shows "map_of L h = None" "map_of R h = None"
proof -
  have "\<forall>k\<in>set (map fst L). k < h" "\<forall>k\<in>set (map fst R). h < k"
    using assms by (auto simp: sorted_wrt_append)
  then have "h \<notin> set (map fst L)" "h \<notin> set (map fst R)" by blast+
  then show "map_of L h = None" "map_of R h = None" by (simp_all add: map_of_eq_None_iff)
qed

lemma ordered_map_of:
  assumes "sorted_wrt (<) (map fst (L @ (h::'h::linorder, r) # R))"
  shows "map_of (L @ (h, r) # R) = (map_of (L @ R))(h \<mapsto> r)"
  using sorted_fst_split [OF assms] by (auto simp: map_add_def fun_eq_iff split: option.splits)

lemma ordered_map_of_del:
  assumes "sorted_wrt (<) (map fst (L @ (h::'h::linorder, r) # R))"
  shows "map_of (L @ R) = (map_of (L @ (h, r) # R))(h := None)"
  using sorted_fst_split [OF assms] by (auto simp: map_add_def fun_eq_iff split: option.splits)

section \<open>Shape\<close>

fun node_ok :: "nat \<Rightarrow> nat \<Rightarrow> ('h, 'r) btr_node \<Rightarrow> bool" where
  "node_ok order 0 nd = False"
| "node_ok order (Suc d) (Leaf recs) \<longleftrightarrow> d = 0 \<and> 0 < length recs \<and> length recs < order"
| "node_ok order (Suc d) (Node child recs) \<longleftrightarrow>
     0 < length recs \<and> length recs < order \<and>
     node_ok order d child \<and> (\<forall>x\<in>set recs. node_ok order d (snd x))"

text \<open>The invariant of a tree.\<close>

definition btr_inv :: "('h::linorder, 'r) btr_root \<Rightarrow> bool" where
  "btr_inv root \<longleftrightarrow>
     BTR_ORDER_MIN \<le> tr_order root \<and>
     (case tr_node root of
        None \<Rightarrow> tr_depth root = 0
      | Some nd \<Rightarrow> node_ok (tr_order root) (tr_depth root) nd \<and> ordered (elems nd))"

definition btr_recs :: "('h, 'r) btr_root \<Rightarrow> ('h \<times> 'r) list" where
  "btr_recs root = (case tr_node root of None \<Rightarrow> [] | Some nd \<Rightarrow> inorder nd)"

lemma btr_inv_sorted: "btr_inv root \<Longrightarrow> sorted_wrt (<) (map fst (btr_recs root))"
  by (auto simp: btr_inv_def btr_recs_def ordered_inorder split: option.splits)

lemma node_ok_pos: "node_ok order d nd \<Longrightarrow> 0 < d"
  by (cases d) auto

lemma node_ok_leaf: "node_ok order d (Leaf recs) \<longleftrightarrow> d = 1 \<and> 0 < length recs \<and> length recs < order"
  by (cases d) auto

lemma node_ok_one: "node_ok order (Suc 0) nd \<Longrightarrow> \<exists>recs. nd = Leaf recs"
  by (cases nd) (auto dest: node_ok_pos)

lemma node_ok_Suc:
  "0 < d \<Longrightarrow> node_ok order (Suc d) nd \<Longrightarrow> \<exists>child recs. nd = Node child recs"
  by (cases nd) auto

lemma node_ok_keyn: "node_ok order d nd \<Longrightarrow> 0 < tn_keyn nd \<and> tn_keyn nd < order"
  by (cases nd; cases d) auto

lemma node_ok_child_at:
  "node_ok order (Suc d) (Node child recs) \<Longrightarrow> at \<le> length recs \<Longrightarrow>
   node_ok order d (btr_node_child_at (Node child recs) at)"
  by (cases at) (auto simp: btr_node_child_at.simps)

lemma inorder_nonempty: "node_ok order d nd \<Longrightarrow> inorder nd \<noteq> []"
  by (induction d arbitrary: nd) (case_tac nd; auto)+

section \<open>Search paths\<close>

text \<open>\<open>trace_of rt nd ps\<close>: the path \<open>ps\<close> (lowest level first) leads from \<open>rt\<close> down to \<open>nd\<close>.\<close>

fun trace_of :: "('h, 'r) btr_node \<Rightarrow> ('h, 'r) btr_node \<Rightarrow> ('h, 'r) btr_trace \<Rightarrow> bool" where
  "trace_of rt nd [] \<longleftrightarrow> nd = rt"
| "trace_of rt nd ((Leaf recs, at) # ps) \<longleftrightarrow> False"
| "trace_of rt nd ((Node child recs, at) # ps) \<longleftrightarrow>
     at \<le> length recs \<and> nd = btr_node_child_at (Node child recs) at \<and>
     trace_of rt (Node child recs) ps"

text \<open>The items left and right of the child \<open>at\<close> of a node, and of the node at the end of a path.\<close>

fun left_items :: "('h, 'r) btr_node \<Rightarrow> nat \<Rightarrow> ('h, 'r) item list" where
  "left_items (Leaf recs) at = recs_items (take at recs)"
| "left_items (Node child recs) at =
     (case at of 0 \<Rightarrow> []
      | Suc i \<Rightarrow> elems child @ flat (take i recs) @ [(fst (recs ! i), None)])"

fun right_items :: "('h, 'r) btr_node \<Rightarrow> nat \<Rightarrow> ('h, 'r) item list" where
  "right_items (Leaf recs) at = recs_items (drop at recs)"
| "right_items (Node child recs) at = flat (drop at recs)"

fun ctx_l :: "('h, 'r) btr_trace \<Rightarrow> ('h, 'r) item list" where
  "ctx_l [] = []"
| "ctx_l ((nd, at) # ps) = ctx_l ps @ left_items nd at"

fun ctx_r :: "('h, 'r) btr_trace \<Rightarrow> ('h, 'r) item list" where
  "ctx_r [] = []"
| "ctx_r ((nd, at) # ps) = right_items nd at @ ctx_r ps"

text \<open>The shape of a path whose end, a node of height \<open>d\<close>, hangs in a tree of height \<open>D\<close>.\<close>

fun ctx_ok :: "nat \<Rightarrow> nat \<Rightarrow> ('h, 'r) btr_trace \<Rightarrow> nat \<Rightarrow> bool" where
  "ctx_ok order d [] D \<longleftrightarrow> d = D"
| "ctx_ok order d ((Leaf recs, at) # ps) D \<longleftrightarrow> False"
| "ctx_ok order d ((Node child recs, at) # ps) D \<longleftrightarrow>
     at \<le> length recs \<and> 0 < d \<and> node_ok order (Suc d) (Node child recs) \<and> ctx_ok order (Suc d) ps D"

lemma set_child_elems [simp]:
  assumes "at \<le> length recs"
  shows "elems (btr_set_child (Node child recs) at nd) =
         left_items (Node child recs) at @ elems nd @ right_items (Node child recs) at"
proof (cases at)
  case (Suc i)
  then have "recs[i := (fst (recs ! i), nd)] = take i recs @ (fst (recs ! i), nd) # drop (Suc i) recs"
    using assms by (simp add: upd_conv_take_nth_drop)
  then show ?thesis using Suc by simp
qed simp

lemma child_at_elems:
  assumes "at \<le> length recs"
  shows "elems (Node child recs) =
         left_items (Node child recs) at @ elems (btr_node_child_at (Node child recs) at) @
         right_items (Node child recs) at"
proof (cases at)
  case (Suc i)
  then have "recs = take i recs @ recs ! i # drop (Suc i) recs"
    using assms by (simp add: id_take_nth_drop)
  then have "flat recs = flat (take i recs @ recs ! i # drop (Suc i) recs)" by simp
  then show ?thesis using Suc by (simp add: btr_node_child_at.simps flat_Cons)
qed (simp add: btr_node_child_at.simps)

lemma trace_of_elems:
  "trace_of rt nd ps \<Longrightarrow> elems rt = ctx_l ps @ elems nd @ ctx_r ps"
  by (induction rt nd ps rule: trace_of.induct) (auto simp del: elems_Node left_items.simps right_items.simps simp: child_at_elems)

lemma writeback_elems [simp]:
  "ctx_ok order d ps D \<Longrightarrow> elems (btr_writeback nd ps) = ctx_l ps @ elems nd @ ctx_r ps"
  by (induction order d ps D arbitrary: nd rule: ctx_ok.induct)
    (auto simp del: btr_set_child.simps left_items.simps right_items.simps)

lemma node_ok_set_child:
  assumes "node_ok order (Suc d) (Node child recs)" "at \<le> length recs" "node_ok order d nd"
  shows "node_ok order (Suc d) (btr_set_child (Node child recs) at nd)"
  using assms by (auto dest: set_update_subset_insert [THEN subsetD])

lemma writeback_ok:
  "ctx_ok order d ps D \<Longrightarrow> node_ok order d nd \<Longrightarrow> node_ok order D (btr_writeback nd ps)"
  by (induction order d ps D arbitrary: nd rule: ctx_ok.induct)
    (auto simp del: btr_set_child.simps node_ok.simps simp: node_ok_set_child)

lemma trace_of_ok:
  assumes "trace_of rt nd ps" "node_ok order D rt"
  obtains d where "node_ok order d nd" "ctx_ok order d ps D"
  using assms
proof (induction rt nd ps arbitrary: thesis rule: trace_of.induct)
  case (3 rt nd child recs at ps)
  obtain d where d: "node_ok order d (Node child recs)" "ctx_ok order d ps D"
    using "3.IH" "3.prems" by auto
  then obtain e where e: "d = Suc e" by (cases d) auto
  have "node_ok order e nd" using d(1) "3.prems"(2) unfolding e by (auto intro: node_ok_child_at)
  moreover from this have "ctx_ok order e ((Node child recs, at) # ps) D"
    using d "3.prems"(2) unfolding e by (auto dest: node_ok_pos)
  ultimately show ?case using "3.prems"(1) by blast
qed auto

lemma append_eq_context: "a @ b = c @ d \<Longrightarrow> a @ b @ x = c @ d @ x"
  by (metis append.assoc)

lemma set_child_cases:
  assumes "at \<le> length recs"
  obtains c1 recs1 where "btr_set_child (Node child recs) at nd = Node c1 recs1" "length recs1 = length recs"
    "elems c1 @ flat (take at recs1) = left_items (Node child recs) at @ elems nd"
    "drop at recs1 = drop at recs"
proof (cases at)
  case 0
  then show ?thesis by (intro that [of nd recs]) auto
next
  case (Suc i)
  then have "take (Suc i) (recs[i := (fst (recs ! i), nd)]) = take i recs @ [(fst (recs ! i), nd)]"
    using assms by (simp add: take_Suc_conv_app_nth)
  then show ?thesis
    using Suc by (intro that [of child "recs[i := (fst (recs ! i), nd)]"]) auto
qed

end
