(* ===== verification/Btree_Search.thy ===== *)
theory Btree_Search
  imports Btree_Inv
begin

text \<open>
  Correctness of probing: the binary search within a node, the descent to a leaf, and the
  cursor moves to the next and to the previous record.
\<close>

section \<open>Binary search\<close>

text \<open>
  What the search in a sorted list of keys may end with: the key at \<open>at\<close> (\<open>cmp = 0\<close>), the last
  smaller key (\<open>cmp < 0\<close>) or the first greater one (\<open>cmp > 0\<close>).
\<close>

definition search_ok :: "'h::linorder list \<Rightarrow> 'h \<Rightarrow> int \<Rightarrow> int \<Rightarrow> bool" where
  "search_ok hkeys hkey at cmp \<longleftrightarrow>
     0 \<le> at \<and> at < int (length hkeys) \<and>
     (\<forall>i < length hkeys.
        (int i < at \<longrightarrow> hkeys ! i < hkey) \<and> (at < int i \<longrightarrow> hkey < hkeys ! i)) \<and>
     (cmp = 0 \<longleftrightarrow> hkeys ! nat at = hkey) \<and> (cmp < 0 \<longleftrightarrow> hkeys ! nat at < hkey)"

lemma c_half_between: "start < end \<Longrightarrow> 0 \<le> start \<Longrightarrow> start \<le> c_half (start + end) \<and> c_half (start + end) < end"
  by (auto simp: c_half_def)

lemma btr_bsearch_ok:
  assumes "sorted_wrt (<) hkeys" "hkeys \<noteq> []"
    and "0 \<le> start" "end < int (length hkeys)" "start \<le> end + 1"
    and "\<forall>i < length hkeys. (int i < start \<longrightarrow> hkeys ! i < hkey) \<and> (end < int i \<longrightarrow> hkey < hkeys ! i)"
    and "btr_bsearch hkeys hkey start end = (at, cmp)"
  shows "search_ok hkeys hkey at cmp"
  using assms
proof (induction hkeys hkey start "end" rule: btr_bsearch.induct)
  case (1 hkeys hkey start "end")
  let ?m = "c_half (start + end)"
  let ?c = "btr_hkey_cmp (hkeys ! nat ?m) hkey"
  have less: "hkeys ! i < hkeys ! j" if "i < j" "j < length hkeys" for i j
    using "1.prems"(1) that by (simp add: sorted_wrt_nth_less)
  have le: "hkeys ! i \<le> hkeys ! j" if "i \<le> j" "j < length hkeys" for i j
    using less [of i j] that by (cases "i = j") auto
  show ?case
  proof (cases "start < end \<and> ?c \<noteq> 0")
    case True
    then have m: "start \<le> ?m" "?m < end" using c_half_between "1.prems"(3) by auto
    show ?thesis
    proof (cases "?c < 0")
      case c: True
      then have "hkeys ! nat ?m < hkey" by (auto simp: btr_hkey_cmp_def split: if_splits)
      moreover have "hkeys ! i \<le> hkeys ! nat ?m" if "int i < ?m + 1" for i
        by (rule le) (use m "1.prems"(3,4) that in linarith)+
      ultimately have "\<forall>i < length hkeys. int i < ?m + 1 \<longrightarrow> hkeys ! i < hkey"
        by (meson order_le_less_trans)
      then show ?thesis
        using "1.IH"(1) [OF refl refl True c] True c m "1.prems" btr_bsearch.simps [of hkeys hkey start "end"]
        by (simp add: Let_def)
    next
      case c: False
      then have "hkey < hkeys ! nat ?m" using True by (auto simp: btr_hkey_cmp_def split: if_splits)
      moreover have "hkeys ! nat ?m \<le> hkeys ! i" if "i < length hkeys" "?m - 1 < int i" for i
        by (rule le) (use m "1.prems"(3,4) that in linarith)+
      ultimately have "\<forall>i < length hkeys. ?m - 1 < int i \<longrightarrow> hkey < hkeys ! i"
        by (meson order_less_le_trans)
      then show ?thesis
        using "1.IH"(2) [OF refl refl True c] True c m "1.prems" btr_bsearch.simps [of hkeys hkey start "end"]
        by (simp add: Let_def)
    qed
  next
    case False
    then have r: "at = ?m" "cmp = ?c"
      using "1.prems"(7) btr_bsearch.simps [of hkeys hkey start "end"] by (auto simp: Let_def split: if_splits)
    consider (eq) "?c = 0" "start \<le> end" | (one) "start = end" | (none) "start = end + 1" "0 < start"
      | (low) "start = 0" "end = - 1"
      using False "1.prems"(3,5) by linarith
    then show ?thesis
    proof cases
      case eq
      then have "hkeys ! nat ?m = hkey" by (auto simp: btr_hkey_cmp_def split: if_splits)
      moreover have "0 \<le> ?m" "?m < int (length hkeys)" using eq "1.prems"(3,4) by (auto simp: c_half_def)
      moreover from this have "hkeys ! i < hkeys ! nat ?m" if "int i < ?m" for i
        using less [of i "nat ?m"] that by auto
      moreover have "hkeys ! nat ?m < hkeys ! i" if "?m < int i" "i < length hkeys" for i
        using less [of "nat ?m" i] that \<open>0 \<le> ?m\<close> by auto
      ultimately show ?thesis unfolding r search_ok_def by (auto simp: btr_hkey_cmp_def)
    next
      case one
      then have "?m = start" using "1.prems"(3) by (simp add: c_half_def)
      then show ?thesis using one "1.prems"(3,4,6) unfolding r search_ok_def by (auto simp: btr_hkey_cmp_def)
    next
      case none
      then have m: "?m = start - 1" by (simp add: c_half_def)
      have "nat (start - 1) < length hkeys" "int (nat (start - 1)) < start" using none "1.prems"(4) by auto
      then have "hkeys ! nat (start - 1) < hkey" using "1.prems"(6) by blast
      then have "search_ok hkeys hkey (start - 1) (- 1)"
        using none "1.prems"(4,6) less_imp_neq [of _ hkey] by (simp add: search_ok_def)
      moreover have "?c = - 1" using \<open>hkeys ! nat (start - 1) < hkey\<close> m by (simp add: btr_hkey_cmp_def)
      ultimately show ?thesis unfolding r m by simp
    next
      case low
      then have m: "?m = 0" by (simp add: c_half_def)
      then show ?thesis using low "1.prems"(2,6) unfolding r search_ok_def
        by (auto simp: btr_hkey_cmp_def)
    qed
  qed
qed

definition probe_key :: "btr_probe_opc \<Rightarrow> bool" where
  "probe_key opc \<longleftrightarrow> opc \<noteq> BTR_PROBE_FIRST \<and> opc \<noteq> BTR_PROBE_LAST"

lemma btr_node_search_ok:
  assumes "sorted_wrt (<) hkeys" "hkeys \<noteq> []" "probe_key opc"
    and "btr_node_search opc hkeys hkey = (at, cmp)"
  shows "search_ok hkeys hkey at cmp"
proof (rule btr_bsearch_ok [OF assms(1,2)])
  show "btr_bsearch hkeys hkey 0 (int (length hkeys) - 1) = (at, cmp)"
    using assms(3,4) by (auto simp: btr_node_search_def probe_key_def split: btr_probe_opc.splits)
qed auto

text \<open>The child to descend to: the keys before it are at most \<open>hkey\<close>, those after it greater.\<close>

lemma search_ok_child:
  assumes "search_ok hkeys hkey at cmp" "p = nat (at + (if cmp \<le> 0 then 1 else 0))"
  shows "p \<le> length hkeys" "\<And>i. i < p \<Longrightarrow> hkeys ! i \<le> hkey"
    "\<And>i. p \<le> i \<Longrightarrow> i < length hkeys \<Longrightarrow> hkey < hkeys ! i"
proof -
  have h: "hkeys ! nat at \<le> hkey \<longleftrightarrow> cmp \<le> 0" using assms(1) by (auto simp: search_ok_def)
  show "p \<le> length hkeys" using assms by (auto simp: search_ok_def)
  show "hkeys ! i \<le> hkey" if "i < p" for i
    using assms that h by (cases "int i = at") (auto simp: search_ok_def intro: less_imp_le split: if_splits)
  show "hkey < hkeys ! i" if "p \<le> i" "i < length hkeys" for i
    using assms that h by (cases "int i = at") (auto simp: search_ok_def split: if_splits)
qed

section \<open>Descent\<close>

text \<open>An item that a record of key \<open>hkey\<close> belongs after.\<close>

definition below :: "'h::linorder \<Rightarrow> ('h, 'r) item \<Rightarrow> bool" where
  "below hkey x \<longleftrightarrow> fst x < hkey \<or> fst x = hkey \<and> snd x = None"

lemma sep_in_flat: "y \<in> set recs \<Longrightarrow> (fst y, None) \<in> set (flat recs)"
  by (induction recs) auto

lemma ordered_keys: "ordered (flat recs) \<Longrightarrow> sorted_wrt (<) (map fst recs)"
proof (induction recs)
  case (Cons x recs)
  obtain h nd where x: "x = (h, nd)" by force
  have "h < fst y" if "y \<in> set recs" for y
  proof -
    have "(fst y, None) \<in> set (flat recs)" using that by (intro sep_in_flat)
    then have "ilt (h, None) (fst y, None :: 'b option)" using Cons.prems x by (auto simp del: ilt_simps)
    then show ?thesis by simp
  qed
  moreover have "ordered (flat recs)" using Cons.prems x by (auto simp: sorted_wrt_append)
  ultimately show ?case using Cons.IH x by auto
qed simp

lemma left_items_below:
  assumes "ordered (left_items (Node child recs) p)" "\<And>i. i < p \<Longrightarrow> fst (recs ! i) \<le> hkey"
  shows "\<forall>x\<in>set (left_items (Node child recs) p). below hkey x"
proof (cases p)
  case (Suc i)
  let ?L = "elems child @ flat (take i recs)"
  have le: "fst (recs ! i) \<le> hkey" using assms(2) Suc by simp
  have "\<forall>x\<in>set ?L. ilt x (fst (recs ! i), None)"
    using assms(1) Suc by (simp add: sorted_wrt_append) blast
  then have "\<forall>x\<in>set ?L. fst x < fst (recs ! i)" by (simp only: ilt_sep)
  then have "\<forall>x\<in>set ?L. below hkey x" using le unfolding below_def by (meson order_less_le_trans)
  moreover have "below hkey (fst (recs ! i), None :: 'b option)"
    using le by (auto simp: below_def)
  ultimately show ?thesis using Suc by auto
qed simp

lemma right_items_above:
  assumes "ordered (right_items (Node child recs) p)" "p < length recs \<Longrightarrow> hkey < fst (recs ! p)"
  shows "\<forall>x\<in>set (right_items (Node child recs) p). hkey < fst x"
proof (cases "p < length recs")
  case True
  obtain h nd where hd: "recs ! p = (h, nd)" by force
  have d: "drop p recs = (h, nd) # drop (Suc p) recs"
    using True hd by (metis Cons_nth_drop_Suc)
  have "\<forall>x\<in>set (elems nd @ flat (drop (Suc p) recs)). ilt (h, None) x"
    using assms(1) unfolding right_items.simps d by simp
  then have "\<forall>x\<in>set (elems nd @ flat (drop (Suc p) recs)). h \<le> fst x"
    by (metis fst_conv ilt_fst)
  moreover have "hkey < h" using assms(2) True hd by simp
  ultimately have "\<forall>x\<in>set (elems nd @ flat (drop (Suc p) recs)). hkey < fst x"
    by (meson order_less_le_trans)
  then show ?thesis using \<open>hkey < h\<close> unfolding right_items.simps d by simp
qed simp

text \<open>
  The descent ends at the leaf where a record of key \<open>hkey\<close> is or would be: what precedes the
  leaf is below \<open>hkey\<close>, what follows it above.
\<close>

definition probe_ok ::
  "('h::linorder, 'r) btr_node \<Rightarrow> 'h \<Rightarrow> ('h \<times> 'r) list \<Rightarrow> int \<Rightarrow> int \<Rightarrow> ('h, 'r) btr_trace \<Rightarrow> bool" where
  "probe_ok rt hkey recs at cmp ps \<longleftrightarrow>
     trace_of rt (Leaf recs) ps \<and> search_ok (map fst recs) hkey at cmp \<and>
     (\<forall>x\<in>set (ctx_l ps). below hkey x) \<and> (\<forall>x\<in>set (ctx_r ps). hkey < fst x)"

lemma btr_probe_down_ok:
  assumes "probe_key opc" "ordered (elems rt)" "trace_of rt nd ps" "node_ok order d nd"
    and "\<forall>x\<in>set (ctx_l ps). below hkey x" "\<forall>x\<in>set (ctx_r ps). hkey < fst x"
  shows "\<exists>recs at cmp ps'. btr_probe_down opc hkey nd ps = (Leaf recs, at, cmp, ps') \<and>
           probe_ok rt hkey recs at cmp ps'"
  using assms
proof (induction opc hkey nd ps arbitrary: d rule: btr_probe_down.induct)
  case (1 opc hkey recs ps)
  obtain at cmp where s: "btr_node_search opc (map fst recs) hkey = (at, cmp)" by force
  have "ordered (recs_items recs)"
    using trace_of_elems [OF "1.prems"(3)] "1.prems"(2) by (simp add: sorted_wrt_append)
  then have "sorted_wrt (<) (map fst recs)" using ordered_inorder by fastforce
  then have "search_ok (map fst recs) hkey at cmp"
    using s "1.prems"(1,4) by (intro btr_node_search_ok) (auto simp: node_ok_leaf)
  then show ?case using s "1.prems" by (auto simp: probe_ok_def)
next
  case (2 opc hkey child recs ps)
  obtain at cmp where s: "btr_node_search opc (map fst recs) hkey = (at, cmp)" by force
  define p where "p = nat (at + (if cmp \<le> 0 then 1 else 0))"
  obtain e where e: "d = Suc e" "node_ok order (Suc e) (Node child recs)"
    using "2.prems"(4) by (cases d) auto
  have ord: "ordered (ctx_l ps @ elems (Node child recs) @ ctx_r ps)"
    using trace_of_elems [OF "2.prems"(3)] "2.prems"(2) by simp
  then have "sorted_wrt (<) (map fst recs)"
    by (intro ordered_keys) (auto simp: sorted_wrt_append)
  then have so: "search_ok (map fst recs) hkey at cmp"
    using s "2.prems"(1) e(2) by (intro btr_node_search_ok) auto
  note sc = search_ok_child [OF so p_def, simplified]
  have split: "elems (Node child recs) = left_items (Node child recs) p @
      elems (btr_node_child_at (Node child recs) p) @ right_items (Node child recs) p"
    using sc(1) by (intro child_at_elems) simp
  have o2: "ordered (left_items (Node child recs) p)" "ordered (right_items (Node child recs) p)"
    using ord unfolding split by (auto simp only: sorted_wrt_append)
  have "\<forall>x\<in>set (left_items (Node child recs) p). below hkey x"
    using sc(1,2) by (intro left_items_below o2(1)) auto
  moreover have "\<forall>x\<in>set (right_items (Node child recs) p). hkey < fst x"
    using sc(3) by (intro right_items_above o2(2)) auto
  ultimately have ctx: "\<forall>x\<in>set (ctx_l ((Node child recs, p) # ps)). below hkey x"
    "\<forall>x\<in>set (ctx_r ((Node child recs, p) # ps)). hkey < fst x"
    using "2.prems"(5,6) by (simp_all only: ctx_l.simps ctx_r.simps set_append) blast+
  have tr: "trace_of rt (btr_node_child_at (Node child recs) p) ((Node child recs, p) # ps)"
    using sc(1) "2.prems"(3) by simp
  show ?case
    using "2.IH" [OF s [symmetric] p_def sc(1) "2.prems"(1,2) tr node_ok_child_at [OF e(2) sc(1)] ctx] sc(1)
    unfolding btr_probe_down.simps(2) s prod.case Let_def p_def [symmetric] by (simp only: if_True)
qed

end
