(* ===== verification/Btree_Insert.thy ===== *)
theory Btree_Insert
  imports Btree_Search
begin

text \<open>
  Insertion: node splits distribute the records of a full node and the new record over two nodes
  without changing their order; the path above the leaf is repaired up to a new root; the tree
  invariant is kept and the contents grow by the new record.
\<close>

section \<open>Splits\<close>

lemma insert_rec_left:
  "at \<le> sp \<Longrightarrow> btr_node_insert_rec_only (take sp recs) at rec @ drop sp recs =
    btr_node_insert_rec_only recs at rec"
  by (simp add: btr_node_insert_rec_only_def min_def drop_take)
    (metis append_take_drop_id drop_drop le_add_diff_inverse2 take_drop)

lemma insert_rec_right:
  "sp \<le> at \<Longrightarrow> take sp recs @ btr_node_insert_rec_only (drop sp recs) (at - sp) rec =
    btr_node_insert_rec_only recs at rec"
  by (simp add: btr_node_insert_rec_only_def) (metis append.assoc le_add_diff_inverse take_add)

lemma insert_rec_Cons:
  "0 < at \<Longrightarrow> btr_node_insert_rec_only (x # xs) at rec = x # btr_node_insert_rec_only xs (at - 1) rec"
  by (cases at) (simp_all add: btr_node_insert_rec_only_def)

lemma length_insert_rec [simp]:
  "at \<le> length recs \<Longrightarrow> length (btr_node_insert_rec_only recs at rec) = Suc (length recs)"
  by (simp add: btr_node_insert_rec_only_def)

lemma set_insert_rec [simp]: "set (btr_node_insert_rec_only recs at rec) = insert rec (set recs)"
proof -
  have "set recs = set (take at recs) \<union> set (drop at recs)" by (metis append_take_drop_id set_append)
  then show ?thesis by (auto simp: btr_node_insert_rec_only_def)
qed

lemma insert_rec_ne [simp]: "btr_node_insert_rec_only recs at rec \<noteq> []"
  by (simp add: btr_node_insert_rec_only_def)

lemma btr_leaf_split_ok:
  assumes "3 \<le> order" "length recs = order - 1" "at \<le> length recs"
  obtains l r where "btr_leaf_split_and_insert order recs at rec = (Leaf l, fst (hd r), Leaf r)"
    "l @ r = btr_node_insert_rec_only recs at rec" "l \<noteq> []" "r \<noteq> []" "length l < order" "length r < order"
proof (cases "at < order div 2")
  case True
  show ?thesis
    using True assms insert_rec_left [of at "order div 2" recs rec]
    by (intro that [of "btr_node_insert_rec_only (take (order div 2) recs) at rec" "drop (order div 2) recs"])
      (auto simp: btr_leaf_split_and_insert_def btr_split_at_def Let_def btr_node_insert_rec_only_def)
next
  case False
  show ?thesis
    using False assms insert_rec_right [of "order div 2" at recs rec]
    by (intro that [of "take (order div 2) recs"
          "btr_node_insert_rec_only (drop (order div 2) recs) (at - order div 2) rec"])
      (auto simp: btr_leaf_split_and_insert_def btr_split_at_def Let_def btr_node_insert_rec_only_def)
qed

lemma btr_child_split_ok:
  assumes "3 \<le> order" "length recs = order - 1" "at \<le> length recs"
  obtains l h c r where "btr_child_split_and_insert order child recs at rec = (Node child l, h, Node c r)"
    "l @ (h, c) # r = btr_node_insert_rec_only recs at rec" "l \<noteq> []" "r \<noteq> []"
    "length l < order" "length r < order"
proof -
  let ?sp = "order div 2"
  consider (left) "at < ?sp" | (first) "at = ?sp" | (right) "?sp < at" by linarith
  then show ?thesis
  proof cases
    case left
    let ?s = "drop (?sp - 1) recs"
    have ne: "?s \<noteq> []" using assms by auto
    have len: "length (tl ?s) = order - 1 - ?sp" using assms left by simp
    then have "0 < length (tl ?s)" using assms by linarith
    then have ne2: "tl ?s \<noteq> []" by (rule length_greater_0_conv [THEN iffD1])
    show ?thesis
      by (rule that [of "btr_node_insert_rec_only (take (?sp - 1) recs) at rec" "fst (hd ?s)" "snd (hd ?s)"
            "tl ?s"])
        (use assms left ne ne2 len insert_rec_left [of at "?sp - 1" recs rec] in
          \<open>auto simp: btr_child_split_and_insert_def btr_split_at_def Let_def min_def\<close>)
  next
    case first
    show ?thesis
      by (rule that [of "take ?sp recs" "fst rec" "snd rec" "drop ?sp recs"])
        (use assms first in
          \<open>auto simp: btr_child_split_and_insert_def btr_split_at_def Let_def btr_node_insert_rec_only_def\<close>)
  next
    case right
    let ?s = "drop ?sp recs"
    obtain x xs where s: "?s = x # xs" using assms right by (cases ?s) auto
    have len: "length xs = order - 2 - ?sp" using arg_cong [OF s, of length] assms by simp
    show ?thesis
      by (rule that [of "take ?sp recs" "fst x" "snd x" "btr_node_insert_rec_only xs (at - ?sp - 1) rec"])
        (use assms right s len insert_rec_right [of ?sp at recs rec] insert_rec_Cons [of "at - ?sp" x xs rec] in
          \<open>auto simp: btr_child_split_and_insert_def btr_split_at_def Let_def\<close>)
  qed
qed

section \<open>Repairing the path\<close>

text \<open>The parent after its child \<open>at\<close> has been replaced by \<open>left\<close>, ready for the record of \<open>right\<close>.\<close>

lemma parent_insert:
  assumes "at \<le> length recs" "node_ok order (Suc d) (Node child recs)" "node_ok order d left"
  obtains c1 recs1 where "btr_set_child (Node child recs) at left = Node c1 recs1"
    "length recs1 = length recs" "node_ok order (Suc d) (Node c1 recs1)"
    "\<And>h right. elems c1 @ flat (btr_node_insert_rec_only recs1 at (h, right)) =
       left_items (Node child recs) at @ elems left @ (h, None) # elems right @
       right_items (Node child recs) at"
proof -
  obtain c1 recs1 where c1: "btr_set_child (Node child recs) at left = Node c1 recs1"
    "length recs1 = length recs"
    "elems c1 @ flat (take at recs1) = left_items (Node child recs) at @ elems left"
    "drop at recs1 = drop at recs"
    using set_child_cases [OF assms(1)] by metis
  show ?thesis
  proof (rule that [OF c1(1,2)])
    show "node_ok order (Suc d) (Node c1 recs1)"
      using node_ok_set_child [OF assms(2,1,3)] unfolding c1(1) .
    show "elems c1 @ flat (btr_node_insert_rec_only recs1 at (h, right)) =
        left_items (Node child recs) at @ elems left @ (h, None) # elems right @
        right_items (Node child recs) at" for h right
      using c1(3,4) by (simp add: btr_node_insert_rec_only_def del: left_items.simps)
  qed
qed

lemma btr_child_insert_rec_ok:
  assumes "3 \<le> order" "ctx_ok order d ps D" "node_ok order d left" "node_ok order d right"
    and "btr_child_insert_rec order ps left (h, right) = (nd, grown)"
  shows "elems nd = ctx_l ps @ elems left @ (h, None) # elems right @ ctx_r ps \<and>
         node_ok order (if grown then Suc D else D) nd"
  using assms
proof (induction order d ps D arbitrary: left h right rule: ctx_ok.induct)
  case (3 order d child recs at ps D)
  have ctx: "at \<le> length recs" "node_ok order (Suc d) (Node child recs)" "ctx_ok order (Suc d) ps D"
    using "3.prems"(2) by simp_all
  obtain c1 recs1 where c1: "btr_set_child (Node child recs) at left = Node c1 recs1"
    "length recs1 = length recs" "node_ok order (Suc d) (Node c1 recs1)"
    and ins: "\<And>h right. elems c1 @ flat (btr_node_insert_rec_only recs1 at (h, right)) =
       left_items (Node child recs) at @ elems left @ (h, None) # elems right @
       right_items (Node child recs) at"
    using parent_insert [OF ctx(1,2) "3.prems"(3)] by metis
  let ?ins = "btr_node_insert_rec_only recs1 at (h, right)"
  show ?case
  proof (cases "btr_node_is_full order (Node child recs)")
    case True
    then have full: "length recs1 = order - 1" "at \<le> length recs1"
      using c1(2) ctx(1) by (simp_all add: btr_node_is_full_def)
    obtain l h' c r where sp:
      "btr_child_split_and_insert order c1 recs1 at (h, right) = (Node c1 l, h', Node c r)"
      "l @ (h', c) # r = ?ins" "l \<noteq> []" "r \<noteq> []" "length l < order" "length r < order"
      by (rule btr_child_split_ok [OF "3.prems"(1) full])
    have mem: "set (l @ (h', c) # r) = insert (h, right) (set recs1)"
      unfolding sp(2) by simp
    have "\<forall>x\<in>set (l @ (h', c) # r). node_ok order d (snd x)"
      unfolding mem using c1(3) "3.prems"(4) by simp
    then have ok: "node_ok order (Suc d) (Node c1 l)" "node_ok order (Suc d) (Node c r)"
      using c1(3) sp(3-6) by simp_all
    have r: "btr_child_insert_rec order ps (Node c1 l) (h', Node c r) = (nd, grown)"
      using "3.prems"(5) c1(1) sp(1) True by simp
    have "elems (Node c1 l) @ (h', None) # elems (Node c r) = elems c1 @ flat ?ins"
      unfolding sp(2) [symmetric] by simp
    then show ?thesis
      using "3.IH" [OF "3.prems"(1) ctx(3) ok r] ins [of h right]
      by (simp del: left_items.simps right_items.simps elems_Node)
  next
    case False
    then have r: "nd = btr_writeback (Node c1 ?ins) ps" "\<not> grown"
      using "3.prems"(5) c1(1) by auto
    have "length recs1 < order - 1" using False ctx(2) c1(2) by (auto simp: btr_node_is_full_def)
    then have "node_ok order (Suc d) (Node c1 ?ins)"
      using c1(2,3) "3.prems"(4) ctx(1) by auto
    then show ?thesis
      using r writeback_ok [OF ctx(3)] writeback_elems [OF ctx(3)] ins [of h right]
      by (simp del: left_items.simps right_items.simps)
  qed
qed (auto simp: btr_root_grow_def)

section \<open>Inserting a record\<close>

text \<open>
  \<open>Suc d\<close> levels of a tree of depth \<open>D\<close> are the leaf and \<open>d\<close> levels above it; a new record at
  index \<open>at\<close> of the leaf stands at the same place of the contents.
\<close>

lemma btr_node_insert_rec_ok:
  assumes "3 \<le> order" "ctx_ok order (Suc 0) ps D" "node_ok order (Suc 0) (Leaf recs)" "at \<le> length recs"
    and ord: "ordered (ctx_l ps @ recs_items (btr_node_insert_rec_only recs at (h, r)) @ ctx_r ps)"
    and "btr_node_insert_rec order ((Leaf recs, at) # ps) (h, r) = (nd, grown)"
  shows "ordered (elems nd) \<and> node_ok order (if grown then Suc D else D) nd \<and>
    inorder nd = item_recs (ctx_l ps) @ btr_node_insert_rec_only recs at (h, r) @ item_recs (ctx_r ps)"
proof (cases "btr_node_is_full order (Leaf recs)")
  case True
  then have "length recs = order - 1" by (simp add: btr_node_is_full_def)
  with assms(1) obtain l r' where sp:
    "btr_leaf_split_and_insert order recs at (h, r) = (Leaf l, fst (hd r'), Leaf r')"
    "l @ r' = btr_node_insert_rec_only recs at (h, r)" "l \<noteq> []" "r' \<noteq> []" "length l < order" "length r' < order"
    using assms(4) by (elim btr_leaf_split_ok)
  have "btr_child_insert_rec order ps (Leaf l) (fst (hd r'), Leaf r') = (nd, grown)"
    using assms(6) True sp(1) by simp
  from btr_child_insert_rec_ok [OF assms(1,2) _ _ this] sp(3-6)
  have nd: "elems nd = ctx_l ps @ recs_items l @ (fst (hd r'), None) # recs_items r' @ ctx_r ps"
    "node_ok order (if grown then Suc D else D) nd" by auto
  obtain l' y x r'' where lr: "l = l' @ [y]" "r' = x # r''"
    using sp(3,4) by (cases l rule: rev_cases; cases r') auto
  have o: "ordered ((ctx_l ps @ recs_items l') @ (fst y, Some (snd y)) # (fst x, Some (snd x)) #
      recs_items r'' @ ctx_r ps)"
    using ord unfolding sp(2) [symmetric] lr by (simp add: case_prod_beta)
  then have "fst y < fst x" by (simp add: sorted_wrt_append)
  then have "ordered (elems nd)" using ordered_sep [OF o] nd(1) lr by (simp add: case_prod_beta)
  then show ?thesis using nd sp(2) by simp
next
  case False
  then have nd: "nd = btr_writeback (Leaf (btr_node_insert_rec_only recs at (h, r))) ps" "\<not> grown"
    using assms(6) by auto
  have "length recs < order - 1" using False assms(3) by (auto simp: btr_node_is_full_def)
  then have "node_ok order (Suc 0) (Leaf (btr_node_insert_rec_only recs at (h, r)))"
    using assms(4) by simp
  then show ?thesis using nd ord writeback_ok [OF assms(2)] assms(2) by simp
qed

end
