(* ===== verification/Btree_Delete.thy ===== *)
theory Btree_Delete
  imports Btree_Inv
begin

text \<open>
  Deletion: a node that would lose its last key takes one from a sibling or is merged with it, in
  which case the parent loses a child, up to the root. Only leaves change separators, and keep
  the order; the contents lose the deleted record.
\<close>

section \<open>Exchanging separators\<close>

text \<open>
  \<open>ys\<close> may replace \<open>xs\<close> in an ordered tree: the records are the same, and the list stays ordered
  in every context.
\<close>

definition resep :: "('h::linorder, 'r) item list \<Rightarrow> ('h, 'r) item list \<Rightarrow> bool" where
  "resep xs ys \<longleftrightarrow>
     item_recs ys = item_recs xs \<and> (\<forall>L R. ordered (L @ xs @ R) \<longrightarrow> ordered (L @ ys @ R))"

lemma resep_refl [simp, intro]: "resep xs xs"
  by (simp add: resep_def)

lemma resep_trans: "resep xs ys \<Longrightarrow> resep ys zs \<Longrightarrow> resep xs zs"
  by (auto simp: resep_def)

lemma resep_context: "resep xs ys \<Longrightarrow> resep (L @ xs @ R) (L @ ys @ R)"
  by (auto simp: resep_def) (metis append.assoc)

lemma resep_drop_sep: "resep (xs @ (h, None) # ys) (xs @ ys)"
  by (auto simp: resep_def sorted_wrt_append)

lemma resep_move_sep:
  assumes "l @ r = a @ b" "a \<noteq> []" "b \<noteq> []"
  shows "resep (recs_items l @ (h, None) # recs_items r) (recs_items a @ (fst (hd b), None) # recs_items b)"
proof -
  obtain a' y x b' where ab: "a = a' @ [y]" "b = x # b'"
    using assms(2,3) by (cases a rule: rev_cases; cases b) auto
  have "ordered (L @ recs_items a @ (fst x, None) # recs_items b @ R)"
    if "ordered (L @ recs_items (l @ r) @ R)" for L R
  proof -
    have o: "ordered ((L @ recs_items a') @ (fst y, Some (snd y)) # (fst x, Some (snd x)) # recs_items b' @ R)"
      using that unfolding assms(1) ab by (simp add: case_prod_beta)
    then have "fst y < fst x" by (simp add: sorted_wrt_append)
    then show ?thesis using ordered_sep [OF o] by (simp add: ab case_prod_beta)
  qed
  then have "resep (recs_items (l @ r)) (recs_items a @ (fst x, None) # recs_items b)"
    using assms(1) by (simp add: resep_def)
  then show ?thesis
    using resep_trans [OF resep_drop_sep [of "recs_items l" h "recs_items r"]] ab by simp
qed

section \<open>Two neighbouring children\<close>

lemma left_items_Suc:
  "q < length recs \<Longrightarrow> left_items (Node child recs) (Suc q) =
    left_items (Node child recs) q @ elems (btr_node_child_at (Node child recs) q) @
    [(fst (recs ! q), None)]"
  by (cases q) (auto simp: btr_node_child_at.simps take_Suc_conv_app_nth flat_Cons)

lemma right_items_drop:
  "q < length recs \<Longrightarrow> right_items (Node child recs) q =
    (fst (recs ! q), None) # elems (btr_node_child_at (Node child recs) (Suc q)) @
    right_items (Node child recs) (Suc q)"
  by (simp add: btr_node_child_at.simps flat_Cons flip: Cons_nth_drop_Suc)

text \<open>Replacing the children \<open>q\<close> and \<open>q + 1\<close> and the key between them.\<close>

definition pair_upd ::
  "('h, 'r) btr_node \<Rightarrow> nat \<Rightarrow> ('h, 'r) btr_node \<Rightarrow> 'h \<Rightarrow> ('h, 'r) btr_node \<Rightarrow> ('h, 'r) btr_node" where
  "pair_upd par q A hk B = btr_set_hkey (btr_set_child (btr_set_child par q A) (Suc q) B) q hk"

lemma set_child_swap:
  "btr_set_child (btr_set_child (Node child recs) (Suc q) B) q A =
   btr_set_child (btr_set_child (Node child recs) q A) (Suc q) B"
  by (cases q) (auto simp: list_update_swap)

lemma pair_upd_ok:
  assumes "q < length recs" "node_ok order (Suc d) (Node child recs)" "node_ok order d A" "node_ok order d B"
  shows "elems (pair_upd (Node child recs) q A hk B) =
      left_items (Node child recs) q @ elems A @ (hk, None) # elems B @ right_items (Node child recs) (Suc q)"
    and "node_ok order (Suc d) (pair_upd (Node child recs) q A hk B)"
proof -
  obtain c1 recs1 where c1: "btr_set_child (Node child recs) q A = Node c1 recs1"
    "length recs1 = length recs" "elems c1 @ flat (take q recs1) = left_items (Node child recs) q @ elems A"
    "drop q recs1 = drop q recs"
    using set_child_cases [of q recs child A] assms(1) by auto
  have p: "pair_upd (Node child recs) q A hk B = Node c1 (recs1[q := (hk, B)])"
    unfolding pair_upd_def c1(1) using c1(2) assms(1) by simp
  have "drop (Suc q) recs1 = drop (Suc q) recs"
    using arg_cong [OF c1(4), of tl] by (simp add: drop_Suc tl_drop)
  then show "elems (pair_upd (Node child recs) q A hk B) =
      left_items (Node child recs) q @ elems A @ (hk, None) # elems B @ right_items (Node child recs) (Suc q)"
    using c1(2) append_eq_context [OF c1(3)] assms(1) unfolding p
    by (simp add: upd_conv_take_nth_drop del: left_items.simps)
  have "node_ok order (Suc d) (Node c1 recs1)"
    using node_ok_set_child [OF assms(2) _ assms(3), of q] assms(1) c1(1) by simp
  then show "node_ok order (Suc d) (pair_upd (Node child recs) q A hk B)"
    unfolding p using assms(4) by (auto dest: set_update_subset_insert [THEN subsetD])
qed

section \<open>One level\<close>

text \<open>
  A node of height \<open>d\<close> about to lose its record (leaf) or child (non-leaf) \<open>at\<close>; \<open>N\<close> is what
  remains.
\<close>

fun del_pre ::
  "nat \<Rightarrow> nat \<Rightarrow> ('h, 'r) btr_node \<Rightarrow> nat \<Rightarrow> ('h, 'r) item list \<Rightarrow> bool" where
  "del_pre order d (Leaf recs) at N \<longleftrightarrow>
     d = 1 \<and> length recs < order \<and> at < length recs \<and> N = recs_items (btr_node_del_leaf_only recs at)"
| "del_pre order d (Node child recs) at N \<longleftrightarrow>
     1 < d \<and> length recs < order \<and> 0 < at \<and> at \<le> length recs \<and> node_ok order (d - 1) child \<and>
     (\<forall>x\<in>set (btr_node_del_leaf_only recs (at - 1)). node_ok order (d - 1) (snd x)) \<and>
     N = elems (Node child (btr_node_del_leaf_only recs (at - 1)))"

lemma length_del_leaf_only [simp]:
  "at < length recs \<Longrightarrow> length (btr_node_del_leaf_only recs at) = length recs - 1"
  by (simp add: btr_node_del_leaf_only_def)

lemma del_child_only [simp]:
  "0 < at \<Longrightarrow> btr_node_del_child_only child recs at = (child, btr_node_del_leaf_only recs (at - 1))"
  by (simp add: btr_node_del_child_only_def btr_node_del_leaf_only_def)

lemma pair_merge_ok:
  assumes "q < length recs" "node_ok order (Suc d) (Node child recs)" "node_ok order d A"
  shows "del_pre order (Suc d) (btr_set_child (btr_set_child (Node child recs) q A) (Suc q) (Leaf [])) (Suc q)
      (left_items (Node child recs) q @ elems A @ right_items (Node child recs) (Suc q))"
proof -
  obtain c1 recs1 where c1: "btr_set_child (Node child recs) q A = Node c1 recs1"
    "length recs1 = length recs" "elems c1 @ flat (take q recs1) = left_items (Node child recs) q @ elems A"
    "drop q recs1 = drop q recs"
    using set_child_cases [of q recs child A] assms(1) by auto
  have "drop (Suc q) recs1 = drop (Suc q) recs"
    using arg_cong [OF c1(4), of tl] by (simp add: drop_Suc tl_drop)
  then have del: "btr_node_del_leaf_only (recs1[q := (h, nd)]) q = take q recs1 @ drop (Suc q) recs" for h nd
    by (simp add: btr_node_del_leaf_only_def)
  have ok: "node_ok order (Suc d) (Node c1 recs1)"
    using node_ok_set_child [OF assms(2) _ assms(3), of q] assms(1) c1(1) by simp
  have "\<forall>x\<in>set (take q recs1 @ drop (Suc q) recs). node_ok order d (snd x)"
    using ok assms(2) by (auto dest: in_set_takeD in_set_dropD)
  then show ?thesis
    using ok c1(2) append_eq_context [OF c1(3)] assms(1) node_ok_pos [OF assms(3)] unfolding c1(1)
    by (simp add: del del: left_items.simps)
qed

text \<open>
  The sibling, if any, is the left or the right neighbour. \<open>q\<close> is the index of the left one of the
  two.
\<close>

lemma btr_del_sibling_cases:
  assumes "0 < length recs" "pat \<le> length recs"
  obtains (none) "1 < tn_keyn cur" "btr_del_sibling (Node child recs) pat cur = None"
  | (right) "tn_keyn cur \<le> 1" "pat < length recs" "btr_del_sibling (Node child recs) pat cur = Some (Suc pat, True)"
  | (left) q where "tn_keyn cur \<le> 1" "pat = Suc q" "q < length recs"
      "btr_del_sibling (Node child recs) pat cur = Some (q, False)"
proof -
  let ?s = "btr_del_sibling (Node child recs) pat cur"
  have "1 < tn_keyn cur \<and> ?s = None \<or>
      tn_keyn cur \<le> 1 \<and> pat < length recs \<and> ?s = Some (Suc pat, True) \<or>
      (\<exists>q. tn_keyn cur \<le> 1 \<and> pat = Suc q \<and> q < length recs \<and> ?s = Some (q, False))"
    using assms by (cases pat) (auto simp: btr_del_sibling_def)
  then show thesis using that by blast
qed

text \<open>
  What the deletion in the child \<open>pat\<close> of \<open>par\<close> makes of \<open>par\<close>: a node that is fine, or one that
  is about to lose a child in turn.
\<close>

definition del_step ::
  "nat \<Rightarrow> nat \<Rightarrow> ('h::linorder, 'r) btr_node \<Rightarrow> nat \<Rightarrow> ('h, 'r) item list \<Rightarrow>
   bool \<times> ('h, 'r) btr_node \<times> nat \<Rightarrow> bool" where
  "del_step order d par pat N out \<longleftrightarrow>
     (case out of (bubble_up, par', pat') \<Rightarrow>
        if bubble_up
        then \<exists>N'. del_pre order (Suc d) par' pat' N' \<and> resep (left_items par pat @ N @ right_items par pat) N'
        else node_ok order (Suc d) par' \<and>
             resep (left_items par pat @ N @ right_items par pat) (elems par'))"

lemma del_step_keep:
  assumes "pat \<le> length recs" "node_ok order (Suc d) (Node child recs)" "node_ok order d nd"
  shows "del_step order d (Node child recs) pat (elems nd) (False, btr_set_child (Node child recs) pat nd, p)"
  using assms by (simp add: del_step_def node_ok_set_child del: btr_set_child.simps left_items.simps right_items.simps)

lemma del_step_rebal_right:
  assumes "pat < length recs" "node_ok order (Suc d) (Node child recs)" "node_ok order d A" "node_ok order d B"
    and "resep (N @ (fst (recs ! pat), None) # elems (btr_node_child_at (Node child recs) (Suc pat)))
           (elems A @ (hk, None) # elems B)"
  shows "del_step order d (Node child recs) pat N (False, pair_upd (Node child recs) pat A hk B, p)"
  using pair_upd_ok [OF assms(1-4)] resep_context [OF assms(5)] right_items_drop [OF assms(1)]
  by (simp add: del_step_def del: left_items.simps right_items.simps)

lemma del_step_rebal_left:
  assumes "q < length recs" "node_ok order (Suc d) (Node child recs)" "node_ok order d A" "node_ok order d B"
    and "resep (elems (btr_node_child_at (Node child recs) q) @ (fst (recs ! q), None) # N)
           (elems A @ (hk, None) # elems B)"
  shows "del_step order d (Node child recs) (Suc q) N (False, pair_upd (Node child recs) q A hk B, p)"
  using pair_upd_ok [OF assms(1-4)] resep_context [OF assms(5)] left_items_Suc [OF assms(1)]
  by (simp add: del_step_def del: left_items.simps right_items.simps)

lemma del_step_merge_right:
  assumes "pat < length recs" "node_ok order (Suc d) (Node child recs)" "node_ok order d A"
    and "resep (N @ (fst (recs ! pat), None) # elems (btr_node_child_at (Node child recs) (Suc pat))) (elems A)"
  shows "del_step order d (Node child recs) pat N
    (True, btr_set_child (btr_set_child (Node child recs) pat A) (Suc pat) (Leaf []), Suc pat)"
  using pair_merge_ok [OF assms(1-3)] resep_context [OF assms(4)] right_items_drop [OF assms(1)]
  by (auto simp: del_step_def simp del: left_items.simps right_items.simps btr_set_child.simps)

lemma del_step_merge_left:
  assumes "q < length recs" "node_ok order (Suc d) (Node child recs)" "node_ok order d A"
    and "resep (elems (btr_node_child_at (Node child recs) q) @ (fst (recs ! q), None) # N) (elems A)"
  shows "del_step order d (Node child recs) (Suc q) N
    (True, btr_set_child (btr_set_child (Node child recs) q A) (Suc q) (Leaf []), Suc q)"
  using pair_merge_ok [OF assms(1-3)] resep_context [OF assms(4)] left_items_Suc [OF assms(1)]
  by (auto simp: del_step_def simp del: left_items.simps right_items.simps btr_set_child.simps)

lemma leaf_sibling:
  assumes "node_ok order (Suc (Suc 0)) (Node child recs)" "i \<le> length recs"
  obtains r where "btr_node_child_at (Node child recs) i = Leaf r" "0 < length r" "length r < order"
  using node_ok_child_at [OF assms] node_ok_one by (force simp: node_ok_leaf)

lemma btr_node_del_leaf_right:
  assumes ok: "node_ok order (Suc (Suc 0)) (Node child recs)" and "3 \<le> order"
    and s: "pat < length recs" "btr_del_sibling (Node child recs) pat (Leaf lrecs) = Some (Suc pat, True)"
    and D: "btr_node_del_leaf_only lrecs at = []"
  shows "del_step order (Suc 0) (Node child recs) pat [] (btr_node_del_rec (Node child recs) pat (Leaf lrecs) at)"
proof -
  let ?par = "Node child recs"
  obtain r where r: "btr_node_child_at ?par (Suc pat) = Leaf r" "0 < length r" "length r < order"
    by (rule leaf_sibling [OF ok Suc_leI [OF s(1)]])
  show ?thesis
  proof (cases "length r > 1")
    case True
    have "resep (recs_items [] @ (fst (recs ! pat), None) # recs_items r)
        (recs_items [hd r] @ (fst (hd (tl r)), None) # recs_items (tl r))"
      using True by (intro resep_move_sep) (auto simp: tl_def split: list.splits)
    then have "del_step order (Suc 0) ?par pat []
        (False, pair_upd ?par pat (Leaf [hd r]) (fst (hd (tl r))) (Leaf (tl r)), pat)"
      using True s(1) ok r \<open>3 \<le> order\<close> by (intro del_step_rebal_right) auto
    then show ?thesis
      using s r True D by (simp add: btr_node_del_rec_def btr_node_del_leaf_def btr_node_del_leaf_rebal_def
          Let_def pair_upd_def del: btr_set_child.simps)
  next
    case False
    have "del_step order (Suc 0) ?par pat []
        (True, btr_set_child (btr_set_child ?par pat (Leaf r)) (Suc pat) (Leaf []), Suc pat)"
      using False s(1) ok r resep_drop_sep [of "[]"] by (intro del_step_merge_right) auto
    then show ?thesis
      using s r False D by (simp add: btr_node_del_rec_def btr_node_del_leaf_def btr_node_del_leaf_merge_def
          Let_def del: btr_set_child.simps)
  qed
qed

lemma btr_node_del_leaf_left:
  assumes ok: "node_ok order (Suc (Suc 0)) (Node child recs)" and "3 \<le> order"
    and s: "q < length recs" "btr_del_sibling (Node child recs) (Suc q) (Leaf lrecs) = Some (q, False)"
    and D: "btr_node_del_leaf_only lrecs at = []"
  shows "del_step order (Suc 0) (Node child recs) (Suc q) []
    (btr_node_del_rec (Node child recs) (Suc q) (Leaf lrecs) at)"
proof -
  let ?par = "Node child recs"
  obtain l where l: "btr_node_child_at ?par q = Leaf l" "0 < length l" "length l < order"
    by (rule leaf_sibling [OF ok less_imp_le [OF s(1)]])
  show ?thesis
  proof (cases "length l > 1")
    case True
    then have ne: "butlast l \<noteq> []" "l \<noteq> []" by (auto simp: butlast_conv_take)
    have "resep (recs_items l @ (fst (recs ! q), None) # recs_items [])
        (recs_items (butlast l) @ (fst (hd [last l]), None) # recs_items [last l])"
      using ne by (intro resep_move_sep) auto
    then have "del_step order (Suc 0) ?par (Suc q) []
        (False, pair_upd ?par q (Leaf (butlast l)) (fst (last l)) (Leaf [last l]), Suc q)"
      using True s(1) ok l \<open>3 \<le> order\<close> by (intro del_step_rebal_left) auto
    then show ?thesis
      using s l True D by (simp add: btr_node_del_rec_def btr_node_del_leaf_def btr_node_del_leaf_rebal_def
          Let_def pair_upd_def set_child_swap del: btr_set_child.simps)
  next
    case False
    have "del_step order (Suc 0) ?par (Suc q) []
        (True, btr_set_child (btr_set_child ?par q (Leaf l)) (Suc q) (Leaf []), Suc q)"
      using False s(1) ok l resep_drop_sep [of "recs_items l" _ "[]"]
      by (intro del_step_merge_left) auto
    then show ?thesis
      using s l False D by (simp add: btr_node_del_rec_def btr_node_del_leaf_def btr_node_del_leaf_merge_def
          Let_def set_child_swap del: btr_set_child.simps)
  qed
qed

lemma btr_node_del_leaf_ok:
  assumes "node_ok order (Suc (Suc 0)) (Node child recs)" "pat \<le> length recs" "3 \<le> order"
    and pre: "del_pre order (Suc 0) (Leaf lrecs) at N"
  shows "del_step order (Suc 0) (Node child recs) pat N (btr_node_del_rec (Node child recs) pat (Leaf lrecs) at)"
proof -
  have N: "N = recs_items (btr_node_del_leaf_only lrecs at)"
    and at: "at < length lrecs" "length lrecs < order" using pre by auto
  have D: "btr_node_del_leaf_only lrecs at = []" if "tn_keyn (Leaf lrecs) \<le> 1"
    using that at by (simp add: btr_node_del_leaf_only_def)
  have pos: "0 < length recs" using assms(1) by simp
  show ?thesis
  proof (cases rule: btr_del_sibling_cases [of recs pat "Leaf lrecs" child, OF pos assms(2),
        case_names none right left])
    case none
    then show ?thesis
      using del_step_keep [OF assms(2,1), of "Leaf (btr_node_del_leaf_only lrecs at)"] at N
      by (simp add: btr_node_del_rec_def btr_node_del_leaf_def del: btr_set_child.simps)
  next
    case right
    then show ?thesis using btr_node_del_leaf_right assms(1,3) D N by simp
  next
    case (left q)
    then show ?thesis using btr_node_del_leaf_left [of order child recs q] assms(1,3) D N by simp
  qed
qed

text \<open>
  The same for a non-leaf node. Its keys and children only move together with the key of the
  parent, so that nothing changes in the flattened tree.
\<close>

lemma child_sibling:
  assumes "node_ok order (Suc d) (Node child recs)" "1 < d" "i \<le> length recs"
  obtains sc ss where "btr_node_child_at (Node child recs) i = Node sc ss" "0 < length ss" "length ss < order"
    "node_ok order (d - 1) sc" "\<forall>x\<in>set ss. node_ok order (d - 1) (snd x)"
proof -
  obtain e where e: "d = Suc e" "0 < e" using assms(2) by (cases d) auto
  have "node_ok order (Suc e) (btr_node_child_at (Node child recs) i)"
    using node_ok_child_at [OF assms(1,3)] e by simp
  then show ?thesis
    using node_ok_Suc [OF e(2), of order "btr_node_child_at (Node child recs) i"] that e by auto
qed

lemma node_ok_pred:
  "1 < d \<Longrightarrow> node_ok order d (Node child recs) \<longleftrightarrow>
     0 < length recs \<and> length recs < order \<and> node_ok order (d - 1) child \<and>
     (\<forall>x\<in>set recs. node_ok order (d - 1) (snd x))"
  by (cases d) auto

lemma btr_node_del_child_right:
  assumes ok: "node_ok order (Suc d) (Node child recs)" and "3 \<le> order" "1 < d" "0 < at"
    and s: "pat < length recs" "btr_del_sibling (Node child recs) pat (Node c rs) = Some (Suc pat, True)"
    and D: "btr_node_del_leaf_only rs (at - 1) = []" and c: "node_ok order (d - 1) c"
  shows "del_step order d (Node child recs) pat (elems c) (btr_node_del_rec (Node child recs) pat (Node c rs) at)"
proof -
  let ?par = "Node child recs" and ?h = "fst (recs ! pat)"
  obtain sc ss where ss: "btr_node_child_at ?par (Suc pat) = Node sc ss" "0 < length ss" "length ss < order"
    "node_ok order (d - 1) sc" "\<forall>x\<in>set ss. node_ok order (d - 1) (snd x)"
    by (rule child_sibling [OF ok \<open>1 < d\<close> Suc_leI [OF s(1)]])
  show ?thesis
  proof (cases "length ss > 1")
    case True
    then obtain x xs where x: "ss = x # xs" "xs \<noteq> []" by (cases ss) auto
    have "del_step order d ?par pat (elems c)
        (False, pair_upd ?par pat (Node c [(?h, sc)]) (fst x) (Node (snd x) xs), pat)"
      using x s(1) ok c ss \<open>3 \<le> order\<close> \<open>1 < d\<close>
      by (intro del_step_rebal_right) (auto simp: node_ok_pred flat_Cons)
    then show ?thesis
      using s ss True D x \<open>0 < at\<close>
      by (simp add: btr_node_del_rec_def btr_node_del_child_def btr_node_del_child_rebal_def
          Let_def pair_upd_def del: btr_set_child.simps)
  next
    case False
    have "del_step order d ?par pat (elems c)
        (True, btr_set_child (btr_set_child ?par pat (Node c ((?h, sc) # ss))) (Suc pat) (Leaf []), Suc pat)"
      using False s(1) ok c ss \<open>3 \<le> order\<close> \<open>1 < d\<close>
      by (intro del_step_merge_right) (auto simp: node_ok_pred)
    then show ?thesis
      using s ss False D \<open>0 < at\<close>
      by (simp add: btr_node_del_rec_def btr_node_del_child_def btr_node_del_child_merge_def
          Let_def del: btr_set_child.simps)
  qed
qed

lemma btr_node_del_child_left:
  assumes ok: "node_ok order (Suc d) (Node child recs)" and "3 \<le> order" "1 < d" "0 < at"
    and s: "q < length recs" "btr_del_sibling (Node child recs) (Suc q) (Node c rs) = Some (q, False)"
    and D: "btr_node_del_leaf_only rs (at - 1) = []" and c: "node_ok order (d - 1) c"
  shows "del_step order d (Node child recs) (Suc q) (elems c)
    (btr_node_del_rec (Node child recs) (Suc q) (Node c rs) at)"
proof -
  let ?par = "Node child recs" and ?h = "fst (recs ! q)"
  obtain sc ss where ss: "btr_node_child_at ?par q = Node sc ss" "0 < length ss" "length ss < order"
    "node_ok order (d - 1) sc" "\<forall>x\<in>set ss. node_ok order (d - 1) (snd x)"
    by (rule child_sibling [OF ok \<open>1 < d\<close> less_imp_le [OF s(1)]])
  show ?thesis
  proof (cases "length ss > 1")
    case True
    then obtain x xs where x: "ss = xs @ [x]" "xs \<noteq> []" by (cases ss rule: rev_cases) auto
    have "del_step order d ?par (Suc q) (elems c)
        (False, pair_upd ?par q (Node sc xs) (fst x) (Node (snd x) [(?h, c)]), Suc q)"
      using x s(1) ok c ss \<open>3 \<le> order\<close> \<open>1 < d\<close>
      by (intro del_step_rebal_left) (auto simp: node_ok_pred flat_Cons)
    then show ?thesis
      using s ss True D x \<open>0 < at\<close>
      by (simp add: btr_node_del_rec_def btr_node_del_child_def btr_node_del_child_rebal_def
          Let_def pair_upd_def set_child_swap del: btr_set_child.simps)
  next
    case False
    have "del_step order d ?par (Suc q) (elems c)
        (True, btr_set_child (btr_set_child ?par q (Node sc (ss @ [(?h, c)]))) (Suc q) (Leaf []), Suc q)"
      using False s(1) ok c ss \<open>3 \<le> order\<close> \<open>1 < d\<close>
      by (intro del_step_merge_left) (auto simp: node_ok_pred)
    then show ?thesis
      using s ss False D \<open>0 < at\<close>
      by (simp add: btr_node_del_rec_def btr_node_del_child_def btr_node_del_child_merge_def
          Let_def set_child_swap del: btr_set_child.simps)
  qed
qed

lemma btr_node_del_child_ok:
  assumes "node_ok order (Suc d) (Node child recs)" "pat \<le> length recs" "3 \<le> order"
    and pre: "del_pre order d (Node c rs) at N"
  shows "del_step order d (Node child recs) pat N (btr_node_del_rec (Node child recs) pat (Node c rs) at)"
proof -
  let ?D = "btr_node_del_leaf_only rs (at - 1)"
  have N: "N = elems (Node c ?D)" "\<forall>x\<in>set ?D. node_ok order (d - 1) (snd x)" "node_ok order (d - 1) c"
    and at: "0 < at" "at \<le> length rs" "length rs < order" "1 < d" using pre by auto
  have len: "length ?D = length rs - 1" using at by simp
  have D: "?D = []" if "tn_keyn (Node c rs) \<le> 1" using that len by simp
  have pos: "0 < length recs" using assms(1) by simp
  show ?thesis
  proof (cases rule: btr_del_sibling_cases [of recs pat "Node c rs" child, OF pos assms(2),
        case_names none right left])
    case none
    then have "node_ok order d (Node c ?D)" using N(2,3) at len by (simp add: node_ok_pred)
    then show ?thesis
      using none del_step_keep [OF assms(2,1), of "Node c ?D" pat] at N(1)
      by (simp add: btr_node_del_rec_def btr_node_del_child_def del: btr_set_child.simps)
  next
    case right
    then have "?D = []" using D by blast
    then show ?thesis
      using btr_node_del_child_right [OF assms(1,3) at(4,1) right(2,3) _ N(3)] N(1) by simp
  next
    case (left q)
    then have "?D = []" using D by blast
    then show ?thesis
      using btr_node_del_child_left [OF assms(1,3) at(4,1) left(3), of c rs] N(1,3) left(2,4) by simp
  qed
qed

section \<open>The whole path\<close>

text \<open>What a deletion leaves, as a tree: \<open>N\<close> is the flattened tree without the record.\<close>

definition del_result ::
  "nat \<Rightarrow> ('h::linorder, 'r) item list \<Rightarrow> ('h, 'r) btr_root \<Rightarrow> ('h, 'r) btr_root \<Rightarrow> bool" where
  "del_result order N root root' \<longleftrightarrow>
     root' = root\<lparr>tr_depth := tr_depth root', tr_node := tr_node root'\<rparr> \<and>
     (case tr_node root' of
        None \<Rightarrow> tr_depth root' = 0 \<and> N = []
      | Some n \<Rightarrow> node_ok order (tr_depth root') n \<and> resep N (elems n))"

lemma del_resultI:
  "node_ok order depth n \<Longrightarrow> resep N (elems n) \<Longrightarrow>
   root' = root\<lparr>tr_depth := depth, tr_node := Some n\<rparr> \<Longrightarrow> del_result order N root root'"
  by (auto simp: del_result_def)

lemma del_result_trans:
  "resep M N \<Longrightarrow> N \<noteq> [] \<Longrightarrow> del_result order N root root' \<Longrightarrow> del_result order M root root'"
  by (auto simp: del_result_def split: option.splits intro: resep_trans)

lemma btr_root_del_rec_ok:
  assumes "del_pre order (tr_depth root) cur at N"
  shows "del_result order N root (btr_root_del_rec root cur at)"
proof (cases cur)
  case (Leaf recs)
  show ?thesis
  proof (cases "length recs > 1")
    case True
    then show ?thesis using assms Leaf
      by (intro del_resultI [of order "tr_depth root" "Leaf (btr_node_del_leaf_only recs at)"]) auto
  next
    case False
    then show ?thesis using assms Leaf by (auto simp: del_result_def btr_node_del_leaf_only_def)
  qed
next
  case (Node child recs)
  let ?D = "btr_node_del_leaf_only recs (at - 1)"
  have len: "length ?D = length recs - 1" using assms Node by auto
  show ?thesis
  proof (cases "?D = []")
    case True
    then show ?thesis using assms Node
      by (intro del_resultI [of order "tr_depth root - 1" child]) auto
  next
    case False
    then have "0 < length recs - 1" using len by (metis length_greater_0_conv)
    then show ?thesis using assms Node len
      by (intro del_resultI [of order "tr_depth root" "Node child ?D"]) (auto simp: node_ok_pred)
  qed
qed

lemma btr_delete_ok:
  assumes "3 \<le> order" "ctx_ok order d ps (tr_depth root)" "del_pre order d cur at N"
  shows "del_result order (ctx_l ps @ N @ ctx_r ps) root (btr_delete root ((cur, at) # ps))"
  using assms
proof (induction order d ps "tr_depth root" arbitrary: cur at N rule: ctx_ok.induct)
  case (1 order d)
  then show ?case using btr_root_del_rec_ok by auto
next
  case (3 order d child recs pat ps)
  let ?par = "Node child recs"
  have ctx: "pat \<le> length recs" "node_ok order (Suc d) ?par" "ctx_ok order (Suc d) ps (tr_depth root)"
    using "3.prems"(2) by auto
  obtain b par' pat' where out: "btr_node_del_rec ?par pat cur at = (b, par', pat')"
    by (cases "btr_node_del_rec ?par pat cur at")
  have step: "del_step order d ?par pat N (b, par', pat')"
    using btr_node_del_leaf_ok [of order child recs pat] btr_node_del_child_ok [of order d child recs pat]
      ctx "3.prems"(1,3) by (cases cur) (auto simp flip: out)
  show ?case
  proof (cases b)
    case True
    then obtain N' where N': "del_pre order (Suc d) par' pat' N'"
      "resep (left_items ?par pat @ N @ right_items ?par pat) N'"
      using step by (auto simp: del_step_def)
    have "N' \<noteq> []"
    proof (cases par')
      case (Node c rs)
      then show ?thesis using N'(1) inorder_nonempty [of order d c] by auto
    qed (use N'(1) "3.prems"(2) in auto)
    then show ?thesis
      using del_result_trans [OF resep_context [OF N'(2)] _ "3.hyps" [OF "3.prems"(1) ctx(3) N'(1)]] True out
      by (simp del: left_items.simps right_items.simps)
  next
    case False
    then have s: "node_ok order (Suc d) par'"
      "resep (left_items ?par pat @ N @ right_items ?par pat) (elems par')"
      using step by (auto simp: del_step_def)
    show ?thesis
      using False out s(1) ctx(3) resep_context [OF s(2), of "ctx_l ps" "ctx_r ps"]
      by (intro del_resultI [of order "tr_depth root" "btr_writeback par' ps"])
        (auto intro: writeback_ok simp del: left_items.simps right_items.simps)
  qed
qed auto

end
