(* ===== verification/Btree_Map.thy ===== *)
theory Btree_Map
  imports Btree_Insert Btree_Delete
begin

text \<open>
  The B+ tree as a finite map. The locale \<open>btr_class\<close> is what the tree relies on a tree class
  (\<^verbatim>\<open>btr_ops_t\<close>) for: hashed keys that identify the keys in use, and callbacks that store and
  return a key and a value. Under this contract lookup, update and delete implement the
  operations of a map from keys to values and keep the tree invariant.
\<close>

section \<open>Where the probe ends\<close>

lemma probe_ok_inorder:
  "probe_ok nd hkey recs at cmp ps \<Longrightarrow>
   inorder nd = item_recs (ctx_l ps) @ recs @ item_recs (ctx_r ps)"
  using trace_of_elems [of nd "Leaf recs" ps] by (simp add: probe_ok_def)

lemma probe_ok_hit:
  assumes "probe_ok nd hkey recs at 0 ps"
  shows "nat at < length recs" "recs ! nat at = (hkey, snd (recs ! nat at))"
proof -
  have "search_ok (map fst recs) hkey at 0" using assms by (simp add: probe_ok_def)
  then show len: "nat at < length recs" by (auto simp: search_ok_def)
  then have "fst (recs ! nat at) = hkey"
    using \<open>search_ok (map fst recs) hkey at 0\<close> by (simp add: search_ok_def)
  then show "recs ! nat at = (hkey, snd (recs ! nat at))" by (cases "recs ! nat at") simp
qed

lemma probe_ok_hit_split:
  assumes "probe_ok nd hkey recs at 0 ps"
  shows "inorder nd = (item_recs (ctx_l ps) @ take (nat at) recs) @
    (hkey, snd (recs ! nat at)) # drop (Suc (nat at)) recs @ item_recs (ctx_r ps)"
  using probe_ok_inorder [OF assms] probe_ok_hit [OF assms] id_take_nth_drop [of "nat at" recs] by simp

lemma probe_ok_elems_at:
  assumes "probe_ok nd hkey recs at cmp ps"
  shows "elems nd = (ctx_l ps @ recs_items (take p recs)) @ recs_items (drop p recs) @ ctx_r ps"
  using trace_of_elems [of nd "Leaf recs" ps] assms by (simp add: probe_ok_def flip: map_append)

lemma probe_ok_hit_elems:
  assumes "probe_ok nd hkey recs at 0 ps"
  shows "elems nd = (ctx_l ps @ recs_items (take (nat at) recs)) @ [(hkey, Some (snd (recs ! nat at)))] @
    recs_items (drop (Suc (nat at)) recs) @ ctx_r ps"
proof -
  obtain r where r: "recs ! nat at = (hkey, r)" using probe_ok_hit(2) [OF assms] by blast
  then have "drop (nat at) recs = (hkey, r) # drop (Suc (nat at)) recs"
    using probe_ok_hit(1) [OF assms] by (simp flip: Cons_nth_drop_Suc)
  then show ?thesis using probe_ok_elems_at [OF assms, of "nat at"] r by simp
qed

lemma probe_ok_miss_insert:
  assumes "probe_ok nd hkey recs at cmp ps" "cmp \<noteq> 0" "p = nat (at + (if cmp < 0 then 1 else 0))"
  shows "p \<le> length recs"
    and "\<forall>x\<in>set (ctx_l ps @ recs_items (take p recs)). ilt x (hkey, Some r)"
    and "\<forall>x\<in>set (recs_items (drop p recs) @ ctx_r ps). ilt (hkey, Some r) x"
proof -
  have so: "search_ok (map fst recs) hkey at cmp" using assms(1) by (simp add: probe_ok_def)
  have p: "p = nat (at + (if cmp \<le> 0 then 1 else 0))" using assms(2,3) by auto
  note sc = search_ok_child [OF so p]
  show "p \<le> length recs" using sc(1) by simp
  have ne: "fst (recs ! i) \<noteq> hkey" if "i < length recs" for i
    using so that assms(2) by (cases "int i = at") (auto simp: search_ok_def not_less_iff_gr_or_eq)
  have "fst x < hkey" if x: "x \<in> set (take p recs)" for x
  proof -
    obtain i where "i < p" "i < length recs" "x = recs ! i"
      using x by (auto simp: in_set_conv_nth)
    then show ?thesis using sc(2) [of i] ne [of i] by auto
  qed
  moreover have "ilt x (hkey, Some r)" if "x \<in> set (ctx_l ps)" for x
    using assms(1) that by (cases x) (auto simp: probe_ok_def below_def ilt_def)
  ultimately show "\<forall>x\<in>set (ctx_l ps @ recs_items (take p recs)). ilt x (hkey, Some r)"
    by (force simp: ilt_def)
  have "hkey < fst x" if x: "x \<in> set (drop p recs)" for x
  proof -
    obtain i where "i < length recs - p" "x = recs ! (p + i)"
      using x by (auto simp: in_set_conv_nth)
    then show ?thesis using sc(3) [of "p + i"] by auto
  qed
  moreover have "ilt (hkey, Some r) x" if "x \<in> set (ctx_r ps)" for x
    using assms(1) that by (auto simp: probe_ok_def ilt_def)
  ultimately show "\<forall>x\<in>set (recs_items (drop p recs) @ ctx_r ps). ilt (hkey, Some r) x"
    by (force simp: ilt_def)
qed

lemma probe_ok_map_of:
  assumes "probe_ok nd hkey recs at cmp ps" "ordered (elems nd)"
  shows "map_of (inorder nd) hkey = (if cmp = 0 then Some (snd (recs ! nat at)) else None)"
proof (cases "cmp = 0")
  case True
  let ?L = "item_recs (ctx_l ps) @ take (nat at) recs"
  let ?R = "drop (Suc (nat at)) recs @ item_recs (ctx_r ps)"
  have eq: "inorder nd = ?L @ (hkey, snd (recs ! nat at)) # ?R"
    using probe_ok_hit_split True assms(1) by blast
  have "map_of (inorder nd) = (map_of (?L @ ?R))(hkey \<mapsto> snd (recs ! nat at))"
    using ordered_map_of [of ?L hkey "snd (recs ! nat at)" ?R] ordered_inorder [OF assms(2)]
    unfolding eq by simp
  then show ?thesis using True by simp
next
  case False
  define p where "p = nat (at + (if cmp < 0 then 1 else 0))"
  note m = probe_ok_miss_insert [OF assms(1) False p_def]
  have "(hkey, r) \<notin> set (inorder nd)" for r
  proof
    assume "(hkey, r) \<in> set (inorder nd)"
    then have "(hkey, Some r) \<in> set (ctx_l ps @ recs_items (take p recs)) \<union>
        set (recs_items (drop p recs) @ ctx_r ps)"
      unfolding set_item_recs probe_ok_elems_at [OF assms(1), of p] by simp
    then show False using m(2,3) [of r] ilt_irrefl [of "(hkey, Some r)"] by blast
  qed
  then have "hkey \<notin> fst ` set (inorder nd)" by auto
  then show ?thesis using False by (simp add: map_of_eq_None_iff)
qed

lemma probe_ok_ctx:
  assumes "probe_ok nd hkey recs at cmp ps" "node_ok order D nd"
  shows "ctx_ok order (Suc 0) ps D" "node_ok order (Suc 0) (Leaf recs)"
proof -
  obtain d where d: "node_ok order d (Leaf recs)" "ctx_ok order d ps D"
    using trace_of_ok [OF _ assms(2)] assms(1) by (auto simp: probe_ok_def)
  then have "d = Suc 0" by (simp add: node_ok_leaf)
  then show "ctx_ok order (Suc 0) ps D" "node_ok order (Suc 0) (Leaf recs)" using d by auto
qed

text \<open>Inserting where the probe missed.\<close>

lemma insert_at_probe:
  assumes "probe_ok nd hkey recs at cmp ps" "cmp \<noteq> 0" "node_ok order D nd" "ordered (elems nd)" "3 \<le> order"
    and "btr_node_insert_rec order ((Leaf recs, nat (at + (if cmp < 0 then 1 else 0))) # ps) (hkey, r) =
      (nd', grown)"
  shows "ordered (elems nd')" "node_ok order (if grown then Suc D else D) nd'"
    "\<exists>L R. inorder nd = L @ R \<and> inorder nd' = L @ (hkey, r) # R"
proof -
  define p where "p = nat (at + (if cmp < 0 then 1 else 0))"
  note m = probe_ok_miss_insert [OF assms(1,2) p_def]
  note split = probe_ok_elems_at [OF assms(1), of p]
  have "ordered (ctx_l ps @ recs_items (btr_node_insert_rec_only recs p (hkey, r)) @ ctx_r ps)"
    using ordered_insert [OF assms(4) [unfolded split] m(2,3) [of r]]
    by (simp add: btr_node_insert_rec_only_def)
  note ins = btr_node_insert_rec_ok [OF assms(5) probe_ok_ctx [OF assms(1,3)] m(1) this assms(6)
      [folded p_def]]
  show "ordered (elems nd')" "node_ok order (if grown then Suc D else D) nd'" using ins by simp_all
  have L: "inorder nd = (item_recs (ctx_l ps) @ take p recs) @ drop p recs @ item_recs (ctx_r ps)"
    using split by simp
  have R: "inorder nd' = (item_recs (ctx_l ps) @ take p recs) @ (hkey, r) # drop p recs @ item_recs (ctx_r ps)"
    using ins by (simp add: btr_node_insert_rec_only_def)
  show "\<exists>L R. inorder nd = L @ R \<and> inorder nd' = L @ (hkey, r) # R"
    using L R by blast
qed

text \<open>Replacing the body of the record the probe found.\<close>

lemma ordered_replace: "ordered (L @ (h, Some r) # R) \<Longrightarrow> ordered (L @ (h, Some r') # R)"
  by (auto simp: sorted_wrt_append ilt_def)

lemma replace_at_probe:
  assumes "probe_ok nd hkey recs at 0 ps" "node_ok order D nd" "ordered (elems nd)"
    and "nd' = btr_writeback (btr_leaf_set_rec (Leaf recs) (nat at) r) ps"
  shows "ordered (elems nd')" "node_ok order D nd'"
    "\<exists>L R r0. inorder nd = L @ (hkey, r0) # R \<and> inorder nd' = L @ (hkey, r) # R"
proof -
  note hit = probe_ok_hit [OF assms(1)] and ctx = probe_ok_ctx [OF assms(1,2)]
  have set: "recs[nat at := (fst (recs ! nat at), r)] = take (nat at) recs @ (hkey, r) # drop (Suc (nat at)) recs"
    using hit by (metis fst_conv upd_conv_take_nth_drop)
  note el = probe_ok_hit_elems [OF assms(1)]
  have el': "elems nd' = (ctx_l ps @ recs_items (take (nat at) recs)) @ (hkey, Some r) #
      recs_items (drop (Suc (nat at)) recs) @ ctx_r ps"
    using ctx(1) by (simp add: assms(4) set)
  show "ordered (elems nd')" using ordered_replace assms(3) unfolding el el' by (metis append_Cons append_Nil)
  show "node_ok order D nd'" unfolding assms(4) using ctx by (intro writeback_ok) auto
  have "inorder nd' = (item_recs (ctx_l ps) @ take (nat at) recs) @
      (hkey, r) # drop (Suc (nat at)) recs @ item_recs (ctx_r ps)"
    unfolding el' by simp
  then show "\<exists>L R r0. inorder nd = L @ (hkey, r0) # R \<and> inorder nd' = L @ (hkey, r) # R"
    using probe_ok_hit_split [OF assms(1)] by blast
qed

text \<open>Deleting the record the probe found.\<close>

lemma delete_at_probe:
  assumes "probe_ok nd hkey recs at 0 ps" "btr_inv root" "tr_node root = Some nd"
    and "root' = btr_delete root ((Leaf recs, nat at) # ps)"
  shows "btr_inv root'" "root' = root\<lparr>tr_depth := tr_depth root', tr_node := tr_node root'\<rparr>"
    "\<exists>L R r0. btr_recs root = L @ (hkey, r0) # R \<and> btr_recs root' = L @ R"
proof -
  have inv: "3 \<le> tr_order root" "node_ok (tr_order root) (tr_depth root) nd" "ordered (elems nd)"
    using assms(2,3) by (auto simp: btr_inv_def BTR_ORDER_MIN_def)
  note hit = probe_ok_hit [OF assms(1)] and ctx = probe_ok_ctx [OF assms(1) inv(2)]
  let ?N = "ctx_l ps @ recs_items (btr_node_del_leaf_only recs (nat at)) @ ctx_r ps"
  have o: "ordered ?N"
    using ordered_remove [OF inv(3) [unfolded probe_ok_hit_elems [OF assms(1)]]]
    by (simp add: btr_node_del_leaf_only_def)
  have "del_pre (tr_order root) (Suc 0) (Leaf recs) (nat at) (recs_items (btr_node_del_leaf_only recs (nat at)))"
    using ctx(2) hit(1) by simp
  then have d: "del_result (tr_order root) ?N root root'"
    unfolding assms(4) by (rule btr_delete_ok [OF inv(1) ctx(1)])
  then show root': "root' = root\<lparr>tr_depth := tr_depth root', tr_node := tr_node root'\<rparr>"
    by (simp add: del_result_def)
  then have "tr_order root' = tr_order root" by (metis btr_root.select_convs(1) btr_root.surjective btr_root.update_convs(2,5))
  then show "btr_inv root'"
    using d o inv(1) by (auto simp: del_result_def btr_inv_def BTR_ORDER_MIN_def resep_def
        intro: append_Nil append_Nil2 split: option.splits) (metis append_Nil append_Nil2)
  have "btr_recs root' = (item_recs (ctx_l ps) @ take (nat at) recs) @
      drop (Suc (nat at)) recs @ item_recs (ctx_r ps)"
    using d by (auto simp: del_result_def btr_recs_def resep_def btr_node_del_leaf_only_def split: option.splits)
  moreover have "btr_recs root = inorder nd" using assms(3) by (simp add: btr_recs_def)
  ultimately show "\<exists>L R r0. btr_recs root = L @ (hkey, r0) # R \<and> btr_recs root' = L @ R"
    using probe_ok_hit_split [OF assms(1)] by metis
qed

section \<open>The contract of a tree class\<close>

text \<open>
  \<open>keys\<close> are the keys that clients use, \<open>vals\<close> the values the callbacks accept. \<open>rec_key\<close> and
  \<open>rec_val\<close> read a record.
\<close>

locale btr_class =
  fixes ops :: "('k, 'v, 'h::linorder, 'r) btr_ops"
    and rec_key :: "'h \<Rightarrow> 'r \<Rightarrow> 'k"
    and rec_val :: "'r \<Rightarrow> 'v"
    and keys :: "'k set"
    and vals :: "'v set"
  assumes hkey_inj: "inj_on (to_hkey_gen ops) keys"
    and key_cmp: "\<And>cmp r k. to_key_cmp ops = Some cmp \<Longrightarrow> k \<in> keys \<Longrightarrow>
      rec_key (to_hkey_gen ops k) r = k \<Longrightarrow> cmp r k = 0"
    and rec_alloc: "\<And>k v. k \<in> keys \<Longrightarrow> v \<in> vals \<Longrightarrow>
      \<exists>r. to_rec_alloc ops k v = Inr r \<and> rec_key (to_hkey_gen ops k) r = k \<and> rec_val r = v"
    and rec_fetch: "\<And>h r. to_rec_fetch ops h r = (rec_key h r, rec_val r)"
    and rec_update: "\<And>upd r k v. to_rec_update ops = Some upd \<Longrightarrow> k \<in> keys \<Longrightarrow> v \<in> vals \<Longrightarrow>
      rec_key (to_hkey_gen ops k) r = k \<Longrightarrow>
      upd r k v = Inl DER_NO_PERM \<or>
      (\<exists>r'. upd r k v = Inr r' \<and> rec_key (to_hkey_gen ops k) r' = k \<and> rec_val r' = v)"
begin

abbreviation hkey :: "'k \<Rightarrow> 'h" where
  "hkey k \<equiv> to_hkey_gen ops k"

text \<open>A record is stored under the hashed key of its key.\<close>

definition rec_ok :: "'h \<times> 'r \<Rightarrow> bool" where
  "rec_ok x \<longleftrightarrow> rec_key (fst x) (snd x) \<in> keys \<and> hkey (rec_key (fst x) (snd x)) = fst x"

definition tree_inv :: "('h, 'r) btr_root \<Rightarrow> bool" where
  "tree_inv root \<longleftrightarrow> btr_inv root \<and> (\<forall>x\<in>set (btr_recs root). rec_ok x)"

text \<open>The map a tree stands for.\<close>

definition tree_map :: "('h, 'r) btr_root \<Rightarrow> 'k \<Rightarrow> 'v option" where
  "tree_map root k = (if k \<in> keys then map_option rec_val (map_of (btr_recs root) (hkey k)) else None)"

lemma probe_some:
  assumes "tree_inv root" "tr_node root = Some nd" "probe_key opc" "k \<in> keys"
  obtains recs at cmp ps where "probe_ok nd (hkey k) recs at cmp ps"
    "btr_probe ops root opc (Some k) anchor =
       btr_probe_end opc cmp
         ((Leaf recs, nat (if opc = BTR_PROBE_UPDATE then at + (if cmp < 0 then 1 else 0) else at)) # ps)"
proof -
  have inv: "node_ok (tr_order root) (tr_depth root) nd" "ordered (elems nd)"
    using assms(1,2) by (auto simp: tree_inv_def btr_inv_def)
  obtain recs at cmp ps where p: "btr_probe_down opc (hkey k) nd [] = (Leaf recs, at, cmp, ps)"
    "probe_ok nd (hkey k) recs at cmp ps"
    using btr_probe_down_ok [OF assms(3) inv(2) _ inv(1), of "[]" "hkey k"] by auto
  have "btr_key_cmp ops (snd (recs ! nat at)) k = 0" if "cmp = 0"
  proof -
    have "(hkey k, snd (recs ! nat at)) \<in> set (btr_recs root)"
      using probe_ok_hit_split [of nd "hkey k" recs at ps] p(2) that assms(2) by (simp add: btr_recs_def)
    then have "rec_ok (hkey k, snd (recs ! nat at))" using assms(1) by (simp add: tree_inv_def)
    then have "rec_key (hkey k) (snd (recs ! nat at)) = k"
      using hkey_inj assms(4) by (auto simp: rec_ok_def dest: inj_onD)
    then show ?thesis using key_cmp assms(4) by (simp add: btr_key_cmp_def split: option.splits)
  qed
  then show ?thesis
    using that [OF p(2)] p(1) assms(2) by (cases "cmp = 0") (simp_all add: btr_probe_def)
qed

lemma probe_none: "tr_node root = None \<Longrightarrow> btr_probe ops root opc key anchor = (PROBE_RC_NONE, [])"
  by (simp add: btr_probe_def)

lemma tree_map_probe:
  assumes "tree_inv root" "tr_node root = Some nd" "k \<in> keys" "probe_ok nd (hkey k) recs at cmp ps"
  shows "tree_map root k = (if cmp = 0 then Some (rec_val (snd (recs ! nat at))) else None)"
  using probe_ok_map_of [OF assms(4)] assms(1-3)
  by (simp add: tree_map_def btr_recs_def tree_inv_def btr_inv_def)

lemma lookup_ok:
  assumes "tree_inv root" "k \<in> keys"
  shows "dbtree_lookup ops root k =
    (case tree_map root k of None \<Rightarrow> Inl DER_NONEXIST | Some v \<Rightarrow> Inr v)"
proof (cases "tr_node root")
  case None
  then show ?thesis
    by (simp add: dbtree_lookup_def dbtree_fetch_def btr_probe_is_public_def probe_none tree_map_def
        btr_recs_def)
next
  case (Some nd)
  obtain recs at cmp ps where p: "probe_ok nd (hkey k) recs at cmp ps"
    "btr_probe ops root BTR_PROBE_EQ (Some k) None = btr_probe_end BTR_PROBE_EQ cmp ((Leaf recs, nat at) # ps)"
    by (rule probe_some [OF assms(1) Some, of BTR_PROBE_EQ k None]) (auto simp: probe_key_def assms(2))
  then show ?thesis
    using tree_map_probe [OF assms(1) Some assms(2) p(1)]
    by (simp add: dbtree_lookup_def dbtree_fetch_def btr_probe_is_public_def btr_probe_end_def rec_fetch
        case_prod_beta)
qed

lemma tree_map_upd:
  assumes "map_of (btr_recs root') = (map_of (btr_recs root))(hkey k \<mapsto> r)" "k \<in> keys"
  shows "tree_map root' = (tree_map root)(k \<mapsto> rec_val r)"
  using assms hkey_inj by (auto simp: tree_map_def fun_eq_iff dest: inj_onD)

lemma tree_map_del:
  assumes "map_of (btr_recs root') = (map_of (btr_recs root))(hkey k := None)" "k \<in> keys"
  shows "tree_map root' = (tree_map root)(k := None)"
  using assms hkey_inj by (auto simp: tree_map_def fun_eq_iff dest: inj_onD)

text \<open>A tree that differs in its nodes only, with one record added or replaced.\<close>

lemma tree_inv_upd:
  assumes "tree_inv root" "btr_inv root'" "k \<in> keys" "rec_key (hkey k) r = k"
    and "btr_recs root' = L @ (hkey k, r) # R" "btr_recs root = L @ M @ R" "fst ` set M \<subseteq> {hkey k}"
  shows "tree_inv root' \<and> tree_map root' = (tree_map root)(k \<mapsto> rec_val r)"
proof
  show "tree_inv root'" using assms by (auto simp: tree_inv_def rec_ok_def)
  have s: "sorted_wrt (<) (map fst (L @ (hkey k, r) # R))"
    using btr_inv_sorted [OF assms(2)] assms(5) by simp
  have "map_of (L @ M @ R) h = map_of (L @ R) h" if "h \<noteq> hkey k" for h
  proof -
    have "map_of M h = None" using assms(7) that by (auto simp: map_of_eq_None_iff)
    then show ?thesis by (simp add: map_add_def split: option.splits)
  qed
  then have "map_of (btr_recs root') = (map_of (btr_recs root))(hkey k \<mapsto> r)"
    using ordered_map_of [OF s] assms(5,6) by (auto simp: fun_eq_iff)
  then show "tree_map root' = (tree_map root)(k \<mapsto> rec_val r)" using tree_map_upd assms(3) by blast
qed

lemma update_only_ok:
  assumes "tree_inv root" "tr_node root = Some nd" "k \<in> keys" "v \<in> vals" "probe_ok nd (hkey k) recs at 0 ps"
  shows "\<exists>root'. btr_update_only ops root ((Leaf recs, nat at) # ps) k v = Inr root' \<and>
    tree_inv root' \<and> tree_map root' = (tree_map root)(k \<mapsto> v) \<and>
    tr_order root' = tr_order root \<and> tr_class root' = tr_class root \<and> tr_feats root' = tr_feats root"
proof -
  have inv: "node_ok (tr_order root) (tr_depth root) nd" "ordered (elems nd)"
    using assms(1,2) by (auto simp: tree_inv_def btr_inv_def)
  let ?r0 = "snd (recs ! nat at)"
  have "(hkey k, ?r0) \<in> set (btr_recs root)"
    using probe_ok_hit_split [OF assms(5)] assms(2) by (simp add: btr_recs_def)
  then have "rec_key (hkey k) ?r0 = k"
    using assms(1,3) hkey_inj by (force simp: tree_inv_def rec_ok_def dest: inj_onD)
  then obtain r where r: "rec_key (hkey k) r = k" "rec_val r = v"
    "(if btr_rec_update ops ?r0 k v = Inl DER_NO_PERM then to_rec_alloc ops k v
      else btr_rec_update ops ?r0 k v) = Inr r"
    using rec_alloc [OF assms(3,4)] rec_update [OF _ assms(3,4), of _ ?r0]
    by (fastforce simp: btr_rec_update_def split: option.splits)
  define nd' where "nd' = btr_writeback (btr_leaf_set_rec (Leaf recs) (nat at) r) ps"
  let ?root' = "root\<lparr>tr_node := Some nd'\<rparr>"
  note rep = replace_at_probe [OF assms(5) inv nd'_def]
  obtain L R r0 where LR: "inorder nd = L @ (hkey k, r0) # R" "inorder nd' = L @ (hkey k, r) # R"
    using rep(3) by blast
  have "btr_inv ?root'" using rep(1,2) assms(1,2) by (auto simp: btr_inv_def tree_inv_def)
  then have "tree_inv ?root' \<and> tree_map ?root' = (tree_map root)(k \<mapsto> rec_val r)"
    using LR assms(2) r(1)
    by (intro tree_inv_upd [OF assms(1) _ assms(3), where L = L and R = R and M = "[(hkey k, r0)]"])
      (auto simp: btr_recs_def)
  moreover have "btr_update_only ops root ((Leaf recs, nat at) # ps) k v = Inr ?root'"
    using r(3) by (simp add: Let_def nd'_def)
  ultimately show ?thesis using r(2) by simp
qed

lemma insert_ok:
  assumes "tree_inv root" "tr_node root = Some nd" "k \<in> keys" "v \<in> vals" "probe_ok nd (hkey k) recs at cmp ps"
    and "cmp \<noteq> 0" "at' = nat (at + (if cmp < 0 then 1 else 0))"
  shows "\<exists>root'. btr_insert ops root ((Leaf recs, at') # ps) k v = Inr root' \<and>
    tree_inv root' \<and> tree_map root' = (tree_map root)(k \<mapsto> v) \<and>
    tr_order root' = tr_order root \<and> tr_class root' = tr_class root \<and> tr_feats root' = tr_feats root"
proof -
  have inv: "node_ok (tr_order root) (tr_depth root) nd" "ordered (elems nd)" "3 \<le> tr_order root"
    using assms(1,2) by (auto simp: tree_inv_def btr_inv_def BTR_ORDER_MIN_def)
  obtain r where r: "to_rec_alloc ops k v = Inr r" "rec_key (hkey k) r = k" "rec_val r = v"
    using rec_alloc [OF assms(3,4)] by blast
  obtain nd' grown where ins:
    "btr_node_insert_rec (tr_order root) ((Leaf recs, at') # ps) (hkey k, r) = (nd', grown)" by force
  note ok = insert_at_probe [OF assms(5,6) inv ins [unfolded assms(7)]]
  let ?root' = "root\<lparr>tr_node := Some nd', tr_depth := tr_depth root + (if grown then 1 else 0)\<rparr>"
  obtain L R where LR: "inorder nd = L @ R" "inorder nd' = L @ (hkey k, r) # R" using ok(3) by blast
  have "btr_inv ?root'" using ok(1,2) inv(3) by (auto simp: btr_inv_def BTR_ORDER_MIN_def split: if_splits)
  then have "tree_inv ?root' \<and> tree_map ?root' = (tree_map root)(k \<mapsto> rec_val r)"
    using LR assms(2) r(2)
    by (intro tree_inv_upd [OF assms(1) _ assms(3), where L = L and R = R and M = "[]"])
      (auto simp: btr_recs_def)
  moreover have "btr_insert ops root ((Leaf recs, at') # ps) k v = Inr ?root'"
    using r(1) ins node_ok_pos [OF inv(1)] by (simp add: btr_insert_def Let_def)
  ultimately show ?thesis using r(3) by simp
qed

lemma start_ok:
  assumes "tree_inv root" "tr_node root = None" "k \<in> keys" "v \<in> vals"
  shows "\<exists>root'. btr_insert ops root [] k v = Inr root' \<and>
    tree_inv root' \<and> tree_map root' = (tree_map root)(k \<mapsto> v) \<and>
    tr_order root' = tr_order root \<and> tr_class root' = tr_class root \<and> tr_feats root' = tr_feats root"
proof -
  have inv: "tr_depth root = 0" "3 \<le> tr_order root"
    using assms(1,2) by (auto simp: tree_inv_def btr_inv_def BTR_ORDER_MIN_def)
  obtain r where r: "to_rec_alloc ops k v = Inr r" "rec_key (hkey k) r = k" "rec_val r = v"
    using rec_alloc [OF assms(3,4)] by blast
  let ?root' = "btr_root_start root (hkey k, r)"
  have "btr_inv ?root'" using inv by (simp add: btr_inv_def btr_root_start_def BTR_ORDER_MIN_def)
  then have "tree_inv ?root' \<and> tree_map ?root' = (tree_map root)(k \<mapsto> rec_val r)"
    using assms(2) r(2)
    by (intro tree_inv_upd [OF assms(1) _ assms(3), where L = "[]" and R = "[]" and M = "[]"])
      (auto simp: btr_recs_def btr_root_start_def)
  then show ?thesis using r inv(1) by (auto simp: btr_insert_def Let_def btr_root_start_def)
qed

lemma update_ok:
  assumes "tree_inv root" "k \<in> keys" "v \<in> vals"
  shows "\<exists>root'. dbtree_update ops root k v = Inr root' \<and>
    tree_inv root' \<and> tree_map root' = (tree_map root)(k \<mapsto> v) \<and>
    tr_order root' = tr_order root \<and> tr_class root' = tr_class root \<and> tr_feats root' = tr_feats root"
proof (cases "tr_node root")
  case None
  then show ?thesis
    using start_ok [OF assms(1) None assms(2,3)] by (simp add: dbtree_update_def btr_update_def probe_none)
next
  case (Some nd)
  obtain recs at cmp ps where p: "probe_ok nd (hkey k) recs at cmp ps"
    "btr_probe ops root BTR_PROBE_UPDATE (Some k) None =
       btr_probe_end BTR_PROBE_UPDATE cmp ((Leaf recs, nat (at + (if cmp < 0 then 1 else 0))) # ps)"
    by (rule probe_some [OF assms(1) Some, of BTR_PROBE_UPDATE k None]) (auto simp: probe_key_def assms(2))
  show ?thesis
  proof (cases "cmp = 0")
    case True
    then show ?thesis
      using update_only_ok [OF assms(1) Some assms(2,3)] p
      by (simp add: dbtree_update_def btr_update_def btr_probe_end_def)
  next
    case False
    then show ?thesis
      using insert_ok [OF assms(1) Some assms(2,3) p(1) False refl] p(2)
      by (simp add: dbtree_update_def btr_update_def btr_probe_end_def)
  qed
qed

lemma delete_none:
  assumes "tree_inv root" "k \<in> keys" "tree_map root k = None"
  shows "dbtree_delete ops root k = Inl DER_NONEXIST"
proof (cases "tr_node root")
  case None
  then show ?thesis by (simp add: dbtree_delete_def probe_none)
next
  case (Some nd)
  obtain recs at cmp ps where p: "probe_ok nd (hkey k) recs at cmp ps"
    "btr_probe ops root BTR_PROBE_EQ (Some k) None = btr_probe_end BTR_PROBE_EQ cmp ((Leaf recs, nat at) # ps)"
    by (rule probe_some [OF assms(1) Some, of BTR_PROBE_EQ k None]) (auto simp: probe_key_def assms(2))
  then show ?thesis
    using tree_map_probe [OF assms(1) Some assms(2) p(1)] assms(3)
    by (simp add: dbtree_delete_def btr_probe_end_def split: if_splits)
qed

lemma delete_ok:
  assumes "tree_inv root" "k \<in> keys" "tree_map root k \<noteq> None"
  shows "\<exists>root'. dbtree_delete ops root k = Inr root' \<and>
    tree_inv root' \<and> tree_map root' = (tree_map root)(k := None) \<and>
    tr_order root' = tr_order root \<and> tr_class root' = tr_class root \<and> tr_feats root' = tr_feats root"
proof (cases "tr_node root")
  case None
  then show ?thesis using assms(3) by (auto simp: tree_map_def btr_recs_def split: if_splits)
next
  case (Some nd)
  obtain recs at cmp ps where p: "probe_ok nd (hkey k) recs at cmp ps"
    "btr_probe ops root BTR_PROBE_EQ (Some k) None = btr_probe_end BTR_PROBE_EQ cmp ((Leaf recs, nat at) # ps)"
    by (rule probe_some [OF assms(1) Some, of BTR_PROBE_EQ k None]) (auto simp: probe_key_def assms(2))
  have c: "cmp = 0" using tree_map_probe [OF assms(1) Some assms(2) p(1)] assms(3) by (auto split: if_splits)
  define root' where "root' = btr_delete root ((Leaf recs, nat at) # ps)"
  have inv: "btr_inv root" using assms(1) by (simp add: tree_inv_def)
  note d = delete_at_probe [OF p(1) [unfolded c] inv Some root'_def]
  obtain L R r0 where LR: "btr_recs root = L @ (hkey k, r0) # R" "btr_recs root' = L @ R"
    using d(3) by blast
  have "map_of (btr_recs root') = (map_of (btr_recs root))(hkey k := None)"
    using ordered_map_of_del [of L "hkey k" r0 R] btr_inv_sorted [OF inv] LR by simp
  then have "tree_map root' = (tree_map root)(k := None)" using tree_map_del assms(2) by blast
  moreover have "tree_inv root'" using d(1) assms(1) LR by (auto simp: tree_inv_def)
  moreover have "dbtree_delete ops root k = Inr root'"
    using p(2) c by (simp add: dbtree_delete_def btr_probe_end_def root'_def)
  moreover have "tr_order root' = tr_order root \<and> tr_class root' = tr_class root \<and> tr_feats root' = tr_feats root"
    by (subst (1 2 3) d(2)) simp
  ultimately show ?thesis by blast
qed

end

end
