(* ===== verification/Btree_Iter.thy ===== *)
theory Btree_Iter
  imports Btree_Map
begin

text \<open>
  The rest of \<^verbatim>\<open>src/common/btree.c\<close>: iterators and \<^verbatim>\<open>dbtree_iterate\<close>, statistics, creation and
  destruction of trees and the table of tree classes. An iteration visits the records of a tree
  exactly once, in order, forwards or backwards, and ends.
\<close>

section \<open>Iterators\<close>

datatype btr_itr_state = BTR_ITR_NONE | BTR_ITR_INIT | BTR_ITR_READY | BTR_ITR_FINI

text \<open>A context with its iterator: the tree, the trace and the state.\<close>

record ('h, 'r) btr_context =
  tc_root :: "('h, 'r) btr_root"
  tc_trace :: "('h, 'r) btr_trace"
  it_state :: btr_itr_state

definition dbtree_iter_prepare :: "('h, 'r) btr_root \<Rightarrow> ('h, 'r) btr_context" where
  "dbtree_iter_prepare root = \<lparr>tc_root = root, tc_trace = [], it_state = BTR_ITR_INIT\<rparr>"

definition dbtree_iter_finish :: "('h, 'r) btr_context \<Rightarrow> ('h, 'r) btr_context" where
  "dbtree_iter_finish tcx = tcx\<lparr>it_state := BTR_ITR_NONE\<rparr>"

text \<open>The first component is the return code, \<open>None\<close> for \<open>0\<close>.\<close>

definition dbtree_iter_probe ::
  "('k, 'v, 'h::linorder, 'r) btr_ops \<Rightarrow> ('h, 'r) btr_context \<Rightarrow> btr_probe_opc \<Rightarrow> 'k option \<Rightarrow>
   'h option \<Rightarrow> der option \<times> ('h, 'r) btr_context" where
  "dbtree_iter_probe ops tcx opc key anchor =
     (if \<not> btr_probe_is_public opc then (Some DER_INVAL, tcx)
      else if it_state tcx = BTR_ITR_NONE then (Some DER_NO_HDL, tcx)
      else (case btr_probe ops (tc_root tcx) opc key anchor of (rc, trace) \<Rightarrow>
              if rc = PROBE_RC_NONE
              then (Some DER_NONEXIST, tcx\<lparr>tc_trace := trace, it_state := BTR_ITR_FINI\<rparr>)
              else (None, tcx\<lparr>tc_trace := trace, it_state := BTR_ITR_READY\<rparr>)))"

definition btr_iter_is_ready :: "('h, 'r) btr_context \<Rightarrow> der option" where
  "btr_iter_is_ready tcx =
     (case it_state tcx of
        BTR_ITR_NONE \<Rightarrow> Some DER_NO_PERM
      | BTR_ITR_INIT \<Rightarrow> Some DER_NO_PERM
      | BTR_ITR_READY \<Rightarrow> None
      | BTR_ITR_FINI \<Rightarrow> Some DER_NONEXIST)"

definition btr_iter_move :: "('h, 'r) btr_context \<Rightarrow> bool \<Rightarrow> der option \<times> ('h, 'r) btr_context" where
  "btr_iter_move tcx forward =
     (case btr_iter_is_ready tcx of
        Some e \<Rightarrow> (Some e, tcx)
      | None \<Rightarrow>
         (case (if forward then btr_probe_next (tc_trace tcx) else btr_probe_prev (tc_trace tcx)) of
            None \<Rightarrow> (Some DER_NONEXIST, tcx\<lparr>it_state := BTR_ITR_FINI\<rparr>)
          | Some trace \<Rightarrow> (None, tcx\<lparr>tc_trace := trace, it_state := BTR_ITR_READY\<rparr>)))"

text \<open>The key, the value and the anchor (the hashed key) of the current record.\<close>

definition dbtree_iter_fetch ::
  "('k, 'v, 'h, 'r) btr_ops \<Rightarrow> ('h, 'r) btr_context \<Rightarrow> ('k \<times> 'v \<times> 'h) res" where
  "dbtree_iter_fetch ops tcx =
     (case btr_iter_is_ready tcx of
        Some e \<Rightarrow> Inl e
      | None \<Rightarrow>
         (let (hkey, rec) = btr_trace2rec (tc_trace tcx);
              (key, val) = to_rec_fetch ops hkey rec
          in Inr (key, val, hkey)))"

definition dbtree_iter_delete :: "('h, 'r) btr_context \<Rightarrow> der option \<times> ('h, 'r) btr_context" where
  "dbtree_iter_delete tcx =
     (case btr_iter_is_ready tcx of
        Some e \<Rightarrow> (Some e, tcx)
      | None \<Rightarrow>
         (None, tcx\<lparr>tc_root := btr_delete (tc_root tcx) (tc_trace tcx), it_state := BTR_ITR_INIT\<rparr>))"

definition dbtree_iter_empty :: "('h, 'r) btr_context \<Rightarrow> bool" where
  "dbtree_iter_empty tcx = (tr_depth (tc_root tcx) = 0)"

text \<open>
  \<^verbatim>\<open>dbtree_iterate\<close>: the callback maps a record and its argument to a return code and the new
  argument; it goes on on \<open>0\<close>, stops without an error on \<open>1\<close> and with one otherwise. The loop may
  not end as far as its text goes; \<open>None\<close> stands for that.
\<close>

datatype cb_rc = CB_CONTINUE | CB_STOP | CB_ERR der

partial_function (option) iterate_loop ::
  "('k, 'v, 'h, 'r) btr_ops \<Rightarrow> bool \<Rightarrow> ('k \<Rightarrow> 'v \<Rightarrow> 'a \<Rightarrow> cb_rc \<times> 'a) \<Rightarrow> ('h, 'r) btr_context \<Rightarrow> 'a \<Rightarrow>
   (der option \<times> 'a) option" where
  "iterate_loop ops backward cb tcx arg =
     (case dbtree_iter_fetch ops tcx of
        Inl e \<Rightarrow> Some (Some e, arg)
      | Inr (key, val, anchor) \<Rightarrow>
         (case cb key val arg of
            (CB_STOP, arg') \<Rightarrow> Some (None, arg')
          | (CB_ERR e, arg') \<Rightarrow> Some (Some e, arg')
          | (CB_CONTINUE, arg') \<Rightarrow>
             (case btr_iter_move tcx (\<not> backward) of
                (None, tcx') \<Rightarrow> iterate_loop ops backward cb tcx' arg'
              | (Some e, tcx') \<Rightarrow> Some (if e = DER_NONEXIST then None else Some e, arg'))))"

declare iterate_loop.simps [code]

definition dbtree_iterate ::
  "('k, 'v, 'h::linorder, 'r) btr_ops \<Rightarrow> ('h, 'r) btr_root \<Rightarrow> bool \<Rightarrow> ('k \<Rightarrow> 'v \<Rightarrow> 'a \<Rightarrow> cb_rc \<times> 'a) \<Rightarrow>
   'a \<Rightarrow> (der option \<times> 'a) option" where
  "dbtree_iterate ops root backward cb arg =
     (case dbtree_iter_probe ops (dbtree_iter_prepare root)
             (if backward then BTR_PROBE_LAST else BTR_PROBE_FIRST) None None of
        (Some e, tcx) \<Rightarrow> Some (if e = DER_NONEXIST then None else Some e, arg)
      | (None, tcx) \<Rightarrow> iterate_loop ops backward cb tcx arg)"

section \<open>Statistics, creation and destruction\<close>

record btr_stat =
  bs_node_nr :: nat
  bs_rec_nr :: nat

text \<open>The sizes of keys and values (optional callback \<^verbatim>\<open>to_rec_stat\<close>) are left out.\<close>

fun btr_node_stat :: "('h, 'r) btr_node \<Rightarrow> btr_stat \<Rightarrow> btr_stat" where
  "btr_node_stat (Leaf recs) stat = stat\<lparr>bs_rec_nr := bs_rec_nr stat + length recs\<rparr>"
| "btr_node_stat (Node child recs) stat =
     fold (\<lambda>(h, nd). btr_node_stat nd) recs
       (btr_node_stat child (stat\<lparr>bs_node_nr := bs_node_nr stat + length recs + 1\<rparr>))"

definition btr_tree_stat :: "('h, 'r) btr_root \<Rightarrow> btr_stat" where
  "btr_tree_stat root =
     (case tr_node root of
        None \<Rightarrow> \<lparr>bs_node_nr = 0, bs_rec_nr = 0\<rparr>
      | Some nd \<Rightarrow> btr_node_stat nd \<lparr>bs_node_nr = 1, bs_rec_nr = 0\<rparr>)"

definition dbtree_is_empty :: "('h, 'r) btr_root \<Rightarrow> bool" where
  "dbtree_is_empty root = (tr_depth root = 0)"

text \<open>
  \<^verbatim>\<open>btr_node_destroy\<close>: the record bodies passed to \<^verbatim>\<open>btr_rec_free\<close> and the number of nodes passed
  to \<^verbatim>\<open>btr_node_free\<close>. The return in the leaf branch leaves out the leaf itself.
\<close>

record 'r freed =
  fr_recs :: "'r list"
  fr_nodes :: nat

fun btr_node_destroy :: "('h, 'r) btr_node \<Rightarrow> 'r freed \<Rightarrow> 'r freed" where
  "btr_node_destroy (Leaf recs) fr = fr\<lparr>fr_recs := fr_recs fr @ map snd recs\<rparr>"
| "btr_node_destroy (Node child recs) fr =
     (let fr' = fold (\<lambda>(h, nd). btr_node_destroy nd) recs (btr_node_destroy child fr)
      in fr'\<lparr>fr_nodes := fr_nodes fr' + 1\<rparr>)"

definition btr_tree_destroy :: "('h, 'r) btr_root \<Rightarrow> 'r freed" where
  "btr_tree_destroy root =
     (case tr_node root of
        None \<Rightarrow> \<lparr>fr_recs = [], fr_nodes = 0\<rparr>
      | Some nd \<Rightarrow> btr_node_destroy nd \<lparr>fr_recs = [], fr_nodes = 0\<rparr>)"

text \<open>The table of classes, with the features each supports.\<close>

type_synonym btr_registry = "nat \<Rightarrow> u64 option"

definition dbtree_class_register :: "btr_registry \<Rightarrow> nat \<Rightarrow> u64 \<Rightarrow> btr_registry res" where
  "dbtree_class_register reg tree_class tree_feats =
     (if tree_class \<ge> BTR_TYPE_MAX \<or> tree_class = 0 then Inl DER_INVAL
      else if reg tree_class \<noteq> None then Inl DER_EXIST
      else Inr (reg(tree_class \<mapsto> tree_feats)))"

unbundle bit_operations_syntax

definition btr_class_init :: "btr_registry \<Rightarrow> ('h, 'r) btr_root option \<Rightarrow> nat \<Rightarrow> u64 \<Rightarrow> unit res" where
  "btr_class_init reg root tree_class tree_feats =
     (let (cls, feats) =
        (case root of
           Some r \<Rightarrow> if tr_class r \<noteq> 0 then (tr_class r, tr_feats r) else (tree_class, tree_feats)
         | None \<Rightarrow> (tree_class, tree_feats))
      in if cls \<ge> BTR_TYPE_MAX then Inl DER_INVAL
         else (case reg cls of
                 None \<Rightarrow> Inl DER_NONEXIST
               | Some tc_feats \<Rightarrow> if feats AND tc_feats \<noteq> feats then Inl DER_PROTO else Inr ()))"

definition btr_root_init :: "nat \<Rightarrow> u64 \<Rightarrow> nat \<Rightarrow> ('h, 'r) btr_root" where
  "btr_root_init tree_class tree_feats tree_order =
     \<lparr>tr_order = tree_order, tr_depth = 0, tr_class = tree_class, tr_feats = tree_feats, tr_node = None\<rparr>"

definition dbtree_create ::
  "btr_registry \<Rightarrow> nat \<Rightarrow> u64 \<Rightarrow> nat \<Rightarrow> ('h, 'r) btr_root res" where
  "dbtree_create reg tree_class tree_feats tree_order =
     (if tree_order < BTR_ORDER_MIN \<or> tree_order > BTR_ORDER_MAX then Inl DER_INVAL
      else (case btr_class_init reg (None :: ('h, 'r) btr_root option) tree_class tree_feats of
              Inl e \<Rightarrow> Inl e
            | Inr _ \<Rightarrow> Inr (btr_root_init tree_class tree_feats tree_order)))"

definition dbtree_create_inplace ::
  "btr_registry \<Rightarrow> nat \<Rightarrow> u64 \<Rightarrow> nat \<Rightarrow> ('h, 'r) btr_root \<Rightarrow> ('h, 'r) btr_root res" where
  "dbtree_create_inplace reg tree_class tree_feats tree_order root =
     (if tree_order < BTR_ORDER_MIN \<or> tree_order > BTR_ORDER_MAX then Inl DER_INVAL
      else if tr_class root \<noteq> 0 then Inl DER_NO_PERM
      else (case btr_class_init reg (Some root) tree_class tree_feats of
              Inl e \<Rightarrow> Inl e
            | Inr _ \<Rightarrow> Inr (btr_root_init tree_class tree_feats tree_order)))"

definition dbtree_open_inplace :: "btr_registry \<Rightarrow> ('h, 'r) btr_root \<Rightarrow> ('h, 'r) btr_root res" where
  "dbtree_open_inplace reg root =
     (if tr_class root = 0 then Inl DER_INVAL
      else (case btr_class_init reg (Some root) 0 0 of Inl e \<Rightarrow> Inl e | Inr _ \<Rightarrow> Inr root))"

section \<open>Cursors\<close>

text \<open>A trace that points at a record, and the records after and before it.\<close>

fun cursor_ok :: "('h, 'r) btr_node \<Rightarrow> ('h, 'r) btr_trace \<Rightarrow> bool" where
  "cursor_ok rt ((Leaf recs, at) # ps) \<longleftrightarrow> at < length recs \<and> trace_of rt (Leaf recs) ps"
| "cursor_ok rt _ \<longleftrightarrow> False"

fun after :: "('h, 'r) btr_trace \<Rightarrow> ('h \<times> 'r) list" where
  "after ((Leaf recs, at) # ps) = drop (Suc at) recs @ item_recs (ctx_r ps)"
| "after _ = []"

fun before :: "('h, 'r) btr_trace \<Rightarrow> ('h \<times> 'r) list" where
  "before ((Leaf recs, at) # ps) = item_recs (ctx_l ps) @ take at recs"
| "before _ = []"

lemma cursor_split: "cursor_ok rt tr \<Longrightarrow> inorder rt = before tr @ btr_trace2rec tr # after tr"
  by (cases "(rt, tr)" rule: cursor_ok.cases) (auto simp: trace_of_elems id_take_nth_drop [symmetric])

lemma next_up_none: "trace_of rt nd ps \<Longrightarrow> btr_next_up ps = None \<Longrightarrow> ctx_r ps = []"
  by (induction rt nd ps rule: trace_of.induct) (auto split: if_splits)

lemma next_up_some:
  assumes "trace_of rt nd ps" "btr_next_up ps = Some ps'"
  shows "\<exists>child recs at up. ps' = (Node child recs, at) # up \<and> trace_of rt (Node child recs) up \<and>
    at \<le> length recs \<and>
    item_recs (ctx_r ps) = inorder (btr_node_child_at (Node child recs) at) @ item_recs (ctx_r ps')"
  using assms
proof (induction rt nd ps rule: trace_of.induct)
  case (3 rt nd child recs at ps)
  then show ?case
    using right_items_drop [of at recs child]
    by (cases "at = length recs") (auto simp del: right_items.simps, simp)
qed auto

lemma prev_up_none: "trace_of rt nd ps \<Longrightarrow> btr_prev_up ps = None \<Longrightarrow> ctx_l ps = []"
  by (induction rt nd ps rule: trace_of.induct) (auto split: if_splits)

lemma prev_up_some:
  assumes "trace_of rt nd ps" "btr_prev_up ps = Some ps'"
  shows "\<exists>child recs at up. ps' = (Node child recs, at) # up \<and> trace_of rt (Node child recs) up \<and>
    at \<le> length recs \<and>
    item_recs (ctx_l ps) = item_recs (ctx_l ps') @ inorder (btr_node_child_at (Node child recs) at)"
  using assms
proof (induction rt nd ps rule: trace_of.induct)
  case (3 rt nd child recs at ps)
  then show ?case
    using left_items_Suc [of "at - 1" recs child]
    by (cases at) (auto simp del: left_items.simps, simp)
qed auto

lemma first_down:
  assumes "trace_of rt nd ps" "node_ok order d nd"
  shows "\<exists>recs ps'. btr_first_down nd ps = (Leaf recs, 0) # ps' \<and> trace_of rt (Leaf recs) ps' \<and> recs \<noteq> [] \<and>
    recs @ item_recs (ctx_r ps') = inorder nd @ item_recs (ctx_r ps)"
  using assms
proof (induction nd ps arbitrary: d rule: btr_first_down.induct)
  case (2 child recs ps)
  then obtain e where "d = Suc e" "node_ok order e child" by (cases d) auto
  then show ?case using "2.IH" [of e] "2.prems"(1) by (simp add: btr_node_child_at.simps)
qed (auto simp: node_ok_leaf)

lemma last_down:
  assumes "trace_of rt nd ps" "node_ok order d nd"
  shows "\<exists>recs ps'. btr_last_down nd ps = (Leaf recs, length recs - 1) # ps' \<and> trace_of rt (Leaf recs) ps' \<and>
    recs \<noteq> [] \<and> item_recs (ctx_l ps') @ recs = item_recs (ctx_l ps) @ inorder nd"
  using assms
proof (induction nd ps arbitrary: d rule: btr_last_down.induct)
  case (2 child recs ps)
  let ?nd = "Node child recs"
  obtain e where e: "d = Suc e" using "2.prems"(2) by (cases d) auto
  have "inorder ?nd = item_recs (left_items ?nd (length recs)) @ inorder (btr_node_child_at ?nd (length recs))"
    using child_at_elems [of "length recs" recs child] by (simp del: left_items.simps)
  then show ?case
    using "2.IH" [OF _ node_ok_child_at [of order e child recs "length recs"]] "2.prems" e
    by (simp del: left_items.simps node_ok.simps)
qed (auto simp: node_ok_leaf)

lemma trace_of_child:
  "trace_of rt (Node child recs) up \<Longrightarrow> at \<le> length recs \<Longrightarrow>
   trace_of rt (btr_node_child_at (Node child recs) at) ((Node child recs, at) # up)"
  by simp

text \<open>\<^verbatim>\<open>btr_probe_next\<close> moves the cursor to the first of the records after it.\<close>

lemma btr_probe_next_ok:
  assumes "cursor_ok rt tr" "node_ok order D rt"
  shows "case btr_probe_next tr of
      None \<Rightarrow> after tr = []
    | Some tr' \<Rightarrow> cursor_ok rt tr' \<and> after tr = btr_trace2rec tr' # after tr'"
proof -
  obtain recs at ps where tr: "tr = (Leaf recs, at) # ps" "at < length recs" "trace_of rt (Leaf recs) ps"
    using assms(1) by (cases "(rt, tr)" rule: cursor_ok.cases) auto
  consider (here) "Suc at < length recs" | (fin) "Suc at = length recs" "btr_next_up ps = None"
    | (up) ps' where "Suc at = length recs" "btr_next_up ps = Some ps'"
    using Suc_leI [OF tr(2)] by (cases "btr_next_up ps") (auto simp: le_less)
  then show ?thesis
  proof cases
    case here
    then show ?thesis using tr by (auto simp: btr_probe_next_def Cons_nth_drop_Suc)
  next
    case fin
    then show ?thesis using tr next_up_none [OF tr(3)] by (auto simp: btr_probe_next_def)
  next
    case up
    obtain child rs at' up where n: "ps' = (Node child rs, at') # up" "trace_of rt (Node child rs) up"
      "at' \<le> length rs"
      "item_recs (ctx_r ps) = inorder (btr_node_child_at (Node child rs) at') @ item_recs (ctx_r ps')"
      using next_up_some [OF tr(3) up(2)] by blast
    let ?nd = "btr_node_child_at (Node child rs) at'"
    have t: "trace_of rt ?nd ps'" unfolding n(1) by (rule trace_of_child [OF n(2,3)])
    then obtain d where "node_ok order d ?nd" using assms(2) by (rule trace_of_ok)
    then obtain recs' ps'' where f: "btr_first_down ?nd ps' = (Leaf recs', 0) # ps''" "trace_of rt (Leaf recs') ps''"
      "recs' \<noteq> []" "recs' @ item_recs (ctx_r ps'') = inorder ?nd @ item_recs (ctx_r ps')"
      using first_down [OF t] by blast
    have "at = length recs - 1" using up(1) by simp
    then have "btr_probe_next tr = Some ((Leaf recs', 0) # ps'')"
      using tr(1) up(2) n(1) f(1) by (simp add: btr_probe_next_def)
    moreover have "after tr = recs' @ item_recs (ctx_r ps'')" using tr(1) up(1) n(4) f(4) by simp
    ultimately show ?thesis using f(2,3) by (cases recs') auto
  qed
qed

lemma btr_probe_prev_ok:
  assumes "cursor_ok rt tr" "node_ok order D rt"
  shows "case btr_probe_prev tr of
      None \<Rightarrow> before tr = []
    | Some tr' \<Rightarrow> cursor_ok rt tr' \<and> before tr = before tr' @ [btr_trace2rec tr']"
proof -
  obtain recs at ps where tr: "tr = (Leaf recs, at) # ps" "at < length recs" "trace_of rt (Leaf recs) ps"
    using assms(1) by (cases "(rt, tr)" rule: cursor_ok.cases) auto
  consider (here) i where "at = Suc i" | (fin) "at = 0" "btr_prev_up ps = None"
    | (up) ps' where "at = 0" "btr_prev_up ps = Some ps'"
    by (cases at; cases "btr_prev_up ps") auto
  then show ?thesis
  proof cases
    case here
    then show ?thesis using tr by (auto simp: btr_probe_prev_def take_Suc_conv_app_nth)
  next
    case fin
    then show ?thesis using tr prev_up_none [OF tr(3)] by (auto simp: btr_probe_prev_def)
  next
    case up
    obtain child rs at' up where n: "ps' = (Node child rs, at') # up" "trace_of rt (Node child rs) up"
      "at' \<le> length rs"
      "item_recs (ctx_l ps) = item_recs (ctx_l ps') @ inorder (btr_node_child_at (Node child rs) at')"
      using prev_up_some [OF tr(3) up(2)] by blast
    let ?nd = "btr_node_child_at (Node child rs) at'"
    have t: "trace_of rt ?nd ps'" unfolding n(1) by (rule trace_of_child [OF n(2,3)])
    then obtain d where "node_ok order d ?nd" using assms(2) by (rule trace_of_ok)
    then obtain recs' ps'' where f: "btr_last_down ?nd ps' = (Leaf recs', length recs' - 1) # ps''"
      "trace_of rt (Leaf recs') ps''" "recs' \<noteq> []"
      "item_recs (ctx_l ps'') @ recs' = item_recs (ctx_l ps') @ inorder ?nd"
      using last_down [OF t] by blast
    have "btr_probe_prev tr = Some ((Leaf recs', length recs' - 1) # ps'')"
      using tr(1) up n(1) f(1) by (simp add: btr_probe_prev_def)
    moreover have "before tr = item_recs (ctx_l ps'') @ recs'" using tr(1) up(1) n(4) f(4) by simp
    ultimately show ?thesis using f(2,3) by (cases recs' rule: rev_cases) auto
  qed
qed

text \<open>Probing for the first and for the last record.\<close>

lemma probe_down_first:
  "btr_probe_down BTR_PROBE_FIRST hkey nd ps = (fst (hd (btr_first_down nd ps)), 0, 1, tl (btr_first_down nd ps))"
proof (induction nd ps rule: btr_first_down.induct)
  case (2 child recs ps)
  then show ?case by (simp add: btr_node_search_def btr_node_child_at.simps)
qed (simp add: btr_node_search_def)

lemma probe_down_last:
  "node_ok order d nd \<Longrightarrow>
   btr_probe_down BTR_PROBE_LAST hkey nd ps =
     (fst (hd (btr_last_down nd ps)), int (snd (hd (btr_last_down nd ps))), - 1, tl (btr_last_down nd ps))"
proof (induction nd ps arbitrary: d rule: btr_last_down.induct)
  case (1 recs ps)
  then show ?case by (auto simp: btr_node_search_def node_ok_leaf Suc_le_eq of_nat_diff)
next
  case (2 child recs ps)
  obtain e where e: "d = Suc e" using "2.prems" by (cases d) auto
  show ?case
    using "2.IH" [OF node_ok_child_at [of order e child recs "length recs"]] "2.prems" e
    by (simp add: btr_node_search_def Let_def)
qed

lemma probe_first_ok:
  assumes "btr_inv root" "tr_node root = Some nd"
  obtains tr where "btr_probe ops root BTR_PROBE_FIRST key anchor = (PROBE_RC_OK, tr)" "cursor_ok nd tr"
    "inorder nd = btr_trace2rec tr # after tr"
proof -
  have ok: "node_ok (tr_order root) (tr_depth root) nd" using assms by (simp add: btr_inv_def)
  obtain recs ps where f: "btr_first_down nd [] = (Leaf recs, 0) # ps" "trace_of nd (Leaf recs) ps"
    "recs \<noteq> []" "recs @ item_recs (ctx_r ps) = inorder nd"
    using first_down [of nd nd "[]", OF _ ok] by auto
  show ?thesis
    by (rule that [of "(Leaf recs, 0) # ps"])
      (use f assms(2) in \<open>auto simp: btr_probe_def probe_down_first btr_probe_end_def simp flip: f(4)
        simp: neq_Nil_conv\<close>)
qed

lemma probe_last_ok:
  assumes "btr_inv root" "tr_node root = Some nd"
  obtains tr where "btr_probe ops root BTR_PROBE_LAST key anchor = (PROBE_RC_OK, tr)" "cursor_ok nd tr"
    "inorder nd = before tr @ [btr_trace2rec tr]"
proof -
  have ok: "node_ok (tr_order root) (tr_depth root) nd" using assms by (simp add: btr_inv_def)
  obtain recs ps where f: "btr_last_down nd [] = (Leaf recs, length recs - 1) # ps" "trace_of nd (Leaf recs) ps"
    "recs \<noteq> []" "item_recs (ctx_l ps) @ recs = inorder nd"
    using last_down [of nd nd "[]", OF _ ok] by auto
  have "recs = take (length recs - 1) recs @ [recs ! (length recs - 1)]"
    using f(3) by (metis append_butlast_last_id butlast_conv_take last_conv_nth)
  then show ?thesis
    by (intro that [of "(Leaf recs, length recs - 1) # ps"])
      (use f assms(2) in \<open>auto simp: btr_probe_def probe_down_last [OF ok] btr_probe_end_def simp flip: f(4)\<close>)
qed

section \<open>Iteration\<close>

text \<open>The callback run over a list of records.\<close>

fun iterate_spec :: "('k \<Rightarrow> 'v \<Rightarrow> 'a \<Rightarrow> cb_rc \<times> 'a) \<Rightarrow> ('k \<times> 'v) list \<Rightarrow> 'a \<Rightarrow> der option \<times> 'a" where
  "iterate_spec cb [] arg = (None, arg)"
| "iterate_spec cb ((key, val) # xs) arg =
     (case cb key val arg of
        (CB_CONTINUE, arg') \<Rightarrow> iterate_spec cb xs arg'
      | (CB_STOP, arg') \<Rightarrow> (None, arg')
      | (CB_ERR e, arg') \<Rightarrow> (Some e, arg'))"

lemma iterate_spec_Cons:
  "iterate_spec cb (x # xs) arg =
     (case cb (fst x) (snd x) arg of
        (CB_CONTINUE, arg') \<Rightarrow> iterate_spec cb xs arg'
      | (CB_STOP, arg') \<Rightarrow> (None, arg')
      | (CB_ERR e, arg') \<Rightarrow> (Some e, arg'))"
  by (cases x) simp

abbreviation fetch_rec :: "('k, 'v, 'h, 'r) btr_ops \<Rightarrow> 'h \<times> 'r \<Rightarrow> 'k \<times> 'v" where
  "fetch_rec ops x \<equiv> to_rec_fetch ops (fst x) (snd x)"

text \<open>\<open>rest\<close> are the records the loop has still to visit after the current one.\<close>

definition rest :: "bool \<Rightarrow> ('h, 'r) btr_trace \<Rightarrow> ('h \<times> 'r) list" where
  "rest backward tr = (if backward then rev (before tr) else after tr)"

lemma btr_iter_move_ok:
  assumes "cursor_ok nd (tc_trace tcx)" "node_ok order D nd" "it_state tcx = BTR_ITR_READY"
  shows "case rest backward (tc_trace tcx) of
      [] \<Rightarrow> btr_iter_move tcx (\<not> backward) = (Some DER_NONEXIST, tcx\<lparr>it_state := BTR_ITR_FINI\<rparr>)
    | x # xs \<Rightarrow> \<exists>tr. btr_iter_move tcx (\<not> backward) = (None, tcx\<lparr>tc_trace := tr, it_state := BTR_ITR_READY\<rparr>) \<and>
        cursor_ok nd tr \<and> btr_trace2rec tr = x \<and> rest backward tr = xs"
  using btr_probe_next_ok [OF assms(1,2)] btr_probe_prev_ok [OF assms(1,2)] assms(3)
  by (cases backward) (auto simp: btr_iter_move_def btr_iter_is_ready_def rest_def split: option.splits list.splits)

lemma iterate_loop_ok:
  assumes "cursor_ok nd (tc_trace tcx)" "node_ok order D nd" "it_state tcx = BTR_ITR_READY"
  shows "iterate_loop ops backward cb tcx arg =
    Some (iterate_spec cb (map (fetch_rec ops) (btr_trace2rec (tc_trace tcx) # rest backward (tc_trace tcx))) arg)"
  using assms
proof (induction "rest backward (tc_trace tcx)" arbitrary: tcx arg)
  case Nil
  then show ?case
    using btr_iter_move_ok [OF Nil.prems, of backward]
    by (subst iterate_loop.simps)
      (simp add: dbtree_iter_fetch_def btr_iter_is_ready_def case_prod_beta iterate_spec_Cons
        split: prod.splits cb_rc.splits)
next
  case (Cons x xs)
  obtain tr where tr: "cursor_ok nd tr"
    "btr_iter_move tcx (\<not> backward) = (None, tcx\<lparr>tc_trace := tr, it_state := BTR_ITR_READY\<rparr>)" "btr_trace2rec tr = x" "rest backward tr = xs"
    using btr_iter_move_ok [OF Cons.prems, of backward] by (simp flip: Cons.hyps(2)) blast
  have "iterate_loop ops backward cb (tcx\<lparr>tc_trace := tr, it_state := BTR_ITR_READY\<rparr>) a =
      Some (iterate_spec cb (map (fetch_rec ops) (x # xs)) a)" for a
    using Cons.hyps(1) [of "tcx\<lparr>tc_trace := tr, it_state := BTR_ITR_READY\<rparr>" a] tr Cons.prems(2) by simp
  then show ?case
    using tr(2) Cons.hyps(2) [symmetric] Cons.prems(3)
    by (subst iterate_loop.simps)
      (simp add: dbtree_iter_fetch_def btr_iter_is_ready_def case_prod_beta iterate_spec_Cons
        split: prod.splits cb_rc.splits)
qed

lemma dbtree_iterate_ok:
  assumes "btr_inv root"
  shows "dbtree_iterate ops root backward cb arg =
    Some (iterate_spec cb (map (fetch_rec ops) (if backward then rev (btr_recs root) else btr_recs root)) arg)"
proof (cases "tr_node root")
  case None
  then show ?thesis
    by (auto simp: dbtree_iterate_def dbtree_iter_probe_def dbtree_iter_prepare_def btr_probe_is_public_def
        btr_probe_def btr_recs_def)
next
  case (Some nd)
  have ok: "node_ok (tr_order root) (tr_depth root) nd" using assms Some by (simp add: btr_inv_def)
  let ?opc = "if backward then BTR_PROBE_LAST else BTR_PROBE_FIRST"
  obtain tr where tr: "btr_probe ops root ?opc None None = (PROBE_RC_OK, tr)" "cursor_ok nd tr"
    "(if backward then rev (inorder nd) else inorder nd) = btr_trace2rec tr # rest backward tr"
  proof (cases backward)
    case True
    obtain tr where "btr_probe ops root BTR_PROBE_LAST None None = (PROBE_RC_OK, tr)" "cursor_ok nd tr"
      "inorder nd = before tr @ [btr_trace2rec tr]" by (rule probe_last_ok [OF assms Some])
    then show ?thesis using True by (intro that [of tr]) (simp_all add: rest_def)
  next
    case False
    obtain tr where "btr_probe ops root BTR_PROBE_FIRST None None = (PROBE_RC_OK, tr)" "cursor_ok nd tr"
      "inorder nd = btr_trace2rec tr # after tr" by (rule probe_first_ok [OF assms Some])
    then show ?thesis using False by (intro that [of tr]) (simp_all add: rest_def)
  qed
  then show ?thesis
    using iterate_loop_ok [OF _ ok, of "\<lparr>tc_root = root, tc_trace = tr, it_state = BTR_ITR_READY\<rparr>"] Some
    by (cases backward)
      (auto simp: dbtree_iterate_def dbtree_iter_probe_def dbtree_iter_prepare_def btr_probe_is_public_def btr_recs_def)
qed

section \<open>Range lookups\<close>

text \<open>The record each public probe finds, on the list of records.\<close>

definition probe_spec :: "btr_probe_opc \<Rightarrow> 'h::linorder \<Rightarrow> ('h \<times> 'r) list \<Rightarrow> ('h \<times> 'r) option" where
  "probe_spec opc hkey recs =
     (let found = filter (\<lambda>x. case opc of
                            BTR_PROBE_FIRST \<Rightarrow> True
                          | BTR_PROBE_LAST \<Rightarrow> True
                          | BTR_PROBE_GE \<Rightarrow> hkey \<le> fst x
                          | BTR_PROBE_LE \<Rightarrow> fst x \<le> hkey
                          | _ \<Rightarrow> fst x = hkey) recs
      in if found = [] then None
         else Some (if opc = BTR_PROBE_LAST \<or> opc = BTR_PROBE_LE then last found else hd found))"

lemma probe_ok_cursor:
  assumes "probe_ok nd hkey recs at cmp ps" "tr = (Leaf recs, nat at) # ps"
  shows "cursor_ok nd tr" "\<forall>x\<in>set (before tr). fst x < hkey" "\<forall>x\<in>set (after tr). hkey < fst x"
    "cmp = 0 \<longleftrightarrow> fst (btr_trace2rec tr) = hkey" "cmp < 0 \<longleftrightarrow> fst (btr_trace2rec tr) < hkey"
proof -
  have so: "search_ok (map fst recs) hkey at cmp" using assms(1) by (simp add: probe_ok_def)
  then have at: "nat at < length recs" "0 \<le> at" by (auto simp: search_ok_def)
  show "cursor_ok nd tr" using assms at by (simp add: probe_ok_def)
  have "fst x < hkey" if "x \<in> set (take (nat at) recs)" for x
    using so that at by (fastforce simp: search_ok_def in_set_conv_nth)
  moreover have "h < hkey" if "(h, Some r) \<in> set (ctx_l ps)" for h r
    using assms(1) that by (fastforce simp: probe_ok_def below_def)
  ultimately show "\<forall>x\<in>set (before tr). fst x < hkey"
    unfolding assms(2) by (auto simp: set_item_recs)
  have "hkey < fst x" if x: "x \<in> set (drop (Suc (nat at)) recs)" for x
  proof -
    obtain i where "i < length recs - Suc (nat at)" "x = recs ! (Suc (nat at) + i)"
      using x by (auto simp: in_set_conv_nth)
    then show ?thesis using so at by (simp add: search_ok_def)
  qed
  moreover have "hkey < h" if "(h, Some r) \<in> set (ctx_r ps)" for h r
    using assms(1) that by (fastforce simp: probe_ok_def)
  ultimately show "\<forall>x\<in>set (after tr). hkey < fst x"
    unfolding assms(2) by (auto simp: set_item_recs)
  show "cmp = 0 \<longleftrightarrow> fst (btr_trace2rec tr) = hkey" "cmp < 0 \<longleftrightarrow> fst (btr_trace2rec tr) < hkey"
    using so at assms(2) by (auto simp: search_ok_def)
qed

lemma filter_all: "\<forall>x\<in>set xs. P x \<Longrightarrow> filter P xs = xs"
  by simp

text \<open>The end of the probe, from the cursor at the leaf to the record found.\<close>

lemma btr_probe_end_ok:
  assumes "probe_ok nd hkey recs at cmp ps" "node_ok order D nd"
    and "opc = BTR_PROBE_EQ \<or> opc = BTR_PROBE_GE \<or> opc = BTR_PROBE_LE"
  shows "case probe_spec opc hkey (inorder nd) of
      None \<Rightarrow> fst (btr_probe_end opc cmp ((Leaf recs, nat at) # ps)) = PROBE_RC_NONE
    | Some x \<Rightarrow> \<exists>tr. btr_probe_end opc cmp ((Leaf recs, nat at) # ps) =
          (if fst x = hkey then PROBE_RC_EQ else PROBE_RC_OK, tr) \<and> cursor_ok nd tr \<and> btr_trace2rec tr = x"
proof -
  define tr where "tr = (Leaf recs, nat at) # ps"
  note c = probe_ok_cursor [OF assms(1) tr_def]
  note n = btr_probe_next_ok [OF c(1) assms(2)] and p = btr_probe_prev_ok [OF c(1) assms(2)]
  have b: "x \<in> set (before tr) \<Longrightarrow> fst x < hkey \<and> fst x \<noteq> hkey \<and> fst x \<le> hkey \<and> \<not> hkey \<le> fst x" for x
    using c(2) by auto
  have a: "x \<in> set (after tr) \<Longrightarrow> hkey < fst x \<and> fst x \<noteq> hkey \<and> hkey \<le> fst x \<and> \<not> fst x \<le> hkey" for x
    using c(3) by auto
  consider "opc = BTR_PROBE_EQ" | "opc = BTR_PROBE_GE" | "opc = BTR_PROBE_LE" using assms(3) by blast
  then show ?thesis
  proof cases
    case 1
    have "filter (\<lambda>x. fst x = hkey) (inorder nd) = (if cmp = 0 then [btr_trace2rec tr] else [])"
      using a b c(4) unfolding cursor_split [OF c(1)] by (auto simp: filter_empty_conv)
    then show ?thesis using 1 c(1,4) by (simp add: probe_spec_def btr_probe_end_def tr_def [symmetric])
  next
    case 2
    have "filter (\<lambda>x. hkey \<le> fst x) (inorder nd) = (if 0 \<le> cmp then btr_trace2rec tr # after tr else after tr)"
      using a b c(4,5) unfolding cursor_split [OF c(1)] by (auto simp: filter_empty_conv filter_all)
    then show ?thesis using 2 n c a
      by (fastforce simp: probe_spec_def btr_probe_end_def tr_def [symmetric] split: option.splits)
  next
    case 3
    have "filter (\<lambda>x. fst x \<le> hkey) (inorder nd) = (if cmp \<le> 0 then before tr @ [btr_trace2rec tr] else before tr)"
      using a b c(4,5) unfolding cursor_split [OF c(1)] by (auto simp: filter_empty_conv filter_all)
    then show ?thesis using 3 p c b
      by (fastforce simp: probe_spec_def btr_probe_end_def tr_def [symmetric] split: option.splits)
  qed
qed

context btr_class
begin

lemma fetch_ok:
  assumes "tree_inv root" "k \<in> keys" "btr_probe_is_public opc"
  shows "dbtree_fetch ops root opc (Some k) =
    (case probe_spec opc (hkey k) (btr_recs root) of
       None \<Rightarrow> Inl DER_NONEXIST
     | Some x \<Rightarrow>
         Inr (if probe_key opc \<and> fst x = hkey k then None else Some (rec_key (fst x) (snd x)), rec_val (snd x)))"
proof (cases "tr_node root")
  case None
  then show ?thesis
    using assms(3) by (simp add: dbtree_fetch_def probe_none probe_spec_def btr_recs_def)
next
  case (Some nd)
  have inv: "btr_inv root" "node_ok (tr_order root) (tr_depth root) nd"
    using assms(1) Some by (auto simp: tree_inv_def btr_inv_def)
  have r: "btr_recs root = inorder nd" using Some by (simp add: btr_recs_def)
  consider "opc = BTR_PROBE_FIRST" | "opc = BTR_PROBE_LAST"
    | (key) "opc = BTR_PROBE_EQ \<or> opc = BTR_PROBE_GE \<or> opc = BTR_PROBE_LE"
    using assms(3) by (auto simp: btr_probe_is_public_def)
  then show ?thesis
  proof cases
    case 1
    obtain tr where "btr_probe ops root BTR_PROBE_FIRST (Some k) None = (PROBE_RC_OK, tr)"
      "inorder nd = btr_trace2rec tr # after tr" by (rule probe_first_ok [OF inv(1) Some])
    then show ?thesis
      using 1 r assms(3) by (simp add: dbtree_fetch_def probe_spec_def rec_fetch probe_key_def case_prod_beta)
  next
    case 2
    obtain tr where "btr_probe ops root BTR_PROBE_LAST (Some k) None = (PROBE_RC_OK, tr)"
      "inorder nd = before tr @ [btr_trace2rec tr]" by (rule probe_last_ok [OF inv(1) Some])
    then show ?thesis
      using 2 r assms(3) by (simp add: dbtree_fetch_def probe_spec_def rec_fetch probe_key_def case_prod_beta)
  next
    case key
    then have pk: "probe_key opc" "opc \<noteq> BTR_PROBE_UPDATE" by (auto simp: probe_key_def)
    obtain recs at cmp ps where p: "probe_ok nd (hkey k) recs at cmp ps"
      "btr_probe ops root opc (Some k) None = btr_probe_end opc cmp ((Leaf recs, nat at) # ps)"
      by (rule probe_some [OF assms(1) Some pk(1) assms(2), of None]) (auto simp: pk(2))
    show ?thesis
      using btr_probe_end_ok [OF p(1) inv(2) key] p(2) assms(3) pk(1) r
      by (auto simp: dbtree_fetch_def rec_fetch case_prod_beta split: option.splits)
  qed
qed

end

section \<open>Statistics, creation and destruction are right\<close>

lemma fold_node_stat:
  "bs_rec_nr (fold (\<lambda>(h, nd). btr_node_stat nd) recs st) =
     bs_rec_nr st + sum_list (map (\<lambda>x. length (inorder (snd x))) recs)"
  if "\<And>x st. x \<in> set recs \<Longrightarrow> bs_rec_nr (btr_node_stat (snd x) st) = bs_rec_nr st + length (inorder (snd x))"
  using that by (induction recs arbitrary: st) (auto simp: case_prod_beta)

lemma inorder_Node: "inorder (Node child recs) = inorder child @ concat (map (\<lambda>x. inorder (snd x)) recs)"
  by (induction recs) (auto simp: flat_Cons)

lemma btr_node_stat_recs: "bs_rec_nr (btr_node_stat nd st) = bs_rec_nr st + length (inorder nd)"
proof (induction nd arbitrary: st)
  case (Node child recs)
  have "bs_rec_nr (btr_node_stat (snd x) s) = bs_rec_nr s + length (inorder (snd x))" if "x \<in> set recs" for x s
    using Node.IH(2) [of x "snd x" s] that by (auto simp: snds.simps)
  then show ?case
    using Node.IH(1) by (simp add: fold_node_stat inorder_Node length_concat comp_def del: elems_Node)
qed simp

lemma btr_tree_stat_recs: "bs_rec_nr (btr_tree_stat root) = length (btr_recs root)"
  by (simp add: btr_tree_stat_def btr_recs_def btr_node_stat_recs split: option.splits)

lemma fold_node_destroy:
  "fr_recs (fold (\<lambda>(h, nd). btr_node_destroy nd) recs fr) =
     fr_recs fr @ concat (map (\<lambda>x. map snd (inorder (snd x))) recs)"
  if "\<And>x fr. x \<in> set recs \<Longrightarrow> fr_recs (btr_node_destroy (snd x) fr) = fr_recs fr @ map snd (inorder (snd x))"
  using that by (induction recs arbitrary: fr) (auto simp: case_prod_beta)

lemma btr_node_destroy_recs: "fr_recs (btr_node_destroy nd fr) = fr_recs fr @ map snd (inorder nd)"
proof (induction nd arbitrary: fr)
  case (Node child recs)
  have "fr_recs (btr_node_destroy (snd x) s) = fr_recs s @ map snd (inorder (snd x))" if "x \<in> set recs" for x s
    using Node.IH(2) [of x "snd x" s] that by (auto simp: snds.simps)
  then show ?case
    using Node.IH(1) by (simp add: fold_node_destroy inorder_Node Let_def map_concat comp_def del: elems_Node)
qed simp

text \<open>The nodes a statistics pass counts and a destruction frees, by kind.\<close>

fun leaves :: "('h, 'r) btr_node \<Rightarrow> nat" where
  "leaves (Leaf recs) = 1"
| "leaves (Node child recs) = leaves child + sum_list (map (\<lambda>(h, nd). leaves nd) recs)"

fun inner :: "('h, 'r) btr_node \<Rightarrow> nat" where
  "inner (Leaf recs) = 0"
| "inner (Node child recs) = Suc (inner child + sum_list (map (\<lambda>(h, nd). inner nd) recs))"

lemma fold_stat_nodes:
  "bs_node_nr (fold (\<lambda>(h, nd). btr_node_stat nd) recs st) + length recs =
     bs_node_nr st + sum_list (map (\<lambda>(h, nd). leaves nd) recs) + sum_list (map (\<lambda>(h, nd). inner nd) recs)"
  if "\<And>x st. x \<in> set recs \<Longrightarrow>
    bs_node_nr (btr_node_stat (snd x) st) + 1 = bs_node_nr st + leaves (snd x) + inner (snd x)"
  using that
proof (induction recs arbitrary: st)
  case (Cons x recs)
  have "bs_node_nr (fold (\<lambda>(h, nd). btr_node_stat nd) recs (btr_node_stat (snd x) st)) + length recs =
      bs_node_nr (btr_node_stat (snd x) st) + sum_list (map (\<lambda>(h, nd). leaves nd) recs) +
      sum_list (map (\<lambda>(h, nd). inner nd) recs)"
    using Cons by auto
  then show ?case using Cons.prems [of x st] by (cases x) simp
qed simp

lemma btr_node_stat_nodes: "bs_node_nr (btr_node_stat nd st) + 1 = bs_node_nr st + leaves nd + inner nd"
proof (induction nd arbitrary: st)
  case (Node child recs)
  let ?st = "btr_node_stat child (st\<lparr>bs_node_nr := bs_node_nr st + length recs + 1\<rparr>)"
  have "bs_node_nr (btr_node_stat (snd x) s) + 1 = bs_node_nr s + leaves (snd x) + inner (snd x)"
    if "x \<in> set recs" for x s
    using Node.IH(2) [of x "snd x" s] that by (auto simp: snds.simps)
  from fold_stat_nodes [OF this, of recs ?st]
  show ?case using Node.IH(1) [of "st\<lparr>bs_node_nr := bs_node_nr st + length recs + 1\<rparr>"] by simp
qed simp

lemma btr_node_destroy_nodes: "fr_nodes (btr_node_destroy nd fr) = fr_nodes fr + inner nd"
proof (induction nd arbitrary: fr)
  case (Node child recs)
  have "fr_nodes (btr_node_destroy (snd x) s) = fr_nodes s + inner (snd x)" if "x \<in> set recs" for x s
    using Node.IH(2) [of x "snd x" s] that by (auto simp: snds.simps)
  then have "fr_nodes (fold (\<lambda>(h, nd). btr_node_destroy nd) recs s) =
      fr_nodes s + sum_list (map (\<lambda>(h, nd). inner nd) recs)" for s
    by (induction recs arbitrary: s) (auto simp: case_prod_beta)
  then show ?case using Node.IH(1) by (simp add: Let_def)
qed simp

section \<open>Depth\<close>

text \<open>Every level doubles the number of records at least, so the traces of a context are long enough.\<close>

lemma depth_le_recs: "node_ok order (Suc d) nd \<Longrightarrow> 2 ^ d \<le> length (inorder nd)"
proof (induction d arbitrary: nd)
  case 0
  then show ?case using inorder_nonempty [OF 0] by (cases "inorder nd") auto
next
  case (Suc d)
  obtain child recs where nd: "nd = Node child recs" using node_ok_Suc [OF _ Suc.prems] by auto
  then obtain x xs where x: "recs = x # xs" using Suc.prems by (cases recs) auto
  have "2 ^ d \<le> length (inorder child)" "2 ^ d \<le> length (inorder (snd x))"
    using Suc.IH Suc.prems nd x by auto
  then show ?case by (simp add: nd x flat_Cons)
qed

lemma btr_inv_depth:
  assumes "btr_inv root" "length (btr_recs root) < 2 ^ BTR_TRACE_MAX"
  shows "tr_depth root \<le> BTR_TRACE_MAX"
proof (cases "tr_node root")
  case (Some nd)
  then have ok: "node_ok (tr_order root) (tr_depth root) nd" using assms(1) by (simp add: btr_inv_def)
  then obtain d where d: "tr_depth root = Suc d" by (cases "tr_depth root") auto
  then have "2 ^ d \<le> length (inorder nd)" using ok depth_le_recs by metis
  moreover have "length (inorder nd) < 2 ^ BTR_TRACE_MAX" using assms(2) Some by (simp add: btr_recs_def)
  ultimately have "(2::nat) ^ d < 2 ^ BTR_TRACE_MAX" by (rule order_le_less_trans)
  then show ?thesis using d by simp
qed (use assms(1) in \<open>simp add: btr_inv_def\<close>)

end
