(* ===== verification/Hash.thy ===== *)
theory Hash
  imports Prelude
begin

text \<open>
  The hash functions of \<^verbatim>\<open>src/common/hash.c\<close> on 32-bit and 64-bit words: the mixing functions, the
  search for a hash in a consistent-hash ring, the string hash and the Murmur hash of keys.
\<close>

unbundle bit_operations_syntax

section \<open>Mixing\<close>

definition daos_hash_mix64 :: "u64 \<Rightarrow> u64" where
  "daos_hash_mix64 key =
     (let key = NOT key + push_bit 21 key;
          key = key XOR drop_bit 24 key;
          key = (key + push_bit 3 key) + push_bit 8 key;
          key = key XOR drop_bit 14 key;
          key = (key + push_bit 2 key) + push_bit 4 key;
          key = key XOR drop_bit 28 key;
          key = key + push_bit 31 key
      in key)"

definition daos_hash_mix96 :: "u32 \<Rightarrow> u32 \<Rightarrow> u32 \<Rightarrow> u32" where
  "daos_hash_mix96 a b c =
     (let a = a - b; a = a - c; a = a XOR drop_bit 13 c;
          b = b - c; b = b - a; b = b XOR push_bit 8 a;
          c = c - a; c = c - b; c = c XOR drop_bit 13 b;
          a = a - b; a = a - c; a = a XOR drop_bit 12 c;
          b = b - c; b = b - a; b = b XOR push_bit 16 a;
          c = c - a; c = c - b; c = c XOR drop_bit 5 b;
          a = a - b; a = a - c; a = a XOR drop_bit 3 c;
          b = b - c; b = b - a; b = b XOR push_bit 10 a;
          c = c - a; c = c - b; c = c XOR drop_bit 15 b
      in c)"

text \<open>The loop of \<^verbatim>\<open>daos_chash_srch_u64\<close>, on \<open>low\<close> and \<open>high\<close>.\<close>

function chash_loop :: "u64 list \<Rightarrow> u64 \<Rightarrow> int \<Rightarrow> int \<Rightarrow> int \<times> int" where
  "chash_loop hashes val low high =
     (if high - low > 1
      then (let i = (low + high) div 2 in
            if val \<ge> hashes ! nat i then chash_loop hashes val i high
            else chash_loop hashes val low i)
      else (low, high))"
  by pat_completeness auto
termination
  by (relation "measure (\<lambda>(hashes, val, low, high). nat (high - low))") auto

declare chash_loop.simps [simp del]

definition daos_chash_srch_u64 :: "u64 list \<Rightarrow> u64 \<Rightarrow> nat" where
  "daos_chash_srch_u64 hashes val =
     (let (low, high) = chash_loop hashes val 0 (int (length hashes) - 1)
      in if val \<ge> hashes ! nat high then nat high else nat low)"

section \<open>Hashes of byte strings\<close>

definition daos_hash_string_u32 :: "u8 list \<Rightarrow> u32" where
  "daos_hash_string_u32 string = fold (\<lambda>p result. push_bit 5 result + result + ucast p) string 5381"

definition MUR_PRIME :: u64 where "MUR_PRIME = 0xc6a4a7935bd1e995"
definition MUR_ROTATE :: nat where "MUR_ROTATE = 47"

definition mur_mix :: "u64 \<Rightarrow> u64 \<Rightarrow> u64" where
  "mur_mix mur k =
     (let k = k * MUR_PRIME; k = k XOR drop_bit MUR_ROTATE k; k = k * MUR_PRIME
      in (mur XOR k) * MUR_PRIME)"

text \<open>The loop over whole 8-byte words: the hash so far and the bytes left.\<close>

function mur_loop :: "u64 \<Rightarrow> u8 list \<Rightarrow> u64 \<times> u8 list" where
  "mur_loop mur key =
     (if length key \<ge> 8 then mur_loop (mur_mix mur (bytes_u64 (take 8 key))) (drop 8 key) else (mur, key))"
  by pat_completeness auto
termination by (relation "measure (\<lambda>(mur, key). length key)") auto

declare mur_loop.simps [simp del]

text \<open>The \<^verbatim>\<open>switch\<close>: the remaining bytes, each shifted to its place.\<close>

definition mur_rest :: "u64 \<Rightarrow> u8 list \<Rightarrow> u64" where
  "mur_rest mur key =
     (if key = [] then mur
      else fold (\<lambda>i mur. mur XOR push_bit (8 * i) (ucast (key ! i))) (rev [0..<length key]) mur * MUR_PRIME)"

definition daos_hash_murmur64 :: "u8 list \<Rightarrow> u32 \<Rightarrow> u64" where
  "daos_hash_murmur64 key seed =
     (let mur = ucast seed XOR (ucast (word_of_nat (length key) :: u32) * MUR_PRIME);
          (mur, key') = mur_loop mur key;
          mur = mur_rest mur key';
          mur = mur XOR drop_bit MUR_ROTATE mur;
          mur = mur * MUR_PRIME;
          mur = mur XOR drop_bit MUR_ROTATE mur
      in mur)"

section \<open>Mixing is injective\<close>

lemma xor_drop_bit_inj:
  fixes x y :: "'a::len word"
  assumes "0 < n" "x XOR drop_bit n x = y XOR drop_bit n y"
  shows "x = y"
proof (rule bit_word_eqI)
  fix i assume "i < LENGTH('a)"
  then show "bit x i = bit y i"
  proof (induction "LENGTH('a) - i" arbitrary: i rule: less_induct)
    case less
    have "bit (x XOR drop_bit n x) i = bit (y XOR drop_bit n y) i" using assms(2) by simp
    moreover have "bit x (n + i) = bit y (n + i)"
    proof (cases "n + i < LENGTH('a)")
      case True
      then show ?thesis using less.hyps [of "n + i"] less.prems assms(1) by auto
    next
      case False
      then show ?thesis by (auto dest: bit_imp_le_length)
    qed
    ultimately show ?case using less.prems by (auto simp: bit_xor_iff bit_drop_bit_eq)
  qed
qed

lemma mult_unit_inj:
  fixes a b x y :: "'a::len word"
  assumes "b * a = 1" "a * x = a * y"
  shows "x = y"
proof -
  have "b * a * x = b * a * y" using assms(2) by (simp only: mult.assoc)
  then show ?thesis using assms(1) by simp
qed

lemma mix64_steps:
  fixes k :: u64
  shows "NOT k + push_bit 21 k = 2097151 * k - 1" "(k + push_bit 3 k) + push_bit 8 k = 265 * k"
    "(k + push_bit 2 k) + push_bit 4 k = 21 * k" "k + push_bit 31 k = 2147483649 * k"
  by (simp_all add: not_eq_complement push_bit_eq_mult algebra_simps)

lemma mix64_units:
  "0x7ffffbffffdfffff * 2097151 = (1 :: u64)" "0xd38ff08b1c03dd39 * 265 = (1 :: u64)"
  "0xcf3cf3cf3cf3cf3d * 21 = (1 :: u64)" "0x3fffffff80000001 * 2147483649 = (1 :: u64)"
  by simp_all

lemma daos_hash_mix64_eq:
  "daos_hash_mix64 k =
     2147483649 * ((\<lambda>k. k XOR drop_bit 28 k) (21 * ((\<lambda>k. k XOR drop_bit 14 k)
       (265 * ((\<lambda>k. k XOR drop_bit 24 k) (2097151 * k - 1))))))"
  unfolding daos_hash_mix64_def Let_def mix64_steps ..

lemma daos_hash_mix64_inj: "daos_hash_mix64 x = daos_hash_mix64 y \<Longrightarrow> x = y"
  unfolding daos_hash_mix64_eq
  by (drule mult_unit_inj [OF mix64_units(4)], drule xor_drop_bit_inj [rotated], simp,
      drule mult_unit_inj [OF mix64_units(3)], drule xor_drop_bit_inj [rotated], simp,
      drule mult_unit_inj [OF mix64_units(2)], drule xor_drop_bit_inj [rotated], simp,
      rule mult_unit_inj [OF mix64_units(1)], simp)

section \<open>Short keys do not collide\<close>

lemma MUR_PRIME_unit: "0x5f7a0ea7e59b19bd * MUR_PRIME = 1"
  by (simp add: MUR_PRIME_def)

lemma mult_MUR_PRIME_inj: "x * MUR_PRIME = y * MUR_PRIME \<Longrightarrow> x = y"
  using mult_unit_inj [OF MUR_PRIME_unit] by (simp add: mult.commute)

lemma MUR_ROTATE_pos: "0 < MUR_ROTATE"
  by (simp add: MUR_ROTATE_def)

definition mur_final :: "u64 \<Rightarrow> u64" where
  "mur_final mur = (let m = (mur XOR drop_bit MUR_ROTATE mur) * MUR_PRIME in m XOR drop_bit MUR_ROTATE m)"

lemma mur_final_inj: "mur_final x = mur_final y \<Longrightarrow> x = y"
  unfolding mur_final_def Let_def
  by (drule xor_drop_bit_inj [OF MUR_ROTATE_pos], drule mult_MUR_PRIME_inj, erule xor_drop_bit_inj [OF MUR_ROTATE_pos])

definition mur_init :: "u8 list \<Rightarrow> u32 \<Rightarrow> u64" where
  "mur_init key seed = ucast seed XOR (ucast (word_of_nat (length key) :: u32) * MUR_PRIME)"

lemma murmur64_final:
  "daos_hash_murmur64 key seed =
     (case mur_loop (mur_init key seed) key of (mur, key') \<Rightarrow> mur_final (mur_rest mur key'))"
  by (simp add: daos_hash_murmur64_def mur_final_def mur_init_def Let_def split: prod.splits)

lemma murmur64_short: "length key < 8 \<Longrightarrow> daos_hash_murmur64 key seed = mur_final (mur_rest (mur_init key seed) key)"
  unfolding murmur64_final by (subst mur_loop.simps) simp

lemma murmur64_word:
  "length key = 8 \<Longrightarrow> daos_hash_murmur64 key seed = mur_final (mur_mix (mur_init key seed) (bytes_u64 key))"
  unfolding murmur64_final by (subst mur_loop.simps, simp, subst mur_loop.simps) (simp add: mur_rest_def)

lemma xor_left_cancel:
  fixes a b c :: "'a::len word"
  assumes "a XOR b = a XOR c"
  shows "b = c"
proof -
  have "a XOR (a XOR b) = a XOR (a XOR c)" using assms by simp
  then show ?thesis by simp
qed

lemma mur_mix_inj: "mur_mix mur x = mur_mix mur y \<Longrightarrow> x = y"
  unfolding mur_mix_def Let_def
  by (drule mult_MUR_PRIME_inj, drule xor_left_cancel, drule mult_MUR_PRIME_inj, drule xor_drop_bit_inj [OF MUR_ROTATE_pos],
      erule mult_MUR_PRIME_inj)

lemma bit_mur_fold:
  assumes "n \<le> 8" "j < 64"
  shows "bit (fold (\<lambda>i mur. mur XOR push_bit (8 * i) (ucast (key ! i))) (rev [0..<n]) (mur :: u64)) j \<longleftrightarrow>
    bit mur j \<noteq> (j < 8 * n \<and> bit (key ! (j div 8) :: u8) (j mod 8))"
  using assms(1)
proof (induction n arbitrary: mur)
  case (Suc n)
  have b: "bit (push_bit (8 * n) (ucast (key ! n)) :: u64) j \<longleftrightarrow>
      8 * n \<le> j \<and> j < 8 * Suc n \<and> bit (key ! n) (j - 8 * n)"
    using assms(2) bit_imp_le_length [of "key ! n" "j - 8 * n"] by (auto simp: bit_simps)
  have d: "j div 8 = n \<and> j mod 8 = j - 8 * n" if le: "8 * n \<le> j" and lt: "j < 8 * Suc n"
  proof -
    obtain i where "j = 8 * n + i" using le_Suc_ex [OF le] by blast
    moreover from this have "i < 8" using lt by simp
    ultimately show ?thesis by simp
  qed
  let ?m = "mur XOR push_bit (8 * n) (ucast (key ! n))"
  have "bit ?m j \<longleftrightarrow> bit mur j \<noteq> (8 * n \<le> j \<and> j < 8 * Suc n \<and> bit (key ! n) (j - 8 * n))"
    unfolding bit_xor_iff b by blast
  then show ?case using Suc.IH [of ?m] Suc.prems d by (cases "8 * n \<le> j") auto
qed simp

lemma mur_rest_inj:
  assumes "length k = length k'" "length k < 8" "mur_rest mur k = mur_rest mur k'"
  shows "k = k'"
proof (cases "k = []")
  case False
  let ?f = "\<lambda>k. fold (\<lambda>i mur. mur XOR push_bit (8 * i) (ucast (k ! i))) (rev [0..<length k]) mur"
  have f: "?f k = ?f k'" using assms False by (cases "k' = []") (auto simp: mur_rest_def dest: mult_MUR_PRIME_inj)
  show ?thesis
  proof (rule nth_equalityI [OF assms(1)])
    fix i assume i: "i < length k"
    show "k ! i = k' ! i"
    proof (rule bit_word_eqI)
      fix b assume "b < LENGTH(8)"
      then have b: "b < 8" by simp
      have j: "8 * i + b < 8 * length k" "8 * i + b < 64" "(8 * i + b) div 8 = i" "(8 * i + b) mod 8 = b"
        using i b assms(2) by auto
      have "bit (?f k) (8 * i + b) = bit (?f k') (8 * i + b)" using f by simp
      then show "bit (k ! i) b = bit (k' ! i) b"
        using j assms(1,2) bit_mur_fold [of "length k" "8 * i + b" k mur]
          bit_mur_fold [of "length k'" "8 * i + b" k' mur] by auto
    qed
  qed
qed (use assms in simp)

lemma murmur64_inj:
  assumes "length k = length k'" "length k \<le> 8" "daos_hash_murmur64 k seed = daos_hash_murmur64 k' seed"
  shows "k = k'"
proof (cases "length k = 8")
  case True
  then have "bytes_u64 k = bytes_u64 k'"
    using assms by (auto simp: murmur64_word mur_init_def dest!: mur_final_inj mur_mix_inj)
  then show ?thesis using True assms(1) by (metis u64_bytes_bytes_u64)
next
  case False
  then have "mur_rest (mur_init k seed) k = mur_rest (mur_init k seed) k'"
    using assms by (auto simp: murmur64_short mur_init_def dest!: mur_final_inj)
  then show ?thesis using mur_rest_inj [OF assms(1)] False assms(2) by simp
qed

text \<open>Shifts of a numeral, for evaluation.\<close>

lemma drop_bit_u64: "drop_bit n (w :: u64) = word_of_nat (unat w div 2 ^ n)"
proof -
  have "unat (drop_bit n w) = unat w div 2 ^ n" by (simp only: unat_drop_bit_eq) (simp only: drop_bit_eq_div)
  then have "word_of_nat (unat (drop_bit n w)) = (word_of_nat (unat w div 2 ^ n) :: u64)" by (rule arg_cong)
  moreover have "word_of_nat (unat (drop_bit n w)) = drop_bit n w" by simp
  ultimately show ?thesis by (rule trans [OF sym, rotated])
qed

lemmas mur_eval = mur_init_def mur_rest_def mur_mix_def MUR_PRIME_def MUR_ROTATE_def bytes_u64_def
  push_bit_eq_mult drop_bit_u64

section \<open>Searching the ring\<close>

lemma chash_loop_ok:
  assumes "0 \<le> low" "low \<le> high" "high < int (length hashes)"
    and "low = 0 \<or> hashes ! nat low \<le> v" "high = int (length hashes) - 1 \<or> v < hashes ! nat high"
    and "chash_loop hashes v low high = (low', high')"
  shows "0 \<le> low'" "low' \<le> high'" "high' \<le> low' + 1" "high' < int (length hashes)"
    "low' = 0 \<or> hashes ! nat low' \<le> v" "high' = int (length hashes) - 1 \<or> v < hashes ! nat high'"
  using assms
proof (atomize (full), induction hashes v low high rule: chash_loop.induct)
  case (1 hashes v low high)
  let ?i = "(low + high) div 2"
  show ?case
  proof (cases "high - low > 1")
    case True
    then have i: "low < ?i" "?i < high" by auto
    show ?thesis
      using "1.IH" [OF True refl] "1.prems" i True chash_loop.simps [of hashes v low high]
      by (cases "v \<ge> hashes ! nat ?i") (auto simp: Let_def not_le)
  next
    case False
    then show ?thesis using "1.prems" chash_loop.simps [of hashes v low high] by auto
  qed
qed

text \<open>
  In an ascending ring the search returns the last hash that is not greater than the value, or
  the first hash where all are greater.
\<close>

lemma daos_chash_srch_ok:
  assumes "sorted hashes" "hashes \<noteq> []" "i = daos_chash_srch_u64 hashes v"
  shows "i < length hashes" "\<forall>j < length hashes. i < j \<longrightarrow> v < hashes ! j" "i = 0 \<or> hashes ! i \<le> v"
proof -
  obtain low high where l: "chash_loop hashes v 0 (int (length hashes) - 1) = (low, high)" by force
  note ok = chash_loop_ok [OF _ _ _ _ _ l]
  have b: "0 \<le> low" "low \<le> high" "high \<le> low + 1" "high < int (length hashes)"
    "low = 0 \<or> hashes ! nat low \<le> v" "high = int (length hashes) - 1 \<or> v < hashes ! nat high"
    using ok assms(2) by auto
  have i: "i = (if v \<ge> hashes ! nat high then nat high else nat low)"
    using assms(3) l by (simp add: daos_chash_srch_u64_def)
  have "nat high < length hashes" "nat low < length hashes" using b(1,2,4) by linarith+
  then show "i < length hashes" using i by simp
  show "i = 0 \<or> hashes ! i \<le> v" using i b by auto
  show "\<forall>j < length hashes. i < j \<longrightarrow> v < hashes ! j"
  proof (intro allI impI)
    fix j assume j: "j < length hashes" "i < j"
    show "v < hashes ! j"
    proof (cases "v \<ge> hashes ! nat high")
      case True
      then show ?thesis using i b j by auto
    next
      case False
      then have "nat high \<le> j" using i b j by auto
      then have "hashes ! nat high \<le> hashes ! j" using assms(1) j by (simp add: sorted_nth_mono)
      then show ?thesis using False by simp
    qed
  qed
qed

section \<open>Properties\<close>

text \<open>
  The 64-bit mixer loses no information: distinct inputs have distinct hashes, on all 64-bit
  words and with every shift and addition wrapping around.
\<close>

theorem daos_hash_mix64_injective: "inj daos_hash_mix64"
  by (rule injI) (rule daos_hash_mix64_inj)

text \<open>
  In an ascending hash ring the binary search returns a valid index, the one of the last hash
  not greater than the value, or the first one where every hash is greater.
\<close>

theorem daos_chash_srch_last:
  assumes "sorted hashes" "hashes \<noteq> []"
  shows "let i = daos_chash_srch_u64 hashes v in
    i < length hashes \<and> (\<forall>j. i < j \<and> j < length hashes \<longrightarrow> v < hashes ! j) \<and>
    (hashes ! i \<le> v \<or> i = 0 \<and> (\<forall>h\<in>set hashes. v < h))"
proof -
  note ok = daos_chash_srch_ok [OF assms refl, of v]
  have "v < h" if "daos_chash_srch_u64 hashes v = 0" "v < hashes ! 0" "h \<in> set hashes" for h
    using that ok(2) by (metis gr_zeroI in_set_conv_nth)
  then show ?thesis using ok by (auto simp: Let_def not_le)
qed

end
