(* ===== verification/Btree_Class.thy ===== *)
theory Btree_Class
  imports Btree_Iter Hash "HOL-Library.List_Lexorder"
begin

text \<open>
  The tree classes of \<^verbatim>\<open>src/common/btree_class.c\<close> that the replicated store is built on: KV (byte
  strings to byte strings, ordered by the Murmur hash of the key), IV (64-bit integers to byte
  strings) and EC (epochs to counters). A class interprets the contract \<open>btr_class\<close>, and so each
  of them is a map.

  Keys, values and hashed keys are byte lists. A class without \<^verbatim>\<open>to_hkey_cmp\<close> compares hashed
  keys with \<^verbatim>\<open>memcmp\<close>, which is the lexicographic order of byte lists. An I/O vector is the list
  of its \<^verbatim>\<open>iov_len\<close> bytes; that \<^verbatim>\<open>iov_buf_len\<close> is not smaller is part of this. Memory allocation
  succeeds, and the capacity of a value buffer (\<^verbatim>\<open>kr_value_cap\<close>, \<^verbatim>\<open>ir_value_cap\<close>) is not kept. \<open>'v\<close> is the type of values: byte lists, or what a client keeps in them. The records of KV and IV
  are datatypes with named fields, so that a value may contain a tree.
\<close>

definition memcmp :: "bytes \<Rightarrow> bytes \<Rightarrow> int" where
  "memcmp a b = (if a < b then - 1 else if a = b then 0 else 1)"

section \<open>KV\<close>

datatype 'v kv_rec = Kv_rec (kr_value: 'v) (kr_key: bytes)

definition kv_hkey_gen :: "bytes \<Rightarrow> bytes" where
  "kv_hkey_gen key = u64_bytes (daos_hash_murmur64 key 609815)"

text \<open>The difference of the lengths is a 64-bit integer cut to an \<^verbatim>\<open>int\<close>.\<close>

definition kv_key_cmp :: "'v kv_rec \<Rightarrow> bytes \<Rightarrow> int" where
  "kv_key_cmp r key =
     (let n = min (length (kr_key r)) (length key);
          rc = memcmp (take n (kr_key r)) (take n key)
      in if rc = 0 then sint (word_of_int (int (length (kr_key r)) - int (length key)) :: 32 word) else rc)"

definition kv_rec_alloc :: "bytes \<Rightarrow> 'v \<Rightarrow> 'v kv_rec res" where
  "kv_rec_alloc key val =
     (if length key = 0 then Inl DER_INVAL else Inr (Kv_rec val key))"

definition kv_rec_fetch :: "bytes \<Rightarrow> 'v kv_rec \<Rightarrow> bytes \<times> 'v" where
  "kv_rec_fetch hkey r = (kr_key r, kr_value r)"

definition kv_rec_update :: "'v kv_rec \<Rightarrow> bytes \<Rightarrow> 'v \<Rightarrow> 'v kv_rec res" where
  "kv_rec_update r key val = Inr (Kv_rec val (kr_key r))"

definition dbtree_kv_ops :: "(bytes, 'v, bytes, 'v kv_rec) btr_ops" where
  "dbtree_kv_ops =
     \<lparr>to_hkey_gen = kv_hkey_gen, to_key_cmp = Some kv_key_cmp, to_rec_alloc = kv_rec_alloc,
      to_rec_fetch = kv_rec_fetch, to_rec_update = Some kv_rec_update\<rparr>"

section \<open>IV\<close>

datatype 'v iv_rec = Iv_rec (ir_value: 'v)

definition iv_hkey_gen :: "bytes \<Rightarrow> bytes" where
  "iv_hkey_gen key = take 8 key"

definition iv_rec_alloc :: "bytes \<Rightarrow> 'v \<Rightarrow> 'v iv_rec res" where
  "iv_rec_alloc key val = (if length key \<noteq> 8 then Inl DER_INVAL else Inr (Iv_rec val))"

definition iv_rec_fetch :: "bytes \<Rightarrow> 'v iv_rec \<Rightarrow> bytes \<times> 'v" where
  "iv_rec_fetch hkey r = (hkey, ir_value r)"

definition iv_rec_update :: "'v iv_rec \<Rightarrow> bytes \<Rightarrow> 'v \<Rightarrow> 'v iv_rec res" where
  "iv_rec_update r key val = Inr (Iv_rec val)"

definition dbtree_iv_ops :: "(bytes, 'v, bytes, 'v iv_rec) btr_ops" where
  "dbtree_iv_ops =
     \<lparr>to_hkey_gen = iv_hkey_gen, to_key_cmp = None, to_rec_alloc = iv_rec_alloc,
      to_rec_fetch = iv_rec_fetch, to_rec_update = Some iv_rec_update\<rparr>"

section \<open>EC\<close>

record ec_rec =
  er_counter :: u64

definition ec_hkey_gen :: "bytes \<Rightarrow> bytes" where
  "ec_hkey_gen key = take 8 key"

definition ec_rec_alloc :: "bytes \<Rightarrow> bytes \<Rightarrow> ec_rec res" where
  "ec_rec_alloc key val =
     (if length key \<noteq> 8 \<or> length val = 0 then Inl DER_INVAL else Inr \<lparr>er_counter = bytes_u64 (take 8 val)\<rparr>)"

definition ec_rec_fetch :: "bytes \<Rightarrow> ec_rec \<Rightarrow> bytes \<times> bytes" where
  "ec_rec_fetch hkey r = (hkey, u64_bytes (er_counter r))"

definition ec_rec_update :: "ec_rec \<Rightarrow> bytes \<Rightarrow> bytes \<Rightarrow> ec_rec res" where
  "ec_rec_update r key val =
     (if length val \<noteq> 8 then Inl DER_INVAL else Inr (r\<lparr>er_counter := bytes_u64 val\<rparr>))"

definition dbtree_ec_ops :: "(bytes, bytes, bytes, ec_rec) btr_ops" where
  "dbtree_ec_ops =
     \<lparr>to_hkey_gen = ec_hkey_gen, to_key_cmp = None, to_rec_alloc = ec_rec_alloc,
      to_rec_fetch = ec_rec_fetch, to_rec_update = Some ec_rec_update\<rparr>"

lemmas class_defs =
  dbtree_kv_ops_def kv_rec_alloc_def kv_rec_fetch_def kv_rec_update_def
  dbtree_iv_ops_def iv_hkey_gen_def iv_rec_alloc_def iv_rec_fetch_def iv_rec_update_def
  dbtree_ec_ops_def ec_hkey_gen_def ec_rec_alloc_def ec_rec_fetch_def ec_rec_update_def

section \<open>The classes keep the contract\<close>

definition int_keys :: "bytes set" where
  "int_keys = {k. length k = 8}"

interpretation iv: btr_class dbtree_iv_ops "\<lambda>h r. h" ir_value int_keys UNIV
  by unfold_locales (auto simp: class_defs int_keys_def inj_on_def)

interpretation ec: btr_class dbtree_ec_ops "\<lambda>h r. h" "\<lambda>r. u64_bytes (er_counter r)" int_keys int_keys
  by unfold_locales (auto simp: class_defs int_keys_def inj_on_def u64_bytes_bytes_u64)

text \<open>
  A KV tree is a map as long as no two of its keys have the same Murmur hash; the source says so
  itself (\<^verbatim>\<open>Hash collision is not well handled\<close>).
\<close>

lemma kv_class:
  assumes "inj_on kv_hkey_gen K" "[] \<notin> K"
  shows "btr_class dbtree_kv_ops (\<lambda>h r. kr_key r) kr_value K UNIV"
  using assms by unfold_locales (auto simp: class_defs kv_key_cmp_def memcmp_def)

lemma kv_hkey_short: "length k = length k' \<Longrightarrow> length k \<le> 8 \<Longrightarrow> kv_hkey_gen k = kv_hkey_gen k' \<Longrightarrow> k = k'"
  using murmur64_inj by (metis bytes_u64_u64_bytes kv_hkey_gen_def)

text \<open>
  The keys of a KV tree never collide where they all have the same length of at most eight
  bytes: the Murmur hash is injective on them, so that such a tree is a map without any assumption
  on the keys.
\<close>

theorem kv_hkey_short_injective: "inj_on kv_hkey_gen {k. length k = n \<and> n \<le> 8}"
  by (rule inj_onI) (auto intro: kv_hkey_short)

section \<open>What the classes promise their clients\<close>

text \<open>\<open>K\<close> is the set of keys in use.\<close>

definition kv_inv :: "bytes set \<Rightarrow> (bytes, 'v kv_rec) btr_root \<Rightarrow> bool" where
  "kv_inv K root \<longleftrightarrow> btr_inv root \<and>
     (\<forall>(h, r)\<in>set (btr_recs root). kr_key r \<in> K \<and> kv_hkey_gen (kr_key r) = h)"

definition kv_map :: "bytes set \<Rightarrow> (bytes, 'v kv_rec) btr_root \<Rightarrow> bytes \<Rightarrow> 'v option" where
  "kv_map K root k = (if k \<in> K then map_option kr_value (map_of (btr_recs root) (kv_hkey_gen k)) else None)"

definition iv_inv :: "(bytes, 'v iv_rec) btr_root \<Rightarrow> bool" where
  "iv_inv root \<longleftrightarrow> btr_inv root \<and> (\<forall>(h, r)\<in>set (btr_recs root). length h = 8)"

definition iv_map :: "(bytes, 'v iv_rec) btr_root \<Rightarrow> bytes \<Rightarrow> 'v option" where
  "iv_map root k = (if length k = 8 then map_option ir_value (map_of (btr_recs root) k) else None)"

lemma class_hkeys [simp]:
  "to_hkey_gen dbtree_kv_ops = kv_hkey_gen" "to_hkey_gen dbtree_iv_ops = iv_hkey_gen"
  "to_hkey_gen dbtree_ec_ops = ec_hkey_gen"
  by (simp_all add: class_defs)

lemma mem_int_keys [simp]: "k \<in> int_keys \<longleftrightarrow> length k = 8"
  by (simp add: int_keys_def)

lemma kv_tree:
  assumes "inj_on kv_hkey_gen K" "[] \<notin> K"
  shows "btr_class.tree_inv dbtree_kv_ops (\<lambda>h r. kr_key r) K = kv_inv K"
    "btr_class.tree_map dbtree_kv_ops kr_value K = kv_map K"
  by (auto simp: fun_eq_iff btr_class.tree_inv_def [OF kv_class [OF assms]] kv_inv_def
      btr_class.rec_ok_def [OF kv_class [OF assms]] btr_class.tree_map_def [OF kv_class [OF assms]]
      kv_map_def)

lemma iv_tree: "iv.tree_inv = iv_inv" "iv.tree_map = iv_map"
  by (auto simp: fun_eq_iff iv.tree_inv_def iv_inv_def iv.rec_ok_def iv.tree_map_def iv_map_def
      iv_hkey_gen_def)

lemmas kv_facts = kv_class [THEN btr_class.lookup_ok] kv_class [THEN btr_class.update_ok]
  kv_class [THEN btr_class.delete_ok] kv_class [THEN btr_class.delete_none]

text \<open>
  C12. Storing a value under a key in a KV tree always succeeds, keeps the tree invariant (order,
  balance, node sizes) and changes the contents at that key only, provided the keys in use have
  distinct hashes.
\<close>

theorem kv_update_refines_map:
  assumes "inj_on kv_hkey_gen K" "[] \<notin> K" "kv_inv K root" "k \<in> K"
  shows "\<exists>root'. dbtree_update dbtree_kv_ops root k v = Inr root' \<and> kv_inv K root' \<and>
    kv_map K root' = (kv_map K root)(k \<mapsto> v)"
  using kv_facts(2) [OF assms(1,2), of root k v] assms(3,4) by (auto simp: kv_tree [OF assms(1,2)])

text \<open>
  C13. Deleting a key from a KV tree reports \<^verbatim>\<open>-DER_NONEXIST\<close> exactly when the key is absent;
  otherwise the rebalanced tree keeps the invariant and its contents lose that key only.
\<close>

theorem kv_delete_refines_map:
  assumes "inj_on kv_hkey_gen K" "[] \<notin> K" "kv_inv K root" "k \<in> K"
  shows "case kv_map K root k of
      None \<Rightarrow> dbtree_delete dbtree_kv_ops root k = Inl DER_NONEXIST
    | Some v \<Rightarrow> \<exists>root'. dbtree_delete dbtree_kv_ops root k = Inr root' \<and> kv_inv K root' \<and>
        kv_map K root' = (kv_map K root)(k := None)"
  using kv_facts(3,4) [OF assms(1,2), of root k] assms(3,4)
  by (auto simp: kv_tree [OF assms(1,2)] split: option.splits)

text \<open>
  C14. A lookup in a KV tree returns the value stored under the key, or \<^verbatim>\<open>-DER_NONEXIST\<close>.
\<close>

theorem kv_lookup_refines_map:
  assumes "inj_on kv_hkey_gen K" "[] \<notin> K" "kv_inv K root" "k \<in> K"
  shows "dbtree_lookup dbtree_kv_ops root k =
    (case kv_map K root k of None \<Rightarrow> Inl DER_NONEXIST | Some v \<Rightarrow> Inr v)"
  using kv_facts(1) [OF assms(1,2), of root k] assms(3,4) by (auto simp: kv_tree [OF assms(1,2)])

text \<open>A tree of order 3 with one record, for the concrete instances.\<close>

definition kv_root0 :: "(bytes, nat kv_rec) btr_root" where
  "kv_root0 = \<lparr>tr_order = 3, tr_depth = 1, tr_class = 1, tr_feats = 0,
     tr_node = Some (Leaf [(kv_hkey_gen [7], Kv_rec 5 [7])])\<rparr>"

lemma kv_root0_inv: "kv_inv {[7]} kv_root0" "kv_map {[7]} kv_root0 = [[7] \<mapsto> 5]"
  by (auto simp: kv_root0_def kv_inv_def kv_map_def btr_inv_def btr_recs_def BTR_ORDER_MIN_def fun_eq_iff)

theorem kv_update_witness:
  "\<exists>root'. dbtree_update dbtree_kv_ops kv_root0 [7] 9 = Inr root' \<and> kv_inv {[7]} root' \<and>
    kv_map {[7]} root' = [[7] \<mapsto> 9]"
  using kv_update_refines_map [of "{[7]}" kv_root0 "[7]" 9] kv_root0_inv by simp

theorem kv_delete_witness:
  "\<exists>root'. dbtree_delete dbtree_kv_ops kv_root0 [7] = Inr root' \<and> kv_inv {[7]} root' \<and>
    kv_map {[7]} root' = Map.empty"
  using kv_delete_refines_map [of "{[7]}" kv_root0 "[7]"] kv_root0_inv by simp

theorem kv_lookup_witness: "dbtree_lookup dbtree_kv_ops kv_root0 [7] = Inr 5"
  using kv_lookup_refines_map [of "{[7]}" kv_root0 "[7]"] kv_root0_inv by simp

section \<open>Ranges, iteration, statistics and destruction\<close>

lemma probe_public_cases:
  "btr_probe_is_public opc \<longleftrightarrow>
     opc \<in> {BTR_PROBE_FIRST, BTR_PROBE_LAST, BTR_PROBE_EQ, BTR_PROBE_GE, BTR_PROBE_LE}"
  by (cases opc) (auto simp: btr_probe_is_public_def)

text \<open>
  C15. A fetch from an IV tree with any of the public probe operations (first, last, equal, not
  less, not greater) returns the record that a scan of all records in the order of the tree finds,
  or \<^verbatim>\<open>-DER_NONEXIST\<close>, however the records are spread over the nodes.
\<close>

theorem iv_fetch_finds:
  assumes "iv_inv root" "length k = 8" "btr_probe_is_public opc"
  shows "dbtree_fetch dbtree_iv_ops root opc (Some k) =
    (case probe_spec opc k (btr_recs root) of
       None \<Rightarrow> Inl DER_NONEXIST
     | Some (h, r) \<Rightarrow> Inr (if probe_key opc \<and> h = k then None else Some h, ir_value r))"
  using iv.fetch_ok [of root k opc] assms
  by (simp add: iv_tree iv_hkey_gen_def split: option.split)

text \<open>A tree of order 3 with the integers 256 and 1, for the concrete instances.\<close>

definition iv_root0 :: "(bytes, nat iv_rec) btr_root" where
  "iv_root0 = \<lparr>tr_order = 3, tr_depth = 1, tr_class = 2, tr_feats = 0,
     tr_node = Some (Leaf [([0, 1, 0, 0, 0, 0, 0, 0], Iv_rec 5), ([1, 0, 0, 0, 0, 0, 0, 0], Iv_rec 6)])\<rparr>"

lemma iv_root0_inv: "iv_inv iv_root0"
  by (simp add: iv_root0_def iv_inv_def btr_inv_def btr_recs_def BTR_ORDER_MIN_def)

theorem iv_fetch_witness:
  "dbtree_fetch dbtree_iv_ops iv_root0 BTR_PROBE_GE (Some [0, 2, 0, 0, 0, 0, 0, 0]) =
     Inr (Some [1, 0, 0, 0, 0, 0, 0, 0], 6)"
  using iv_fetch_finds [OF iv_root0_inv, of "[0, 2, 0, 0, 0, 0, 0, 0]" BTR_PROBE_GE]
  by (simp add: iv_root0_def btr_recs_def probe_spec_def probe_public_cases)


text \<open>
  C16. Iterating over a tree ends and calls the callback on every record exactly once, in the order
  of the tree or, backwards, in the opposite order, until the callback stops it or fails; an empty
  tree is no error.
\<close>

theorem dbtree_iterate_visits_all:
  assumes "btr_inv root"
  shows "dbtree_iterate ops root backward cb arg =
    Some (iterate_spec cb (map (fetch_rec ops) (if backward then rev (btr_recs root) else btr_recs root)) arg)"
  using dbtree_iterate_ok [OF assms] .

theorem dbtree_iterate_witness:
  "dbtree_iterate dbtree_iv_ops iv_root0 True (\<lambda>k v arg. (CB_CONTINUE, arg @ [v])) [] = Some (None, [6, 5])"
  using dbtree_iterate_visits_all
    [of iv_root0 dbtree_iv_ops True "\<lambda>k v arg. (CB_CONTINUE, arg @ [v])" "[]"] iv_root0_inv
  by (simp add: iv_inv_def iv_root0_def btr_recs_def class_defs)

text \<open>
  C17. The statistics of a tree count its records, and destroying it passes every record to the
  free function exactly once, in order. Of the nodes, only the inner ones are freed: the number
  falls short of the nodes counted by the number of leaves, which are leaked.
\<close>

theorem dbtree_destroy_leaks_leaves:
  "bs_rec_nr (btr_tree_stat root) = length (btr_recs root) \<and>
   fr_recs (btr_tree_destroy root) = map snd (btr_recs root) \<and>
   fr_nodes (btr_tree_destroy root) + (case tr_node root of None \<Rightarrow> 0 | Some nd \<Rightarrow> leaves nd) =
     bs_node_nr (btr_tree_stat root)"
  using btr_node_stat_nodes [of "the (tr_node root)" "\<lparr>bs_node_nr = 1, bs_rec_nr = 0\<rparr>"]
  by (auto simp: btr_tree_stat_recs btr_tree_destroy_def btr_tree_stat_def btr_recs_def
      btr_node_stat_recs btr_node_destroy_recs btr_node_destroy_nodes split: option.splits)

text \<open>
  The trace array of a tree context is large enough: a tree that keeps the invariant is not
  deeper than \<^verbatim>\<open>BTR_TRACE_MAX\<close> as long as it has fewer than \<open>2\<close> to that power many records.
\<close>

theorem dbtree_trace_fits:
  assumes "btr_inv root" "length (btr_recs root) < 2 ^ BTR_TRACE_MAX"
  shows "tr_depth root \<le> BTR_TRACE_MAX"
  using btr_inv_depth [OF assms] .

end
