(* ===== verification/Rdb_Codec.thy ===== *)
theory Rdb_Codec
  imports Prelude
begin

text \<open>
  The byte formats of the replicated database: I/O vectors (\<^verbatim>\<open>src/rdb/rdb_util.c\<close>) and paths of
  key-value stores (\<^verbatim>\<open>src/rdb/rdb_path.c\<close>). An I/O vector is the list of its bytes; a path has its
  bytes and the size of its buffer.
\<close>

section \<open>I/O vectors\<close>

text \<open>\<^verbatim>\<open>rdb_iov_max\<close>, the largest \<^verbatim>\<open>rdb_iov_size_t\<close>.\<close>

definition rdb_iov_max :: nat where
  "rdb_iov_max = 2 ^ 32 - 1"

definition rdb_encode_iov :: "bytes \<Rightarrow> bytes" where
  "rdb_encode_iov iov =
     u32_bytes (word_of_nat (length iov)) @ iov @ u32_bytes (word_of_nat (length iov))"

text \<open>
  The vector and the number of bytes processed. The comparison of the decoded length with
  \<^verbatim>\<open>rdb_iov_max\<close> never fails for a 32-bit length.
\<close>

definition rdb_decode_iov :: "bytes \<Rightarrow> (bytes \<times> nat) res" where
  "rdb_decode_iov buf =
     (if 4 > length buf then Inl DER_IO
      else (let iov_len = unat (bytes_u32 (take 4 buf)) in
            if iov_len > rdb_iov_max then Inl DER_IO
            else if iov_len \<noteq> 0 \<and> 4 + iov_len > length buf then Inl DER_IO
            else if 4 + iov_len + 4 > length buf then Inl DER_IO
            else if unat (bytes_u32 (take 4 (drop (4 + iov_len) buf))) \<noteq> iov_len then Inl DER_IO
            else Inr (take iov_len (drop 4 buf), 4 + iov_len + 4)))"

text \<open>The last \<open>n\<close> bytes of a buffer that ends at \<^verbatim>\<open>buf_end\<close>.\<close>

definition last_bytes :: "nat \<Rightarrow> bytes \<Rightarrow> bytes" where
  "last_bytes n buf = drop (length buf - n) buf"

definition rdb_decode_iov_backward :: "bytes \<Rightarrow> (bytes \<times> nat) res" where
  "rdb_decode_iov_backward buf =
     (if 4 > length buf then Inl DER_IO
      else (let iov_len = unat (bytes_u32 (last_bytes 4 buf)) in
            if iov_len > rdb_iov_max then Inl DER_IO
            else if iov_len \<noteq> 0 \<and> 4 + iov_len > length buf then Inl DER_IO
            else if 4 + iov_len + 4 > length buf then Inl DER_IO
            else if unat (bytes_u32 (take 4 (last_bytes (4 + iov_len + 4) buf))) \<noteq> iov_len then Inl DER_IO
            else Inr (take iov_len (last_bytes (4 + iov_len) buf), 4 + iov_len + 4)))"

section \<open>Paths\<close>

record rdb_path =
  path_bytes :: bytes
  path_cap :: nat

definition rdb_path_init :: rdb_path where
  "rdb_path_init = \<lparr>path_bytes = [], path_cap = 128\<rparr>"

definition rdb_path_clone :: "rdb_path \<Rightarrow> rdb_path" where
  "rdb_path_clone path = \<lparr>path_bytes = path_bytes path, path_cap = path_cap path\<rparr>"

text \<open>The loop that doubles the buffer size; \<open>None\<close>: \<^verbatim>\<open>-DER_OVERFLOW\<close>.\<close>

partial_function (option) path_grow :: "nat \<Rightarrow> nat \<Rightarrow> nat option option" where
  "path_grow need buf_len =
     (if buf_len = rdb_iov_max then Some None
      else (let buf_len' = min (buf_len * 2) rdb_iov_max in
            if buf_len' < need then path_grow need buf_len' else Some (Some buf_len')))"

definition rdb_path_push :: "rdb_path \<Rightarrow> bytes \<Rightarrow> rdb_path res option" where
  "rdb_path_push path key =
     (let len = length (rdb_encode_iov key);
          need = length (path_bytes path) + len
      in if need > path_cap path
         then (case path_grow need (path_cap path) of
                 None \<Rightarrow> None
               | Some None \<Rightarrow> Some (Inl DER_OVERFLOW)
               | Some (Some buf_len) \<Rightarrow>
                   Some (Inr \<lparr>path_bytes = path_bytes path @ rdb_encode_iov key, path_cap = buf_len\<rparr>))
         else Some (Inr (path\<lparr>path_bytes := path_bytes path @ rdb_encode_iov key\<rparr>)))"

text \<open>Popping a path whose tail does not decode violates an assertion, which is \<open>None\<close>.\<close>

definition rdb_path_pop :: "rdb_path \<Rightarrow> rdb_path res option" where
  "rdb_path_pop path =
     (if path_bytes path = [] then Some (Inl DER_NONEXIST)
      else (case rdb_decode_iov_backward (path_bytes path) of
              Inl e \<Rightarrow> None
            | Inr (key, n) \<Rightarrow>
                Some (Inr (path\<lparr>path_bytes := take (length (path_bytes path) - n) (path_bytes path)\<rparr>))))"

lemma rdb_decode_iov_progress: "rdb_decode_iov buf = Inr (iov, n) \<Longrightarrow> 0 < n \<and> n \<le> length buf"
  by (auto simp: rdb_decode_iov_def Let_def split: if_splits)

text \<open>
  \<^verbatim>\<open>rdb_path_iterate\<close> over the remaining bytes; the callback returns \<open>Inl (Some e)\<close> for an error,
  \<open>Inl None\<close> (the code \<open>1\<close>) to stop, or \<open>Inr\<close> of its new argument.
\<close>

function path_iterate ::
  "(bytes \<Rightarrow> 'a \<Rightarrow> (der option \<times> 'a) + 'a) \<Rightarrow> bytes \<Rightarrow> 'a \<Rightarrow> der option \<times> 'a" where
  "path_iterate cb buf arg =
     (if buf = [] then (None, arg)
      else (case rdb_decode_iov buf of
              Inl e \<Rightarrow> (Some e, arg)
            | Inr (key, n) \<Rightarrow>
               (case cb key arg of
                  Inl (rc, arg') \<Rightarrow> (rc, arg')
                | Inr arg' \<Rightarrow> path_iterate cb (drop n buf) arg')))"
  by pat_completeness auto
termination
  by (relation "measure (\<lambda>(cb, buf, arg). length buf)") (auto dest: rdb_decode_iov_progress)

declare path_iterate.simps [simp del]

definition rdb_path_iterate ::
  "rdb_path \<Rightarrow> (bytes \<Rightarrow> 'a \<Rightarrow> (der option \<times> 'a) + 'a) \<Rightarrow> 'a \<Rightarrow> der option \<times> 'a" where
  "rdb_path_iterate path cb arg = path_iterate cb (path_bytes path) arg"

section \<open>Encoding and decoding\<close>

lemma length_rdb_encode_iov [simp]: "length (rdb_encode_iov iov) = length iov + 8"
  by (simp add: rdb_encode_iov_def)

lemma unat_len: "length iov \<le> rdb_iov_max \<Longrightarrow> unat (word_of_nat (length iov) :: u32) = length iov"
  by (simp add: rdb_iov_max_def unat_of_nat take_bit_nat_eq_self_iff)

lemma decode_encode_append:
  "length iov \<le> rdb_iov_max \<Longrightarrow> rdb_decode_iov (rdb_encode_iov iov @ rest) = Inr (iov, length iov + 8)"
  using unat_len [of iov] by (simp add: rdb_decode_iov_def rdb_encode_iov_def Let_def)

lemma decode_backward_encode:
  "length iov \<le> rdb_iov_max \<Longrightarrow> rdb_decode_iov_backward (pre @ rdb_encode_iov iov) = Inr (iov, length iov + 8)"
  using unat_len [of iov] by (simp add: rdb_decode_iov_backward_def rdb_encode_iov_def Let_def last_bytes_def)

lemma u32_bytes_of_prefix:
  "4 \<le> length buf \<Longrightarrow> u32_bytes (bytes_u32 (take 4 buf)) = take 4 buf"
  by (simp add: u32_bytes_bytes_u32)

lemma decode_sound:
  assumes "rdb_decode_iov buf = Inr (iov, n)"
  shows "take n buf = rdb_encode_iov iov" "length iov \<le> rdb_iov_max" "n = length iov + 8" "n \<le> length buf"
proof -
  define l where "l = unat (bytes_u32 (take 4 buf))"
  have c: "l \<le> rdb_iov_max" "l + 8 \<le> length buf" "unat (bytes_u32 (take 4 (drop (4 + l) buf))) = l"
    "iov = take l (drop 4 buf)" "n = l + 8"
    using assms by (auto simp: rdb_decode_iov_def Let_def l_def split: if_splits)
  have len: "length iov = l" using c(2,4) by simp
  have w: "bytes_u32 (take 4 buf) = word_of_nat l" "bytes_u32 (take 4 (drop (4 + l) buf)) = word_of_nat l"
    using arg_cong [OF c(3), of "word_of_nat :: nat \<Rightarrow> u32"] by (simp_all add: l_def)
  have "take n buf = take 4 buf @ take l (drop 4 buf) @ take 4 (drop (4 + l) buf)"
    using take_add [of 4 "l + 4" buf] take_add [of l 4 "drop 4 buf"] c(5) by (simp add: add.commute)
  then show "take n buf = rdb_encode_iov iov"
    using c(2,4) w u32_bytes_of_prefix [of buf] u32_bytes_of_prefix [of "drop (4 + l) buf"]
    by (simp add: rdb_encode_iov_def len)
  show "length iov \<le> rdb_iov_max" "n = length iov + 8" "n \<le> length buf" using c len by auto
qed

section \<open>Paths represent lists of keys\<close>

definition path_ok :: "bytes list \<Rightarrow> rdb_path \<Rightarrow> bool" where
  "path_ok keys path \<longleftrightarrow>
     path_bytes path = concat (map rdb_encode_iov keys) \<and> (\<forall>k\<in>set keys. length k \<le> rdb_iov_max) \<and>
     length (path_bytes path) \<le> path_cap path \<and> 0 < path_cap path \<and> path_cap path \<le> rdb_iov_max"

lemma path_grow_ok:
  assumes "0 < b" "b \<le> rdb_iov_max" "b < need"
  shows "\<exists>r. path_grow need b = Some r \<and>
    (if need \<le> rdb_iov_max then \<exists>b'. r = Some b' \<and> need \<le> b' \<and> b' \<le> rdb_iov_max else r = None)"
  using assms
proof (induction "rdb_iov_max - b" arbitrary: b rule: less_induct)
  case less
  let ?b = "min (b * 2) rdb_iov_max"
  show ?case
  proof (cases "b = rdb_iov_max")
    case True
    then show ?thesis using less.prems by (subst path_grow.simps) auto
  next
    case False
    then have b: "b < ?b" "?b \<le> rdb_iov_max" using less.prems by (auto simp: min_def)
    show ?thesis
    proof (cases "?b < need")
      case True
      then show ?thesis
        using less.hyps [of ?b] less.prems b False by (subst path_grow.simps) (simp add: Let_def)
    next
      case ge: False
      then show ?thesis using less.prems b False by (subst path_grow.simps) (auto simp: Let_def)
    qed
  qed
qed

lemma rdb_path_init_ok: "path_ok [] rdb_path_init"
  by (simp add: path_ok_def rdb_path_init_def rdb_iov_max_def)

lemma rdb_path_push_ok:
  assumes "path_ok keys path" "length key \<le> rdb_iov_max"
  shows "if length (path_bytes path) + length key + 8 \<le> rdb_iov_max
    then \<exists>path'. rdb_path_push path key = Some (Inr path') \<and> path_ok (keys @ [key]) path'
    else rdb_path_push path key = Some (Inl DER_OVERFLOW)"
proof (cases "length (path_bytes path) + length key + 8 > path_cap path")
  case True
  obtain r where r: "path_grow (length (path_bytes path) + length key + 8) (path_cap path) = Some r"
    "if length (path_bytes path) + length key + 8 \<le> rdb_iov_max
     then \<exists>b'. r = Some b' \<and> length (path_bytes path) + length key + 8 \<le> b' \<and> b' \<le> rdb_iov_max else r = None"
    using path_grow_ok [OF _ _ True] assms(1) by (auto simp: path_ok_def)
  then show ?thesis
    using assms True by (auto simp: rdb_path_push_def path_ok_def Let_def add.assoc)
next
  case False
  then show ?thesis using assms by (auto simp: rdb_path_push_def path_ok_def Let_def)
qed

lemma rdb_path_pop_ok:
  assumes "path_ok keys path"
  shows "if keys = [] then rdb_path_pop path = Some (Inl DER_NONEXIST)
    else \<exists>path'. rdb_path_pop path = Some (Inr path') \<and> path_ok (butlast keys) path'"
proof (cases keys rule: rev_cases)
  case (snoc ks k)
  have len: "length k \<le> rdb_iov_max" using assms snoc by (simp add: path_ok_def)
  have b: "path_bytes path = concat (map rdb_encode_iov ks) @ rdb_encode_iov k"
    using assms snoc by (simp add: path_ok_def)
  then have "path_bytes path \<noteq> []" by (metis append_is_Nil_conv length_0_conv length_rdb_encode_iov add_is_0 zero_neq_numeral)
  then show ?thesis
    using decode_backward_encode [OF len] assms snoc by (auto simp: rdb_path_pop_def path_ok_def b)
qed (use assms in \<open>simp add: rdb_path_pop_def path_ok_def\<close>)

fun iterate_keys :: "(bytes \<Rightarrow> 'a \<Rightarrow> (der option \<times> 'a) + 'a) \<Rightarrow> bytes list \<Rightarrow> 'a \<Rightarrow> der option \<times> 'a" where
  "iterate_keys cb [] arg = (None, arg)"
| "iterate_keys cb (k # ks) arg =
     (case cb k arg of Inl (rc, arg') \<Rightarrow> (rc, arg') | Inr arg' \<Rightarrow> iterate_keys cb ks arg')"

lemma path_iterate_keys:
  "\<forall>k\<in>set keys. length k \<le> rdb_iov_max \<Longrightarrow>
   path_iterate cb (concat (map rdb_encode_iov keys)) arg = iterate_keys cb keys arg"
proof (induction keys arbitrary: arg)
  case (Cons k keys)
  have ne: "rdb_encode_iov k \<noteq> []" by (metis length_rdb_encode_iov list.size(3) add_is_0 zero_neq_numeral)
  have len: "length k + 8 = length (rdb_encode_iov k)" by simp
  show ?case
    using Cons decode_encode_append [of k "concat (map rdb_encode_iov keys)"] ne
    by (subst path_iterate.simps) (simp add: len del: length_rdb_encode_iov split: sum.splits)
qed (simp add: path_iterate.simps)

lemma rdb_path_iterate_ok: "path_ok keys path \<Longrightarrow> rdb_path_iterate path cb arg = iterate_keys cb keys arg"
  by (simp add: rdb_path_iterate_def path_ok_def path_iterate_keys)

section \<open>Properties\<close>

text \<open>
  C21. A key or value of at most \<^verbatim>\<open>rdb_iov_max\<close> bytes that is encoded into a stream is decoded from
  its head whatever follows it and from its tail whatever precedes it, with the number of bytes
  used.
\<close>

theorem rdb_iov_roundtrip:
  assumes "length iov \<le> rdb_iov_max"
  shows "rdb_decode_iov (rdb_encode_iov iov @ rest) = Inr (iov, length (rdb_encode_iov iov)) \<and>
    rdb_decode_iov_backward (pre @ rdb_encode_iov iov) = Inr (iov, length (rdb_encode_iov iov))"
  using decode_encode_append [OF assms] decode_backward_encode [OF assms] by simp

theorem rdb_iov_roundtrip_witness:
  "rdb_decode_iov (rdb_encode_iov [1, 2] @ [9]) = Inr ([1, 2], 10) \<and>
   rdb_decode_iov_backward ([9] @ rdb_encode_iov [1, 2]) = Inr ([1, 2], 10)"
  using rdb_iov_roundtrip [of "[1, 2]" "[9]" "[9]"] by (simp add: rdb_iov_max_def)

text \<open>
  The decoder accepts nothing but encodings and never reads past the buffer: a buffer is
  decoded if and only if it starts with the encoding of a short enough byte string, which is the
  result; every other buffer is \<^verbatim>\<open>-DER_IO\<close>.
\<close>

theorem rdb_decode_iov_exact:
  "(rdb_decode_iov buf = Inr (iov, n) \<longleftrightarrow>
     length iov \<le> rdb_iov_max \<and> n = length iov + 8 \<and> (\<exists>rest. buf = rdb_encode_iov iov @ rest)) \<and>
   (rdb_decode_iov buf = Inl DER_IO \<or> (\<exists>r. rdb_decode_iov buf = Inr r))"
proof
  show "rdb_decode_iov buf = Inr (iov, n) \<longleftrightarrow>
      length iov \<le> rdb_iov_max \<and> n = length iov + 8 \<and> (\<exists>rest. buf = rdb_encode_iov iov @ rest)"
    using decode_encode_append decode_sound [of buf iov n] by (metis append_take_drop_id)
qed (auto simp: rdb_decode_iov_def Let_def)

text \<open>
  C22. A path stands for the list of keys pushed on it: pushing a key appends it or, where the path
  would exceed \<^verbatim>\<open>rdb_iov_max\<close> bytes, reports \<^verbatim>\<open>-DER_OVERFLOW\<close>, and the loop that grows the buffer
  ends; popping takes off the last key; iterating hands out the keys in the order they were pushed.
\<close>

theorem rdb_path_is_key_list:
  assumes "path_ok keys path" "length key \<le> rdb_iov_max"
  shows "(if length (path_bytes path) + length key + 8 \<le> rdb_iov_max
     then \<exists>path'. rdb_path_push path key = Some (Inr path') \<and> path_ok (keys @ [key]) path' \<and>
       (\<exists>path''. rdb_path_pop path' = Some (Inr path'') \<and> path_ok keys path'')
     else rdb_path_push path key = Some (Inl DER_OVERFLOW)) \<and>
    rdb_path_iterate path cb arg = iterate_keys cb keys arg"
  using rdb_path_push_ok [OF assms] rdb_path_pop_ok [of "keys @ [key]"] rdb_path_iterate_ok [OF assms(1)]
  by fastforce

theorem rdb_path_witness:
  "\<exists>path'. rdb_path_push rdb_path_init [7] = Some (Inr path') \<and> path_ok [[7]] path'"
  using rdb_path_is_key_list [OF rdb_path_init_ok, of "[7]" "\<lambda>k arg. Inr arg" "()"]
  by (auto simp: rdb_path_init_def rdb_iov_max_def)

end
