(* ===== verification/Rdb_Tx.thy ===== *)
theory Rdb_Tx
  imports Rdb_Codec
begin

text \<open>
  Building a transaction (\<^verbatim>\<open>src/rdb/rdb_tx.c\<close>): the update operations, their encoding in the entry of
  the Raft log, decoding, and the growth of the entry's buffer.
\<close>

section \<open>Operations\<close>

record rdb_kvs_attr =
  dsa_class :: u32
  dsa_order :: u32

definition RDB_KVS_GENERIC :: u32 where "RDB_KVS_GENERIC = 0"
definition RDB_KVS_INTEGER :: u32 where "RDB_KVS_INTEGER = 1"

definition RDB_TX_CREATE_ROOT :: u8 where "RDB_TX_CREATE_ROOT = 1"
definition RDB_TX_DESTROY_ROOT :: u8 where "RDB_TX_DESTROY_ROOT = 2"
definition RDB_TX_CREATE :: u8 where "RDB_TX_CREATE = 3"
definition RDB_TX_DESTROY :: u8 where "RDB_TX_DESTROY = 4"
definition RDB_TX_UPDATE :: u8 where "RDB_TX_UPDATE = 5"
definition RDB_TX_DELETE :: u8 where "RDB_TX_DELETE = 6"

lemmas opc_defs = RDB_TX_CREATE_ROOT_def RDB_TX_DESTROY_ROOT_def RDB_TX_CREATE_def RDB_TX_DESTROY_def
  RDB_TX_UPDATE_def RDB_TX_DELETE_def

record rdb_tx_op =
  dto_opc :: u8
  dto_kvs :: bytes
  dto_key :: bytes
  dto_value :: bytes
  dto_attr :: "rdb_kvs_attr option"

definition attr_bytes :: "rdb_kvs_attr \<Rightarrow> bytes" where
  "attr_bytes attr = u32_bytes (dsa_class attr) @ u32_bytes (dsa_order attr)"

definition bytes_attr :: "bytes \<Rightarrow> rdb_kvs_attr" where
  "bytes_attr bs = \<lparr>dsa_class = bytes_u32 (take 4 bs), dsa_order = bytes_u32 (take 4 (drop 4 bs))\<rparr>"

definition rdb_tx_op_encode :: "rdb_tx_op \<Rightarrow> bytes" where
  "rdb_tx_op_encode op =
     dto_opc op # rdb_encode_iov (dto_kvs op) @ rdb_encode_iov (dto_key op) @
     (if dto_opc op = RDB_TX_UPDATE then rdb_encode_iov (dto_value op)
      else if dto_opc op = RDB_TX_CREATE_ROOT \<or> dto_opc op = RDB_TX_CREATE
      then attr_bytes (the (dto_attr op))
      else [])"

definition rdb_tx_op_decode :: "bytes \<Rightarrow> (rdb_tx_op \<times> nat) res" where
  "rdb_tx_op_decode buf =
     (if length buf < 1 then Inl DER_IO
      else (let opc = hd buf in
        case rdb_decode_iov (drop 1 buf) of
          Inl e \<Rightarrow> Inl e
        | Inr (kvs, n1) \<Rightarrow>
         (case rdb_decode_iov (drop (1 + n1) buf) of
            Inl e \<Rightarrow> Inl e
          | Inr (key, n2) \<Rightarrow>
             (let p = 1 + n1 + n2;
                  op = \<lparr>dto_opc = opc, dto_kvs = kvs, dto_key = key, dto_value = [], dto_attr = None\<rparr>
              in if opc = RDB_TX_UPDATE
                 then (case rdb_decode_iov (drop p buf) of
                         Inl e \<Rightarrow> Inl e
                       | Inr (val, n3) \<Rightarrow> Inr (op\<lparr>dto_value := val\<rparr>, p + n3))
                 else if opc = RDB_TX_CREATE_ROOT \<or> opc = RDB_TX_CREATE
                 then (if p + 8 > length buf then Inl DER_IO
                       else Inr (op\<lparr>dto_attr := Some (bytes_attr (drop p buf))\<rparr>, p + 8))
                 else Inr (op, p)))))"

section \<open>Appending\<close>

record rdb_tx =
  dt_term :: u64
  dt_entry :: bytes
  dt_entry_cap :: nat

text \<open>
  The state of the Raft library that \<^verbatim>\<open>rdb_tx_leader_check\<close> asks for: whether this replica is the
  leader, and the current term.
\<close>

record raft_view =
  raft_is_leader :: bool
  raft_current_term :: u64

definition rdb_tx_leader_check :: "raft_view \<Rightarrow> rdb_tx \<Rightarrow> der option" where
  "rdb_tx_leader_check raft tx =
     (if \<not> raft_is_leader raft then Some DER_NOTLEADER
      else if dt_term tx \<noteq> raft_current_term raft then Some DER_NOTLEADER
      else None)"

definition rdb_tx_begin :: "raft_view \<Rightarrow> rdb_tx" where
  "rdb_tx_begin raft = \<lparr>dt_term = raft_current_term raft, dt_entry = [], dt_entry_cap = 0\<rparr>"

text \<open>The loop that doubles the capacity of the entry.\<close>

partial_function (option) entry_grow :: "nat \<Rightarrow> nat \<Rightarrow> nat \<Rightarrow> nat option" where
  "entry_grow len entry_len sz =
     (let sz' = (if sz = 0 then 4096 else sz * 2) in
      if len > sz' - entry_len then entry_grow len entry_len sz' else Some sz')"

definition rdb_tx_append :: "raft_view \<Rightarrow> rdb_tx \<Rightarrow> rdb_tx_op \<Rightarrow> rdb_tx res option" where
  "rdb_tx_append raft tx op =
     (if (dto_opc op = RDB_TX_CREATE \<or> dto_opc op = RDB_TX_DESTROY \<or> dto_opc op = RDB_TX_UPDATE \<or>
          dto_opc op = RDB_TX_DELETE) \<and> dto_key op = []
      then Some (Inl DER_INVAL)
      else (case rdb_tx_leader_check raft tx of
              Some e \<Rightarrow> Some (Inl e)
            | None \<Rightarrow>
               (let len = length (rdb_tx_op_encode op);
                    entry = dt_entry tx @ rdb_tx_op_encode op
                in if len > dt_entry_cap tx - length (dt_entry tx)
                   then (case entry_grow len (length (dt_entry tx)) (dt_entry_cap tx) of
                           None \<Rightarrow> None
                         | Some sz \<Rightarrow> Some (Inr (tx\<lparr>dt_entry := entry, dt_entry_cap := sz\<rparr>)))
                   else Some (Inr (tx\<lparr>dt_entry := entry\<rparr>)))))"

definition rdb_tx_create_root :: "raft_view \<Rightarrow> rdb_tx \<Rightarrow> rdb_kvs_attr \<Rightarrow> rdb_tx res option" where
  "rdb_tx_create_root raft tx attr =
     rdb_tx_append raft tx
       \<lparr>dto_opc = RDB_TX_CREATE_ROOT, dto_kvs = [], dto_key = [], dto_value = [], dto_attr = Some attr\<rparr>"

definition rdb_tx_destroy_root :: "raft_view \<Rightarrow> rdb_tx \<Rightarrow> rdb_tx res option" where
  "rdb_tx_destroy_root raft tx =
     rdb_tx_append raft tx
       \<lparr>dto_opc = RDB_TX_DESTROY_ROOT, dto_kvs = [], dto_key = [], dto_value = [], dto_attr = None\<rparr>"

definition rdb_tx_create_kvs ::
  "raft_view \<Rightarrow> rdb_tx \<Rightarrow> rdb_path \<Rightarrow> bytes \<Rightarrow> rdb_kvs_attr \<Rightarrow> rdb_tx res option" where
  "rdb_tx_create_kvs raft tx parent key attr =
     rdb_tx_append raft tx
       \<lparr>dto_opc = RDB_TX_CREATE, dto_kvs = path_bytes parent, dto_key = key, dto_value = [],
        dto_attr = Some attr\<rparr>"

definition rdb_tx_destroy_kvs :: "raft_view \<Rightarrow> rdb_tx \<Rightarrow> rdb_path \<Rightarrow> bytes \<Rightarrow> rdb_tx res option" where
  "rdb_tx_destroy_kvs raft tx parent key =
     rdb_tx_append raft tx
       \<lparr>dto_opc = RDB_TX_DESTROY, dto_kvs = path_bytes parent, dto_key = key, dto_value = [],
        dto_attr = None\<rparr>"

definition rdb_tx_update :: "raft_view \<Rightarrow> rdb_tx \<Rightarrow> rdb_path \<Rightarrow> bytes \<Rightarrow> bytes \<Rightarrow> rdb_tx res option" where
  "rdb_tx_update raft tx kvs key val =
     rdb_tx_append raft tx
       \<lparr>dto_opc = RDB_TX_UPDATE, dto_kvs = path_bytes kvs, dto_key = key, dto_value = val, dto_attr = None\<rparr>"

definition rdb_tx_delete :: "raft_view \<Rightarrow> rdb_tx \<Rightarrow> rdb_path \<Rightarrow> bytes \<Rightarrow> rdb_tx res option" where
  "rdb_tx_delete raft tx kvs key =
     rdb_tx_append raft tx
       \<lparr>dto_opc = RDB_TX_DELETE, dto_kvs = path_bytes kvs, dto_key = key, dto_value = [], dto_attr = None\<rparr>"

section \<open>Decoding an encoded operation\<close>

text \<open>An operation as the update functions build it.\<close>

definition op_ok :: "rdb_tx_op \<Rightarrow> bool" where
  "op_ok op \<longleftrightarrow>
     length (dto_kvs op) \<le> rdb_iov_max \<and> length (dto_key op) \<le> rdb_iov_max \<and>
     length (dto_value op) \<le> rdb_iov_max \<and>
     (dto_opc op \<noteq> RDB_TX_UPDATE \<longrightarrow> dto_value op = []) \<and>
     ((dto_opc op = RDB_TX_CREATE_ROOT \<or> dto_opc op = RDB_TX_CREATE) \<longleftrightarrow> dto_attr op \<noteq> None)"

lemma bytes_attr_attr_bytes: "bytes_attr (attr_bytes attr @ rest) = attr"
  by (simp add: bytes_attr_def attr_bytes_def)

lemma length_attr_bytes [simp]: "length (attr_bytes attr) = 8"
  by (simp add: attr_bytes_def)

lemma drop_two:
  "n = Suc (length a + length b) \<Longrightarrow> drop n (x # a @ b @ r) = r"
  by simp

lemma op_decode_encode:
  assumes "op_ok op"
  shows "rdb_tx_op_decode (rdb_tx_op_encode op @ rest) = Inr (op, length (rdb_tx_op_encode op))"
proof -
  note d = decode_encode_append
  show ?thesis
    using assms d [of "dto_kvs op"] d [of "dto_key op"] d [of "dto_value op"]
    by (cases op) (auto simp: op_ok_def rdb_tx_op_decode_def rdb_tx_op_encode_def Let_def opc_defs
        bytes_attr_attr_bytes drop_two)
qed

section \<open>The buffer grows enough\<close>

lemma entry_grow_ok:
  assumes "entry_len \<le> sz"
  shows "\<exists>sz'. entry_grow len entry_len sz = Some sz' \<and> sz < sz' \<and> len + entry_len \<le> sz'"
  using assms
proof (induction "len + entry_len - sz" arbitrary: sz rule: less_induct)
  case less
  define s where "s = (if sz = 0 then 4096 else sz * 2)"
  have s: "sz < s" by (simp add: s_def)
  have eq: "entry_grow len entry_len sz =
      (if len > s - entry_len then entry_grow len entry_len s else Some s)"
    by (subst entry_grow.simps) (simp add: s_def Let_def)
  show ?case
  proof (cases "len > s - entry_len")
    case True
    have "len + entry_len - s < len + entry_len - sz" using True s less.prems by linarith
    from less.hyps [OF this] s less.prems obtain sz' where
      "entry_grow len entry_len s = Some sz'" "s < sz'" "len + entry_len \<le> sz'" by auto
    then show ?thesis using True s eq by auto
  next
    case False
    then show ?thesis using s eq less.prems by auto
  qed
qed

text \<open>A transaction holds the operations appended to it.\<close>

definition tx_ops :: "rdb_tx_op list \<Rightarrow> rdb_tx \<Rightarrow> bool" where
  "tx_ops ops tx \<longleftrightarrow> dt_entry tx = concat (map rdb_tx_op_encode ops) \<and> (\<forall>op\<in>set ops. op_ok op) \<and>
     length (dt_entry tx) \<le> dt_entry_cap tx"

section \<open>Properties\<close>

text \<open>
  C19. An operation packed into an entry is unpacked to the same operation, whatever follows it in
  the entry, and takes the bytes it was packed into.
\<close>

theorem rdb_tx_op_roundtrip:
  assumes "op_ok op"
  shows "rdb_tx_op_decode (rdb_tx_op_encode op @ rest) = Inr (op, length (rdb_tx_op_encode op))"
  using op_decode_encode [OF assms] .

theorem rdb_tx_op_roundtrip_witness:
  "rdb_tx_op_decode (rdb_tx_op_encode \<lparr>dto_opc = 5, dto_kvs = [], dto_key = [1], dto_value = [2], dto_attr = None\<rparr>) =
     Inr (\<lparr>dto_opc = 5, dto_kvs = [], dto_key = [1], dto_value = [2], dto_attr = None\<rparr>, 27)"
  using rdb_tx_op_roundtrip [of "\<lparr>dto_opc = 5, dto_kvs = [], dto_key = [1], dto_value = [2], dto_attr = None\<rparr>" "[]"]
  by (simp add: op_ok_def opc_defs rdb_iov_max_def rdb_tx_op_encode_def)

lemma rdb_tx_append_ok:
  assumes "tx_ops ops tx" "op_ok op" "rdb_tx_leader_check raft tx = None"
    and "\<not> (dto_opc op \<in> {RDB_TX_CREATE, RDB_TX_DESTROY, RDB_TX_UPDATE, RDB_TX_DELETE} \<and> dto_key op = [])"
  shows "\<exists>tx'. rdb_tx_append raft tx op = Some (Inr tx') \<and> tx_ops (ops @ [op]) tx' \<and> dt_term tx' = dt_term tx"
proof (cases "length (rdb_tx_op_encode op) > dt_entry_cap tx - length (dt_entry tx)")
  case True
  obtain sz where "entry_grow (length (rdb_tx_op_encode op)) (length (dt_entry tx)) (dt_entry_cap tx) = Some sz"
    "length (rdb_tx_op_encode op) + length (dt_entry tx) \<le> sz"
    using entry_grow_ok assms(1) unfolding tx_ops_def by blast
  then show ?thesis using True assms by (auto simp: rdb_tx_append_def tx_ops_def Let_def)
next
  case False
  then show ?thesis using assms by (auto simp: rdb_tx_append_def tx_ops_def Let_def)
qed

text \<open>
  C20. On the leader, appending an operation to a transaction ends (the loop that doubles the
  buffer reaches the size needed), succeeds unless the operation needs a key and has none, keeps
  the earlier operations and the bounds of the buffer; on any other replica, or in a later term, it
  is \<^verbatim>\<open>-DER_NOTLEADER\<close>.
\<close>

theorem rdb_tx_append_extends:
  assumes "tx_ops ops tx" "op_ok op"
  shows "\<exists>r. rdb_tx_append raft tx op = Some r \<and>
    (if dto_opc op \<in> {RDB_TX_CREATE, RDB_TX_DESTROY, RDB_TX_UPDATE, RDB_TX_DELETE} \<and> dto_key op = []
     then r = Inl DER_INVAL
     else if \<not> raft_is_leader raft \<or> dt_term tx \<noteq> raft_current_term raft then r = Inl DER_NOTLEADER
     else \<exists>tx'. r = Inr tx' \<and> tx_ops (ops @ [op]) tx' \<and> dt_term tx' = dt_term tx)"
  using rdb_tx_append_ok [OF assms, of raft]
  by (auto simp: rdb_tx_append_def rdb_tx_leader_check_def)

theorem rdb_tx_append_witness:
  "\<exists>tx'. rdb_tx_append \<lparr>raft_is_leader = True, raft_current_term = 3\<rparr>
       \<lparr>dt_term = 3, dt_entry = [], dt_entry_cap = 0\<rparr>
       \<lparr>dto_opc = 5, dto_kvs = [], dto_key = [1], dto_value = [2], dto_attr = None\<rparr> = Some (Inr tx')"
  using rdb_tx_append_extends
    [of "[]" "\<lparr>dt_term = 3, dt_entry = [], dt_entry_cap = 0\<rparr>"
      "\<lparr>dto_opc = 5, dto_kvs = [], dto_key = [1], dto_value = [2], dto_attr = None\<rparr>"
      "\<lparr>raft_is_leader = True, raft_current_term = 3\<rparr>"]
  by (auto simp: tx_ops_def op_ok_def opc_defs rdb_iov_max_def)

end
