(* ===== verification/Rdb_Store.thy ===== *)
theory Rdb_Store
  imports Rdb_Tx Btree_Class
begin

text \<open>
  The replicated database on one replica: a hierarchy of key-value stores, each a tree whose root
  lies in a value of its parent (\<^verbatim>\<open>src/rdb/rdb_util.c\<close>, \<^verbatim>\<open>src/rdb/rdb_tree.c\<close>), and the application of a
  log entry to it (\<^verbatim>\<open>src/rdb/rdb_tx.c\<close>). Definitions; the proofs are in \<open>Rdb_Apply\<close>.

  The C code works on the trees in place, through handles. Here a handle on a tree is the list of
  keys that leads to it from the attribute tree, and an update of a tree is written back to the
  values it lies in. The cache of open handles (\<^verbatim>\<open>d_trees\<close>) only saves walking a path again, and is
  left out. Memory transactions undo all changes when they abort: an operation that fails leaves
  the database as it was.
\<close>

section \<open>Values and trees\<close>

text \<open>
  A value is a byte string or the root of another tree: order, depth, features and root node of a
  KV or IV tree.
\<close>

datatype rdb_val =
    RVal bytes
  | RKv nat nat u64 "(bytes, rdb_val kv_rec) btr_node option"
  | RIv nat nat u64 "(bytes, rdb_val iv_rec) btr_node option"

text \<open>An opened tree.\<close>

datatype rdb_tree =
    KvTree "(bytes, rdb_val kv_rec) btr_root"
  | IvTree "(bytes, rdb_val iv_rec) btr_root"

definition DBTREE_CLASS_KV :: nat where "DBTREE_CLASS_KV = 23"
definition DBTREE_CLASS_IV :: nat where "DBTREE_CLASS_IV = 24"

definition kv_root :: "nat \<Rightarrow> nat \<Rightarrow> u64 \<Rightarrow> ('h, 'r) btr_node option \<Rightarrow> ('h, 'r) btr_root" where
  "kv_root order depth feats node =
     \<lparr>tr_order = order, tr_depth = depth, tr_class = DBTREE_CLASS_KV, tr_feats = feats, tr_node = node\<rparr>"

definition iv_root :: "nat \<Rightarrow> nat \<Rightarrow> u64 \<Rightarrow> ('h, 'r) btr_node option \<Rightarrow> ('h, 'r) btr_root" where
  "iv_root order depth feats node =
     \<lparr>tr_order = order, tr_depth = depth, tr_class = DBTREE_CLASS_IV, tr_feats = feats, tr_node = node\<rparr>"

fun tree_val :: "rdb_tree \<Rightarrow> rdb_val" where
  "tree_val (KvTree r) = RKv (tr_order r) (tr_depth r) (tr_feats r) (tr_node r)"
| "tree_val (IvTree r) = RIv (tr_order r) (tr_depth r) (tr_feats r) (tr_node r)"

section \<open>Operations on an opened tree\<close>

definition map_res :: "('a \<Rightarrow> 'b) \<Rightarrow> 'a res \<Rightarrow> 'b res" where
  "map_res f r = (case r of Inl e \<Rightarrow> Inl e | Inr x \<Rightarrow> Inr (f x))"

fun kvs_lookup :: "rdb_tree \<Rightarrow> bytes \<Rightarrow> rdb_val res" where
  "kvs_lookup (KvTree r) key = dbtree_lookup dbtree_kv_ops r key"
| "kvs_lookup (IvTree r) key = dbtree_lookup dbtree_iv_ops r key"

fun kvs_update :: "rdb_tree \<Rightarrow> bytes \<Rightarrow> rdb_val \<Rightarrow> rdb_tree res" where
  "kvs_update (KvTree r) key val = map_res KvTree (dbtree_update dbtree_kv_ops r key val)"
| "kvs_update (IvTree r) key val = map_res IvTree (dbtree_update dbtree_iv_ops r key val)"

fun kvs_delete :: "rdb_tree \<Rightarrow> bytes \<Rightarrow> rdb_tree res" where
  "kvs_delete (KvTree r) key = map_res KvTree (dbtree_delete dbtree_kv_ops r key)"
| "kvs_delete (IvTree r) key = map_res IvTree (dbtree_delete dbtree_iv_ops r key)"

fun kvs_fetch :: "rdb_tree \<Rightarrow> btr_probe_opc \<Rightarrow> bytes option \<Rightarrow> (bytes option \<times> rdb_val) res" where
  "kvs_fetch (KvTree r) opc key = dbtree_fetch dbtree_kv_ops r opc key"
| "kvs_fetch (IvTree r) opc key = dbtree_fetch dbtree_iv_ops r opc key"

fun kvs_iterate ::
  "rdb_tree \<Rightarrow> bool \<Rightarrow> (bytes \<Rightarrow> rdb_val \<Rightarrow> 'a \<Rightarrow> cb_rc \<times> 'a) \<Rightarrow> 'a \<Rightarrow> (der option \<times> 'a) option" where
  "kvs_iterate (KvTree r) backward cb arg = dbtree_iterate dbtree_kv_ops r backward cb arg"
| "kvs_iterate (IvTree r) backward cb arg = dbtree_iterate dbtree_iv_ops r backward cb arg"

section \<open>Trees in values\<close>

definition rdb_tree_class :: "u32 \<Rightarrow> nat res" where
  "rdb_tree_class cls =
     (if cls = RDB_KVS_GENERIC then Inr DBTREE_CLASS_KV
      else if cls = RDB_KVS_INTEGER then Inr DBTREE_CLASS_IV
      else Inl DER_IO)"

text \<open>The zeroed root that \<^verbatim>\<open>rdb_create_tree\<close> stores first, as bytes and as a root.\<close>

definition zero_buf :: rdb_val where
  "zero_buf = RVal (replicate 40 0)"

definition zero_root :: "('h, 'r) btr_root" where
  "zero_root = \<lparr>tr_order = 0, tr_depth = 0, tr_class = 0, tr_feats = 0, tr_node = None\<rparr>"

text \<open>A new root of one of the two classes.\<close>

definition create_in :: "btr_registry \<Rightarrow> nat \<Rightarrow> u64 \<Rightarrow> nat \<Rightarrow> rdb_tree res" where
  "create_in reg cls feats order =
     (if cls = DBTREE_CLASS_KV then map_res KvTree (dbtree_create_inplace reg cls feats order zero_root)
      else map_res IvTree (dbtree_create_inplace reg cls feats order zero_root))"

definition rdb_create_tree :: "btr_registry \<Rightarrow> rdb_tree \<Rightarrow> bytes \<Rightarrow> u32 \<Rightarrow> u64 \<Rightarrow> nat \<Rightarrow> rdb_tree res" where
  "rdb_create_tree reg parent key cls feats order =
     (case kvs_update parent key zero_buf of
        Inl e \<Rightarrow> Inl e
      | Inr parent' \<Rightarrow>
         (case kvs_lookup parent' key of
            Inl e \<Rightarrow> Inl e
          | Inr _ \<Rightarrow>
             (case rdb_tree_class cls of
                Inl e \<Rightarrow> Inl e
              | Inr tree_class \<Rightarrow>
                 (case create_in reg tree_class feats order of
                    Inl e \<Rightarrow> Inl e
                  | Inr child \<Rightarrow> kvs_update parent' key (tree_val child)))))"

text \<open>
  Opening a value takes its bytes for a tree root without a check. What comes of it for the bytes
  of an ordinary value is outside the model: the argument \<open>raw\<close>.
\<close>

fun val_tree :: "btr_registry \<Rightarrow> (bytes \<Rightarrow> rdb_tree res) \<Rightarrow> rdb_val \<Rightarrow> rdb_tree res" where
  "val_tree reg raw (RVal bs) = raw bs"
| "val_tree reg raw (RKv order depth feats node) =
     map_res KvTree (dbtree_open_inplace reg (kv_root order depth feats node))"
| "val_tree reg raw (RIv order depth feats node) =
     map_res IvTree (dbtree_open_inplace reg (iv_root order depth feats node))"

definition rdb_open_tree :: "btr_registry \<Rightarrow> (bytes \<Rightarrow> rdb_tree res) \<Rightarrow> rdb_tree \<Rightarrow> bytes \<Rightarrow> rdb_tree res" where
  "rdb_open_tree reg raw parent key =
     (case kvs_lookup parent key of Inl e \<Rightarrow> Inl e | Inr val \<Rightarrow> val_tree reg raw val)"

text \<open>
  \<^verbatim>\<open>rdb_destroy_tree\<close>: the child's nodes and records are freed (\<open>btr_tree_destroy\<close>), which never fails,
  and the value goes.
\<close>

definition rdb_destroy_tree :: "btr_registry \<Rightarrow> (bytes \<Rightarrow> rdb_tree res) \<Rightarrow> rdb_tree \<Rightarrow> bytes \<Rightarrow> rdb_tree res" where
  "rdb_destroy_tree reg raw parent key =
     (case rdb_open_tree reg raw parent key of
        Inl e \<Rightarrow> Inl e
      | Inr child \<Rightarrow> kvs_delete parent key)"

section \<open>Walking a path\<close>

text \<open>\<^verbatim>\<open>"root"\<close>, \<^verbatim>\<open>"applied"\<close>: the string keys include the terminating zero.\<close>

definition rdb_attr_root :: bytes where
  "rdb_attr_root = [0x72, 0x6f, 0x6f, 0x74, 0]"

definition rdb_attr_applied :: bytes where
  "rdb_attr_applied = [0x61, 0x70, 0x70, 0x6c, 0x69, 0x65, 0x64, 0]"

definition rdb_path_root_key :: bytes where
  "rdb_path_root_key = []"

text \<open>
  The argument of \<^verbatim>\<open>rdb_tree_open_path_cb\<close>: the keys walked so far and the tree reached, \<open>None\<close> before
  the first key.
\<close>

definition rdb_tree_open_path_cb ::
  "btr_registry \<Rightarrow> (bytes \<Rightarrow> rdb_tree res) \<Rightarrow> rdb_tree \<Rightarrow> bytes \<Rightarrow> bytes list \<times> rdb_tree option \<Rightarrow>
   (der option \<times> bytes list \<times> rdb_tree option) + bytes list \<times> rdb_tree option" where
  "rdb_tree_open_path_cb reg raw base key arg =
     (let (keys, deo_parent) = arg;
          (parent, key') =
            (case deo_parent of
               None \<Rightarrow> (base, if key = [] then rdb_attr_root else key)
             | Some p \<Rightarrow> (p, key))
      in case rdb_open_tree reg raw parent key' of
           Inl e \<Rightarrow> Inl (Some e, arg)
         | Inr child \<Rightarrow> Inr (keys @ [key'], Some child))"

text \<open>
  The loop that looks for a cached prefix takes keys off until none is left; \<open>None\<close> is a violated
  assertion.
\<close>

lemma rdb_path_pop_shorter:
  "rdb_path_pop p = Some (Inr p') \<Longrightarrow> length (path_bytes p') < length (path_bytes p)"
  by (auto simp: rdb_path_pop_def rdb_decode_iov_backward_def Let_def split: if_splits)

function path_pop_all :: "rdb_path \<Rightarrow> rdb_path option" where
  "path_pop_all p =
     (case rdb_path_pop p of
        None \<Rightarrow> None
      | Some (Inl e) \<Rightarrow> Some p
      | Some (Inr p') \<Rightarrow> if path_bytes p' = [] then Some p' else path_pop_all p')"
  by pat_completeness auto
termination
  by (relation "measure (\<lambda>p. length (path_bytes p))") (auto dest: rdb_path_pop_shorter)

declare path_pop_all.simps [simp del]

definition rdb_tree_lookup ::
  "btr_registry \<Rightarrow> (bytes \<Rightarrow> rdb_tree res) \<Rightarrow> rdb_tree \<Rightarrow> bytes \<Rightarrow> (bytes list \<times> rdb_tree) res option" where
  "rdb_tree_lookup reg raw attr path =
     (if path = [] then None
      else (case path_pop_all \<lparr>path_bytes = path, path_cap = length path\<rparr> of
              None \<Rightarrow> None
            | Some p \<Rightarrow>
               (case path_iterate (rdb_tree_open_path_cb reg raw attr) (drop (length (path_bytes p)) path)
                       ([], None) of
                  (Some e, _) \<Rightarrow> Some (Inl e)
                | (None, keys, None) \<Rightarrow> None
                | (None, keys, Some tree) \<Rightarrow> Some (Inr (keys, tree)))))"

text \<open>Change the tree that the keys lead to, and write it back to the values it lies in.\<close>

fun tree_modify ::
  "btr_registry \<Rightarrow> (bytes \<Rightarrow> rdb_tree res) \<Rightarrow> bytes list \<Rightarrow> (rdb_tree \<Rightarrow> rdb_tree res) \<Rightarrow> rdb_tree \<Rightarrow> rdb_tree res"
where
  "tree_modify reg raw [] f tree = f tree"
| "tree_modify reg raw (k # ks) f tree =
     (case rdb_open_tree reg raw tree k of
        Inl e \<Rightarrow> Inl e
      | Inr child \<Rightarrow>
         (case tree_modify reg raw ks f child of
            Inl e \<Rightarrow> Inl e
          | Inr child' \<Rightarrow> kvs_update tree k (tree_val child')))"

section \<open>Applying an entry\<close>

text \<open>
  The path to a tree about to be destroyed, prepared before the transaction starts; \<open>None\<close> is a
  violated assertion, \<open>Some (Some e)\<close> an error.
\<close>

definition victim_path :: "rdb_tx_op \<Rightarrow> der option option" where
  "victim_path op =
     (if dto_opc op = RDB_TX_DESTROY_ROOT
      then (case rdb_path_push rdb_path_init rdb_path_root_key of
              None \<Rightarrow> None | Some (Inl e) \<Rightarrow> Some (Some e) | Some (Inr _) \<Rightarrow> Some None)
      else if dto_opc op = RDB_TX_DESTROY
      then (case rdb_path_push (rdb_path_clone \<lparr>path_bytes = dto_kvs op, path_cap = length (dto_kvs op)\<rparr>)
                   (dto_key op) of
              None \<Rightarrow> None | Some (Inl e) \<Rightarrow> Some (Some e) | Some (Inr _) \<Rightarrow> Some None)
      else Some None)"

text \<open>The operation on the tree it names.\<close>

definition op_body ::
  "btr_registry \<Rightarrow> (bytes \<Rightarrow> rdb_tree res) \<Rightarrow> rdb_tx_op \<Rightarrow> rdb_tree \<Rightarrow> rdb_tree res" where
  "op_body reg raw op tree =
     (if dto_opc op = RDB_TX_CREATE
      then rdb_create_tree reg tree (dto_key op) (dsa_class (the (dto_attr op))) 0
             (unat (dsa_order (the (dto_attr op))))
      else if dto_opc op = RDB_TX_DESTROY then rdb_destroy_tree reg raw tree (dto_key op)
      else if dto_opc op = RDB_TX_UPDATE then kvs_update tree (dto_key op) (RVal (dto_value op))
      else if dto_opc op = RDB_TX_DELETE then kvs_delete tree (dto_key op)
      else Inl DER_IO)"

definition rdb_tx_apply_op ::
  "btr_registry \<Rightarrow> (bytes \<Rightarrow> rdb_tree res) \<Rightarrow> rdb_tree \<Rightarrow> rdb_tx_op \<Rightarrow> rdb_tree res option" where
  "rdb_tx_apply_op reg raw attr op =
     (let root_op = (dto_opc op = RDB_TX_CREATE_ROOT \<or> dto_opc op = RDB_TX_DESTROY_ROOT) in
      case (if root_op then Some (Inr ([], attr)) else rdb_tree_lookup reg raw attr (dto_kvs op)) of
        None \<Rightarrow> None
      | Some (Inl e) \<Rightarrow> Some (Inl e)
      | Some (Inr (keys, tree)) \<Rightarrow>
         (case victim_path op of
            None \<Rightarrow> None
          | Some (Some e) \<Rightarrow> Some (Inl e)
          | Some None \<Rightarrow>
              Some (if dto_opc op = RDB_TX_CREATE_ROOT
                    then rdb_create_tree reg attr rdb_attr_root (dsa_class (the (dto_attr op))) 0
                           (unat (dsa_order (the (dto_attr op))))
                    else if dto_opc op = RDB_TX_DESTROY_ROOT
                    then rdb_destroy_tree reg raw attr rdb_attr_root
                    else tree_modify reg raw keys (op_body reg raw op) attr)))"

definition rdb_tx_deterministic_error :: "der \<Rightarrow> bool" where
  "rdb_tx_deterministic_error e \<longleftrightarrow>
     e = DER_NONEXIST \<or> e = DER_EXIST \<or> e = DER_INVAL \<or> e = DER_NO_PERM"

text \<open>
  The loop of \<^verbatim>\<open>rdb_tx_apply\<close>. When an operation does not decode, the transaction is aborted with the
  code \<open>DER_IO\<close>, but \<^verbatim>\<open>rc\<close>, if it is not zero, takes precedence in \<^verbatim>\<open>umem_tx_errno\<close>. At the first
  operation \<^verbatim>\<open>rc\<close> has not been assigned: \<open>rc\<close> is its value then (\<open>None\<close>: zero).
\<close>

function apply_ops ::
  "btr_registry \<Rightarrow> (bytes \<Rightarrow> rdb_tree res) \<Rightarrow> der option \<Rightarrow> rdb_tree \<Rightarrow> bytes \<Rightarrow> rdb_tree res option" where
  "apply_ops reg raw rc attr buf =
     (if buf = [] then Some (Inr attr)
      else (case rdb_tx_op_decode buf of
              Inl e \<Rightarrow> Some (Inl (case rc of None \<Rightarrow> e | Some e' \<Rightarrow> e'))
            | Inr (op, n) \<Rightarrow>
               (case rdb_tx_apply_op reg raw attr op of
                  None \<Rightarrow> None
                | Some (Inl e) \<Rightarrow> Some (Inl e)
                | Some (Inr attr') \<Rightarrow> apply_ops reg raw None attr' (drop n buf))))"
  by pat_completeness auto
termination
proof (relation "measure (\<lambda>(reg, raw, rc, attr, buf). length buf)", goal_cases)
  case (2 reg raw rc attr buf x a b)
  then show ?case
    by (auto simp: rdb_tx_op_decode_def Let_def split: if_splits sum.splits)
qed simp

declare apply_ops.simps [simp del]

text \<open>
  \<^verbatim>\<open>rdb_tx_apply\<close>: the database afterwards, and either the error returned or what is stored in
  \<^verbatim>\<open>*result\<close> (\<open>None\<close>: zero).
\<close>

definition rdb_tx_apply ::
  "btr_registry \<Rightarrow> (bytes \<Rightarrow> rdb_tree res) \<Rightarrow> der option \<Rightarrow> rdb_tree \<Rightarrow> u64 \<Rightarrow> bytes \<Rightarrow>
   (rdb_tree \<times> der option res) option" where
  "rdb_tx_apply reg raw rc0 attr index buf =
     (let applied = (\<lambda>t. kvs_update t rdb_attr_applied (RVal (u64_bytes index))) in
      case apply_ops reg raw rc0 attr buf of
        None \<Rightarrow> None
      | Some r \<Rightarrow>
         (case (case r of Inl e \<Rightarrow> Inl e | Inr attr' \<Rightarrow> applied attr') of
            Inr attr' \<Rightarrow> Some (attr', Inr None)
          | Inl e \<Rightarrow>
             if \<not> rdb_tx_deterministic_error e then Some (attr, Inl e)
             else (case applied attr of
                     Inl e' \<Rightarrow> Some (attr, Inl e')
                   | Inr attr' \<Rightarrow> Some (attr', Inr (Some e)))))"

section \<open>Queries\<close>

definition rdb_tx_query_pre ::
  "btr_registry \<Rightarrow> (bytes \<Rightarrow> rdb_tree res) \<Rightarrow> raft_view \<Rightarrow> rdb_tree \<Rightarrow> rdb_tx \<Rightarrow> bytes \<Rightarrow> rdb_tree res option" where
  "rdb_tx_query_pre reg raw raft attr tx path =
     (case rdb_tx_leader_check raft tx of
        Some e \<Rightarrow> Some (Inl e)
      | None \<Rightarrow> map_option (map_res snd) (rdb_tree_lookup reg raw attr path))"

definition rdb_tx_lookup ::
  "btr_registry \<Rightarrow> (bytes \<Rightarrow> rdb_tree res) \<Rightarrow> raft_view \<Rightarrow> rdb_tree \<Rightarrow> rdb_tx \<Rightarrow> bytes \<Rightarrow> bytes \<Rightarrow> rdb_val res option"
where
  "rdb_tx_lookup reg raw raft attr tx kvs key =
     (case rdb_tx_query_pre reg raw raft attr tx kvs of
        None \<Rightarrow> None | Some (Inl e) \<Rightarrow> Some (Inl e) | Some (Inr tree) \<Rightarrow> Some (kvs_lookup tree key))"

definition rdb_tx_fetch ::
  "btr_registry \<Rightarrow> (bytes \<Rightarrow> rdb_tree res) \<Rightarrow> raft_view \<Rightarrow> rdb_tree \<Rightarrow> rdb_tx \<Rightarrow> bytes \<Rightarrow> btr_probe_opc \<Rightarrow>
   bytes option \<Rightarrow> (bytes option \<times> rdb_val) res option" where
  "rdb_tx_fetch reg raw raft attr tx kvs opc key_in =
     (case rdb_tx_query_pre reg raw raft attr tx kvs of
        None \<Rightarrow> None | Some (Inl e) \<Rightarrow> Some (Inl e) | Some (Inr tree) \<Rightarrow> Some (kvs_fetch tree opc key_in))"

definition rdb_tx_iterate ::
  "btr_registry \<Rightarrow> (bytes \<Rightarrow> rdb_tree res) \<Rightarrow> raft_view \<Rightarrow> rdb_tree \<Rightarrow> rdb_tx \<Rightarrow> bytes \<Rightarrow> bool \<Rightarrow>
   (bytes \<Rightarrow> rdb_val \<Rightarrow> 'a \<Rightarrow> cb_rc \<times> 'a) \<Rightarrow> 'a \<Rightarrow> (der option \<times> 'a) option" where
  "rdb_tx_iterate reg raw raft attr tx kvs backward cb arg =
     (case rdb_tx_query_pre reg raw raft attr tx kvs of
        None \<Rightarrow> None
      | Some (Inl e) \<Rightarrow> Some (Some e, arg)
      | Some (Inr tree) \<Rightarrow> kvs_iterate tree backward cb arg)"

end
