(* ===== verification/Rdb_Apply.thy ===== *)
theory Rdb_Apply
  imports Rdb_Store
begin

text \<open>
  What the replicated database promises: a hierarchy of maps. Every operation of a log entry is an
  operation on nested maps, an entry is applied as a whole or not at all, and a query at a path
  returns what the last update at that path stored.
\<close>

section \<open>Key-value stores\<close>

text \<open>
  The contract of an opened store: a map on the keys of its class, kept by all operations.
\<close>

locale kvs_laws =
  fixes lookup :: "'t \<Rightarrow> 'k \<Rightarrow> 'v res"
    and update :: "'t \<Rightarrow> 'k \<Rightarrow> 'v \<Rightarrow> 't res"
    and delete :: "'t \<Rightarrow> 'k \<Rightarrow> 't res"
    and inv :: "'t \<Rightarrow> bool"
    and cls :: "'t \<Rightarrow> 'c"
    and keys :: "'c \<Rightarrow> 'k set"
    and mp :: "'t \<Rightarrow> 'k \<Rightarrow> 'v option"
    and vok :: "'v \<Rightarrow> bool"
  assumes lookup: "inv t \<Longrightarrow> k \<in> keys (cls t) \<Longrightarrow>
      lookup t k = (case mp t k of None \<Rightarrow> Inl DER_NONEXIST | Some v \<Rightarrow> Inr v)"
    and update: "inv t \<Longrightarrow> k \<in> keys (cls t) \<Longrightarrow> vok v \<Longrightarrow>
      \<exists>t'. update t k v = Inr t' \<and> inv t' \<and> cls t' = cls t \<and> mp t' = (mp t)(k \<mapsto> v)"
    and delete_none: "inv t \<Longrightarrow> k \<in> keys (cls t) \<Longrightarrow> mp t k = None \<Longrightarrow> delete t k = Inl DER_NONEXIST"
    and delete: "inv t \<Longrightarrow> k \<in> keys (cls t) \<Longrightarrow> mp t k \<noteq> None \<Longrightarrow>
      \<exists>t'. delete t k = Inr t' \<and> inv t' \<and> cls t' = cls t \<and> mp t' = (mp t)(k := None)"
    and vals: "inv t \<Longrightarrow> mp t k = Some v \<Longrightarrow> vok v"
begin

lemma update_lookup:
  assumes "inv t" "k \<in> keys (cls t)" "vok v" "update t k v = Inr t'" "k' \<in> keys (cls t)"
  shows "lookup t' k' = (if k' = k then Inr v else lookup t k')"
  using update [OF assms(1-3)] lookup [OF assms(1,5)] lookup [of t' k'] assms(4,5) by auto

lemma delete_lookup:
  assumes "inv t" "k \<in> keys (cls t)" "delete t k = Inr t'" "k' \<in> keys (cls t)"
  shows "lookup t' k' = (if k' = k then Inl DER_NONEXIST else lookup t k')"
proof -
  have "mp t k \<noteq> None" using delete_none [OF assms(1,2)] assms(3) by auto
  from delete [OF assms(1,2) this] show ?thesis
    using lookup [OF assms(1,4)] lookup [of t' k'] assms(3,4) by auto
qed

end

datatype kvs_class = GENERIC | INTEGER

fun tree_cls :: "rdb_tree \<Rightarrow> kvs_class" where
  "tree_cls (KvTree r) = GENERIC"
| "tree_cls (IvTree r) = INTEGER"

text \<open>\<open>K\<close> is the set of byte-string keys in use.\<close>

fun class_keys :: "bytes set \<Rightarrow> kvs_class \<Rightarrow> bytes set" where
  "class_keys K GENERIC = K"
| "class_keys K INTEGER = {k. length k = 8}"

definition good_keys :: "bytes set \<Rightarrow> bool" where
  "good_keys K \<longleftrightarrow> inj_on kv_hkey_gen K \<and> [] \<notin> K \<and> rdb_attr_root \<in> K \<and> rdb_attr_applied \<in> K"

fun kvs_map :: "bytes set \<Rightarrow> rdb_tree \<Rightarrow> bytes \<Rightarrow> rdb_val option" where
  "kvs_map K (KvTree r) = kv_map K r"
| "kvs_map K (IvTree r) = iv_map r"

text \<open>A value whose trees, at every level, keep the invariant of their class.\<close>

inductive val_ok :: "bytes set \<Rightarrow> rdb_val \<Rightarrow> bool" for K where
  val_ok_bytes: "val_ok K (RVal bs)"
| val_ok_kv: "val_ok K (RKv order depth 0 node)"
    if "kv_inv K (kv_root order depth 0 node)"
      and "\<And>h r. (h, r) \<in> set (btr_recs (kv_root order depth 0 node)) \<Longrightarrow> val_ok K (kr_value r)"
| val_ok_iv: "val_ok K (RIv order depth 0 node)"
    if "iv_inv (iv_root order depth 0 node)"
      and "\<And>h r. (h, r) \<in> set (btr_recs (iv_root order depth 0 node)) \<Longrightarrow> val_ok K (ir_value r)"

inductive_cases val_ok_kvE: "val_ok K (RKv order depth feats node)"
inductive_cases val_ok_ivE: "val_ok K (RIv order depth feats node)"

fun class_ok :: "rdb_tree \<Rightarrow> bool" where
  "class_ok (KvTree r) \<longleftrightarrow> tr_class r = DBTREE_CLASS_KV"
| "class_ok (IvTree r) \<longleftrightarrow> tr_class r = DBTREE_CLASS_IV"

definition tree_ok :: "bytes set \<Rightarrow> rdb_tree \<Rightarrow> bool" where
  "tree_ok K t \<longleftrightarrow> good_keys K \<and> class_ok t \<and> val_ok K (tree_val t)"

lemma tree_ok_val: "tree_ok K t \<Longrightarrow> val_ok K (tree_val t)"
  by (simp add: tree_ok_def)

lemma tree_ok_Kv:
  "tree_ok K (KvTree r) \<longleftrightarrow> good_keys K \<and> tr_class r = DBTREE_CLASS_KV \<and> tr_feats r = 0 \<and> kv_inv K r \<and>
     (\<forall>x\<in>set (btr_recs r). val_ok K (kr_value (snd x)))"
proof -
  have "tr_class r = DBTREE_CLASS_KV \<Longrightarrow> tr_feats r = 0 \<Longrightarrow> kv_root (tr_order r) (tr_depth r) 0 (tr_node r) = r"
    by (simp add: kv_root_def)
  then show ?thesis
    by (auto simp: tree_ok_def intro!: val_ok_kv elim!: val_ok_kvE) (metis snd_conv)
qed

lemma tree_ok_Iv:
  "tree_ok K (IvTree r) \<longleftrightarrow> good_keys K \<and> tr_class r = DBTREE_CLASS_IV \<and> tr_feats r = 0 \<and> iv_inv r \<and>
     (\<forall>x\<in>set (btr_recs r). val_ok K (ir_value (snd x)))"
proof -
  have "tr_class r = DBTREE_CLASS_IV \<Longrightarrow> tr_feats r = 0 \<Longrightarrow> iv_root (tr_order r) (tr_depth r) 0 (tr_node r) = r"
    by (simp add: iv_root_def)
  then show ?thesis
    by (auto simp: tree_ok_def intro!: val_ok_iv elim!: val_ok_ivE) (metis snd_conv)
qed

text \<open>The records of a tree hold the values of its map.\<close>

lemma kv_vals:
  assumes "inj_on kv_hkey_gen K" "kv_inv K r"
  shows "(\<forall>x\<in>set (btr_recs r). P (kr_value (snd x))) \<longleftrightarrow> (\<forall>k v. kv_map K r k = Some v \<longrightarrow> P v)"
proof -
  have d: "distinct (map fst (btr_recs r))"
    using assms(2) btr_inv_sorted by (auto simp: kv_inv_def strict_sorted_iff)
  have "kv_map K r (kr_key x) = Some (kr_value x)" if "(h, x) \<in> set (btr_recs r)" for h x
    using that assms(2) d by (auto simp: kv_map_def kv_inv_def)
  moreover have "\<exists>h x. (h, x) \<in> set (btr_recs r) \<and> kr_value x = v" if "kv_map K r k = Some v" for k v
    using that by (auto simp: kv_map_def split: if_splits dest: map_of_SomeD)
  ultimately show ?thesis by (metis prod.collapse snd_conv)
qed

lemma iv_vals:
  assumes "iv_inv r"
  shows "(\<forall>x\<in>set (btr_recs r). P (ir_value (snd x))) \<longleftrightarrow> (\<forall>k v. iv_map r k = Some v \<longrightarrow> P v)"
proof -
  have d: "distinct (map fst (btr_recs r))"
    using assms btr_inv_sorted by (auto simp: iv_inv_def strict_sorted_iff)
  have "iv_map r h = Some (ir_value x)" if "(h, x) \<in> set (btr_recs r)" for h x
    using that assms d by (auto simp: iv_map_def iv_inv_def)
  moreover have "\<exists>h x. (h, x) \<in> set (btr_recs r) \<and> ir_value x = v" if "iv_map r k = Some v" for k v
    using that by (auto simp: iv_map_def split: if_splits dest: map_of_SomeD)
  ultimately show ?thesis by (metis prod.collapse snd_conv)
qed

lemma tree_ok_cases:
  "tree_ok K (KvTree r) \<longleftrightarrow> good_keys K \<and> tr_class r = DBTREE_CLASS_KV \<and> tr_feats r = 0 \<and> kv_inv K r \<and>
     (\<forall>k v. kv_map K r k = Some v \<longrightarrow> val_ok K v)"
  "tree_ok K (IvTree s) \<longleftrightarrow> good_keys K \<and> tr_class s = DBTREE_CLASS_IV \<and> tr_feats s = 0 \<and> iv_inv s \<and>
     (\<forall>k v. iv_map s k = Some v \<longrightarrow> val_ok K v)"
  using kv_vals [of K r "val_ok K"] iv_vals [of s "val_ok K"]
  by (simp_all add: tree_ok_Kv tree_ok_Iv good_keys_def conj_ac cong: conj_cong)

lemma kvs_lookup_ok:
  assumes "tree_ok K t" "k \<in> class_keys K (tree_cls t)"
  shows "kvs_lookup t k = (case kvs_map K t k of None \<Rightarrow> Inl DER_NONEXIST | Some v \<Rightarrow> Inr v)"
  using assms kv_facts(1) [of K _ k] iv.lookup_ok [of _ k]
  by (cases t) (auto simp: tree_ok_cases good_keys_def kv_tree iv_tree)

lemma kvs_update_ok:
  assumes "tree_ok K t" "k \<in> class_keys K (tree_cls t)" "val_ok K v"
  shows "\<exists>t'. kvs_update t k v = Inr t' \<and> tree_ok K t' \<and> tree_cls t' = tree_cls t \<and>
    kvs_map K t' = (kvs_map K t)(k \<mapsto> v)"
proof (cases t)
  case (KvTree r)
  have K: "inj_on kv_hkey_gen K" "[] \<notin> K" using assms(1) by (auto simp: tree_ok_def good_keys_def)
  have r: "btr_class.tree_inv dbtree_kv_ops (\<lambda>h r. kr_key r) K r" "k \<in> K"
    using assms KvTree by (auto simp: kv_tree [OF K] tree_ok_cases)
  from kv_facts(2) [OF K r, of v] assms KvTree show ?thesis
    by (auto simp: kv_tree [OF K] tree_ok_cases map_res_def)
next
  case (IvTree r)
  have r: "iv.tree_inv r" "k \<in> int_keys" using assms IvTree by (auto simp: iv_tree tree_ok_cases)
  from iv.update_ok [OF r, of v] assms IvTree show ?thesis
    by (auto simp: iv_tree tree_ok_cases map_res_def)
qed

lemma kvs_delete_none:
  assumes "tree_ok K t" "k \<in> class_keys K (tree_cls t)" "kvs_map K t k = None"
  shows "kvs_delete t k = Inl DER_NONEXIST"
proof (cases t)
  case (KvTree r)
  have K: "inj_on kv_hkey_gen K" "[] \<notin> K" using assms(1) by (auto simp: tree_ok_def good_keys_def)
  from kv_facts(4) [OF K, of r k] assms KvTree show ?thesis
    by (auto simp: kv_tree [OF K] tree_ok_cases map_res_def)
next
  case (IvTree r)
  from iv.delete_none [of r k] assms IvTree show ?thesis
    by (auto simp: iv_tree tree_ok_cases map_res_def)
qed

lemma kvs_delete_ok:
  assumes "tree_ok K t" "k \<in> class_keys K (tree_cls t)" "kvs_map K t k \<noteq> None"
  shows "\<exists>t'. kvs_delete t k = Inr t' \<and> tree_ok K t' \<and> tree_cls t' = tree_cls t \<and>
    kvs_map K t' = (kvs_map K t)(k := None)"
proof (cases t)
  case (KvTree r)
  have K: "inj_on kv_hkey_gen K" "[] \<notin> K" using assms(1) by (auto simp: tree_ok_def good_keys_def)
  have r: "btr_class.tree_inv dbtree_kv_ops (\<lambda>h r. kr_key r) K r" "k \<in> K"
    "btr_class.tree_map dbtree_kv_ops kr_value K r k \<noteq> None"
    using assms KvTree by (auto simp: kv_tree [OF K] tree_ok_cases)
  from kv_facts(3) [OF K r] assms KvTree show ?thesis
    by (auto simp: kv_tree [OF K] tree_ok_cases map_res_def)
next
  case (IvTree r)
  have r: "iv.tree_inv r" "k \<in> int_keys" "iv.tree_map r k \<noteq> None"
    using assms IvTree by (auto simp: iv_tree tree_ok_cases)
  from iv.delete_ok [OF r] assms IvTree show ?thesis
    by (auto simp: iv_tree tree_ok_cases map_res_def)
qed

lemma kvs_map_val_ok: "tree_ok K t \<Longrightarrow> kvs_map K t k = Some v \<Longrightarrow> val_ok K v"
  by (cases t) (auto simp: tree_ok_cases)

interpretation ks: kvs_laws kvs_lookup kvs_update kvs_delete "tree_ok K" tree_cls "class_keys K" "kvs_map K" "val_ok K"
  for K
  by unfold_locales (fact kvs_lookup_ok kvs_update_ok kvs_delete_none kvs_delete_ok kvs_map_val_ok)+

section \<open>Nested maps\<close>

datatype kval = KBytes bytes | KMap kvs_class "bytes \<Rightarrow> kval option"

definition node_recs :: "('h, 'r) btr_node option \<Rightarrow> ('h \<times> 'r) list" where
  "node_recs node = (case node of None \<Rightarrow> [] | Some nd \<Rightarrow> inorder nd)"

definition kv_node_map :: "bytes set \<Rightarrow> (bytes, 'v kv_rec) btr_node option \<Rightarrow> bytes \<Rightarrow> 'v option" where
  "kv_node_map K node k = (if k \<in> K then map_option kr_value (map_of (node_recs node) (kv_hkey_gen k)) else None)"

definition iv_node_map :: "(bytes, 'v iv_rec) btr_node option \<Rightarrow> bytes \<Rightarrow> 'v option" where
  "iv_node_map node k = (if length k = 8 then map_option ir_value (map_of (node_recs node) k) else None)"

text \<open>The nested map that a value stands for.\<close>

primrec aval :: "bytes set \<Rightarrow> rdb_val \<Rightarrow> kval" where
  "aval K (RVal bs) = KBytes bs"
| "aval K (RKv order depth feats node) =
     KMap GENERIC (kv_node_map K (map_option (map_btr_node id (map_kv_rec (aval K))) node))"
| "aval K (RIv order depth feats node) =
     KMap INTEGER (iv_node_map (map_option (map_btr_node id (map_iv_rec (aval K))) node))"

definition atree :: "bytes set \<Rightarrow> rdb_tree \<Rightarrow> kval" where
  "atree K t = KMap (tree_cls t) (\<lambda>k. map_option (aval K) (kvs_map K t k))"

lemma inorder_map: "inorder (map_btr_node id f nd) = map (map_prod id f) (inorder nd)"
proof (induction nd)
  case (Node child recs)
  have "inorder (map_btr_node id f (snd x)) = map (map_prod id f) (inorder (snd x))" if "x \<in> set recs" for x
    using Node.IH(2) [of x "snd x"] that by (auto simp: snds.simps id_def)
  then show ?case
    using Node.IH(1) by (auto simp: inorder_Node map_concat comp_def id_def simp del: elems_Node intro!: arg_cong [where f = concat])
qed (simp add: map_prod_def del: map_map)

lemma node_recs_map: "node_recs (map_option (map_btr_node id f) node) = map (map_prod id f) (node_recs node)"
  by (cases node) (auto simp: node_recs_def inorder_map)

lemma map_of_map_prod: "map_of (map (map_prod id f) xs) k = map_option f (map_of xs k)"
  by (induction xs) auto

lemma btr_recs_node: "btr_recs root = node_recs (tr_node root)"
  by (simp add: btr_recs_def node_recs_def)

lemma aval_tree_val: "aval K (tree_val t) = atree K t"
  by (cases t) (auto simp: atree_def fun_eq_iff kv_node_map_def iv_node_map_def kv_map_def iv_map_def btr_recs_node
      node_recs_map map_of_map_prod option.map_comp comp_def kv_rec.map_sel iv_rec.map_sel)

section \<open>Opening and creating\<close>

definition reg_ok :: "btr_registry \<Rightarrow> bool" where
  "reg_ok reg \<longleftrightarrow> reg DBTREE_CLASS_KV \<noteq> None \<and> reg DBTREE_CLASS_IV \<noteq> None"

lemmas class_nums = DBTREE_CLASS_KV_def DBTREE_CLASS_IV_def BTR_TYPE_MAX_def

lemma class_init_ok:
  "reg_ok reg \<Longrightarrow> btr_class_init reg (Some r) c f = Inr ()"
  if "tr_class r \<in> {DBTREE_CLASS_KV, DBTREE_CLASS_IV}" "tr_feats r = 0"
  using that by (auto simp: btr_class_init_def reg_ok_def class_nums)

lemma val_tree_val: "tree_ok K t \<Longrightarrow> reg_ok reg \<Longrightarrow> val_tree reg raw (tree_val t) = Inr t"
  by (cases t) (auto simp: tree_ok_cases dbtree_open_inplace_def class_init_ok kv_root_def iv_root_def map_res_def
      class_nums)

text \<open>A value is a byte string or the value of a tree.\<close>

lemma val_ok_tree:
  assumes "val_ok K v" "good_keys K"
  obtains bs where "v = RVal bs" | t where "v = tree_val t" "tree_ok K t"
  using assms(1)
proof cases
  case (val_ok_kv order depth node)
  then show ?thesis
    using assms that(2) [of "KvTree (kv_root order depth 0 node)"] by (simp add: kv_root_def tree_ok_def)
next
  case (val_ok_iv order depth node)
  then show ?thesis
    using assms that(2) [of "IvTree (iv_root order depth 0 node)"] by (simp add: iv_root_def tree_ok_def)
qed (use that in simp)

text \<open>Opening the child under a key, in terms of the nested map; \<open>None\<close>: the value is no tree.\<close>

fun aopen :: "bytes set \<Rightarrow> kval \<Rightarrow> bytes \<Rightarrow> kval res option" where
  "aopen K (KMap c m) k =
     (if k \<notin> class_keys K c then None
      else (case m k of
              None \<Rightarrow> Some (Inl DER_NONEXIST)
            | Some (KBytes bs) \<Rightarrow> None
            | Some (KMap c' m') \<Rightarrow> Some (Inr (KMap c' m'))))"
| "aopen K (KBytes bs) k = None"

lemma atree_aval: "aval K v = KMap c m \<Longrightarrow> val_ok K v \<Longrightarrow> good_keys K \<Longrightarrow> \<exists>t. v = tree_val t \<and> tree_ok K t"
  by (erule val_ok_tree) auto

lemma rdb_open_tree_ok:
  assumes "tree_ok K t" "reg_ok reg" "aopen K (atree K t) k = Some r"
  shows "case r of Inl e \<Rightarrow> rdb_open_tree reg raw t k = Inl e
    | Inr a \<Rightarrow> \<exists>t'. rdb_open_tree reg raw t k = Inr t' \<and> tree_ok K t' \<and> atree K t' = a \<and> kvs_map K t k = Some (tree_val t')"
proof -
  have k: "k \<in> class_keys K (tree_cls t)" using assms(3) by (auto simp: atree_def split: if_splits)
  note l = kvs_lookup_ok [OF assms(1) k]
  show ?thesis
  proof (cases "kvs_map K t k")
    case None
    then show ?thesis using assms(3) l k by (auto simp: atree_def rdb_open_tree_def)
  next
    case (Some v)
    have "val_ok K v" "good_keys K" using kvs_map_val_ok [OF assms(1) Some] assms(1) by (auto simp: tree_ok_def)
    then show ?thesis
    proof (cases rule: val_ok_tree)
      case (1 bs)
      then show ?thesis using assms(3) k Some by (simp add: atree_def)
    next
      case (2 t')
      have "r = Inr (atree K t')" using assms(3) k Some 2(1) by (simp add: atree_def aval_tree_val)
      then show ?thesis using 2 Some l val_tree_val [OF 2(2) assms(2)] by (simp add: rdb_open_tree_def)
    qed
  qed
qed

text \<open>The nested map with another value under a key.\<close>

fun aput :: "bytes \<Rightarrow> kval \<Rightarrow> kval \<Rightarrow> kval" where
  "aput k v (KMap c m) = KMap c (m(k \<mapsto> v))"
| "aput k v (KBytes bs) = KBytes bs"

fun adel :: "bytes \<Rightarrow> kval \<Rightarrow> kval" where
  "adel k (KMap c m) = KMap c (m(k := None))"
| "adel k (KBytes bs) = KBytes bs"

lemma kvs_update_abs:
  assumes "tree_ok K t" "k \<in> class_keys K (tree_cls t)" "val_ok K v"
  shows "\<exists>t'. kvs_update t k v = Inr t' \<and> tree_ok K t' \<and> atree K t' = aput k (aval K v) (atree K t)"
  using kvs_update_ok [OF assms] by (auto simp: atree_def fun_eq_iff)

lemma kvs_delete_abs:
  assumes "tree_ok K t" "k \<in> class_keys K (tree_cls t)" "kvs_map K t k \<noteq> None"
  shows "\<exists>t'. kvs_delete t k = Inr t' \<and> tree_ok K t' \<and> atree K t' = adel k (atree K t)"
  using kvs_delete_ok [OF assms] by (auto simp: atree_def fun_eq_iff)

text \<open>The class and order of a new store.\<close>

definition aclass :: "u32 \<Rightarrow> nat \<Rightarrow> kvs_class res" where
  "aclass cls order =
     (if cls \<noteq> RDB_KVS_GENERIC \<and> cls \<noteq> RDB_KVS_INTEGER then Inl DER_IO
      else if order < BTR_ORDER_MIN \<or> order > BTR_ORDER_MAX then Inl DER_INVAL
      else Inr (if cls = RDB_KVS_GENERIC then GENERIC else INTEGER))"

lemma create_in_ok:
  assumes "good_keys K" "reg_ok reg"
  shows "case aclass cls order of
      Inl e \<Rightarrow> (case rdb_tree_class cls of Inl e' \<Rightarrow> e' = e | Inr tc \<Rightarrow> create_in reg tc 0 order = Inl e)
    | Inr c \<Rightarrow> \<exists>tc t. rdb_tree_class cls = Inr tc \<and> create_in reg tc 0 order = Inr t \<and> tree_ok K t \<and>
        atree K t = KMap c Map.empty"
  using assms
  by (auto simp: aclass_def rdb_tree_class_def create_in_def dbtree_create_inplace_def btr_class_init_def
      zero_root_def reg_ok_def class_nums RDB_KVS_GENERIC_def RDB_KVS_INTEGER_def btr_root_init_def map_res_def
      tree_ok_cases kv_inv_def iv_inv_def btr_inv_def btr_recs_def kv_map_def iv_map_def atree_def fun_eq_iff
      BTR_ORDER_MIN_def)

lemma rdb_create_tree_ok:
  assumes "tree_ok K t" "reg_ok reg" "k \<in> class_keys K (tree_cls t)"
  shows "case aclass cls order of
      Inl e \<Rightarrow> rdb_create_tree reg t k cls 0 order = Inl e
    | Inr c \<Rightarrow> \<exists>t'. rdb_create_tree reg t k cls 0 order = Inr t' \<and> tree_ok K t' \<and>
        atree K t' = aput k (KMap c Map.empty) (atree K t)"
proof -
  obtain t1 where t1: "kvs_update t k zero_buf = Inr t1" "tree_ok K t1" "tree_cls t1 = tree_cls t"
    "kvs_map K t1 = (kvs_map K t)(k \<mapsto> zero_buf)"
    using kvs_update_ok [OF assms(1,3), of zero_buf] by (auto simp: zero_buf_def val_ok_bytes)
  have l: "kvs_lookup t1 k = Inr zero_buf" using kvs_lookup_ok [OF t1(2), of k] t1(3,4) assms(3) by simp
  have K: "good_keys K" using assms(1) by (simp add: tree_ok_def)
  note c = create_in_ok [OF K assms(2), where cls = cls and order = order]
  show ?thesis
  proof (cases "aclass cls order")
    case (Inl e)
    then show ?thesis using c t1(1) l by (auto simp: rdb_create_tree_def split: sum.splits)
  next
    case (Inr kc)
    then obtain tc child where ch: "rdb_tree_class cls = Inr tc" "create_in reg tc 0 order = Inr child"
      "tree_ok K child" "atree K child = KMap kc Map.empty" using c by auto
    obtain t2 where "kvs_update t1 k (tree_val child) = Inr t2" "tree_ok K t2"
      "atree K t2 = aput k (atree K child) (atree K t1)"
      using kvs_update_abs [OF t1(2), of k "tree_val child"] assms(3) t1(3) tree_ok_val [OF ch(3)]
      by (auto simp: aval_tree_val)
    then show ?thesis using Inr t1 l ch by (auto simp: rdb_create_tree_def atree_def fun_eq_iff)
  qed
qed

section \<open>Operations on nested maps\<close>

text \<open>
  The specification. \<open>None\<close> is left open: a key that its store cannot have, or a byte string where a
  store is expected.
\<close>

definition acreate :: "bytes set \<Rightarrow> bytes \<Rightarrow> u32 \<Rightarrow> u32 \<Rightarrow> kval \<Rightarrow> kval res option" where
  "acreate K k cls order a =
     (case a of
        KMap c m \<Rightarrow>
          if k \<notin> class_keys K c then None
          else Some (case aclass cls (unat order) of Inl e \<Rightarrow> Inl e | Inr c' \<Rightarrow> Inr (aput k (KMap c' Map.empty) a))
      | KBytes bs \<Rightarrow> None)"

definition adestroy :: "bytes set \<Rightarrow> bytes \<Rightarrow> kval \<Rightarrow> kval res option" where
  "adestroy K k a = map_option (map_res (\<lambda>_. adel k a)) (aopen K a k)"

definition aupdate :: "bytes set \<Rightarrow> bytes \<Rightarrow> bytes \<Rightarrow> kval \<Rightarrow> kval res option" where
  "aupdate K k v a =
     (case a of
        KMap c m \<Rightarrow> if k \<notin> class_keys K c then None else Some (Inr (aput k (KBytes v) a))
      | KBytes bs \<Rightarrow> None)"

definition adelete :: "bytes set \<Rightarrow> bytes \<Rightarrow> kval \<Rightarrow> kval res option" where
  "adelete K k a =
     (case a of
        KMap c m \<Rightarrow>
          if k \<notin> class_keys K c then None
          else Some (case m k of None \<Rightarrow> Inl DER_NONEXIST | Some _ \<Rightarrow> Inr (adel k a))
      | KBytes bs \<Rightarrow> None)"

fun awalk :: "bytes set \<Rightarrow> bytes list \<Rightarrow> kval \<Rightarrow> kval res option" where
  "awalk K [] a = Some (Inr a)"
| "awalk K (k # ks) a =
     (case aopen K a k of None \<Rightarrow> None | Some (Inl e) \<Rightarrow> Some (Inl e) | Some (Inr a') \<Rightarrow> awalk K ks a')"

fun amod :: "bytes set \<Rightarrow> bytes list \<Rightarrow> (kval \<Rightarrow> kval res option) \<Rightarrow> kval \<Rightarrow> kval res option" where
  "amod K [] f a = f a"
| "amod K (k # ks) f a =
     (case aopen K a k of
        None \<Rightarrow> None
      | Some (Inl e) \<Rightarrow> Some (Inl e)
      | Some (Inr a') \<Rightarrow> map_option (map_res (\<lambda>a''. aput k a'' a)) (amod K ks f a'))"

text \<open>An update operation with its path as a list of keys; the first key of a path may be the root key.\<close>

datatype aop =
    ACreateRoot u32 u32
  | ADestroyRoot
  | ACreate "bytes list" bytes u32 u32
  | ADestroy "bytes list" bytes
  | AUpdate "bytes list" bytes bytes
  | ADelete "bytes list" bytes

fun norm_path :: "bytes list \<Rightarrow> bytes list" where
  "norm_path [] = []"
| "norm_path (k # ks) = (if k = rdb_path_root_key then rdb_attr_root else k) # ks"

fun spec_op :: "bytes set \<Rightarrow> aop \<Rightarrow> kval \<Rightarrow> kval res option" where
  "spec_op K (ACreateRoot cls order) a = acreate K rdb_attr_root cls order a"
| "spec_op K ADestroyRoot a = adestroy K rdb_attr_root a"
| "spec_op K (ACreate path k cls order) a = amod K (norm_path path) (acreate K k cls order) a"
| "spec_op K (ADestroy path k) a = amod K (norm_path path) (adestroy K k) a"
| "spec_op K (AUpdate path k v) a = amod K (norm_path path) (aupdate K k v) a"
| "spec_op K (ADelete path k) a = amod K (norm_path path) (adelete K k) a"

definition path_enc :: "bytes list \<Rightarrow> bytes" where
  "path_enc keys = concat (map rdb_encode_iov keys)"

fun aop_enc :: "aop \<Rightarrow> rdb_tx_op" where
  "aop_enc (ACreateRoot cls order) =
     \<lparr>dto_opc = RDB_TX_CREATE_ROOT, dto_kvs = [], dto_key = [], dto_value = [],
      dto_attr = Some \<lparr>dsa_class = cls, dsa_order = order\<rparr>\<rparr>"
| "aop_enc ADestroyRoot =
     \<lparr>dto_opc = RDB_TX_DESTROY_ROOT, dto_kvs = [], dto_key = [], dto_value = [], dto_attr = None\<rparr>"
| "aop_enc (ACreate path k cls order) =
     \<lparr>dto_opc = RDB_TX_CREATE, dto_kvs = path_enc path, dto_key = k, dto_value = [],
      dto_attr = Some \<lparr>dsa_class = cls, dsa_order = order\<rparr>\<rparr>"
| "aop_enc (ADestroy path k) =
     \<lparr>dto_opc = RDB_TX_DESTROY, dto_kvs = path_enc path, dto_key = k, dto_value = [], dto_attr = None\<rparr>"
| "aop_enc (AUpdate path k v) =
     \<lparr>dto_opc = RDB_TX_UPDATE, dto_kvs = path_enc path, dto_key = k, dto_value = v, dto_attr = None\<rparr>"
| "aop_enc (ADelete path k) =
     \<lparr>dto_opc = RDB_TX_DELETE, dto_kvs = path_enc path, dto_key = k, dto_value = [], dto_attr = None\<rparr>"

fun aop_path :: "aop \<Rightarrow> bytes list" where
  "aop_path (ACreateRoot cls order) = [rdb_path_root_key]"
| "aop_path ADestroyRoot = [rdb_path_root_key]"
| "aop_path (ACreate path k cls order) = path"
| "aop_path (ADestroy path k) = path"
| "aop_path (AUpdate path k v) = path"
| "aop_path (ADelete path k) = path"

text \<open>Sizes that the encoding can express, with room for the path to a store that is destroyed.\<close>

definition aop_ok :: "aop \<Rightarrow> bool" where
  "aop_ok op \<longleftrightarrow> op_ok (aop_enc op) \<and> aop_path op \<noteq> [] \<and>
     length (path_enc (aop_path op)) + length (dto_key (aop_enc op)) + 8 \<le> rdb_iov_max"

section \<open>The database implements nested maps\<close>

definition refines :: "bytes set \<Rightarrow> rdb_tree res \<Rightarrow> kval res \<Rightarrow> bool" where
  "refines K x r \<longleftrightarrow>
     (case r of Inl e \<Rightarrow> x = Inl e | Inr a \<Rightarrow> \<exists>t. x = Inr t \<and> tree_ok K t \<and> atree K t = a)"

lemma refines_simps [simp]:
  "refines K x (Inl e) \<longleftrightarrow> x = Inl e"
  "refines K x (Inr a) \<longleftrightarrow> (\<exists>t. x = Inr t \<and> tree_ok K t \<and> atree K t = a)"
  by (simp_all add: refines_def)

lemma create_refines:
  assumes "tree_ok K t" "reg_ok reg" "acreate K k cls order (atree K t) = Some r"
  shows "refines K (rdb_create_tree reg t k cls 0 (unat order)) r"
proof -
  have "k \<in> class_keys K (tree_cls t)"
    using assms(3) by (auto simp: acreate_def atree_def split: if_splits)
  from rdb_create_tree_ok [OF assms(1,2) this, where cls = cls and order = "unat order"] assms(3)
  show ?thesis by (auto simp: acreate_def atree_def split: if_splits sum.splits)
qed

lemma destroy_refines:
  assumes "tree_ok K t" "reg_ok reg" "adestroy K k (atree K t) = Some r"
  shows "refines K (rdb_destroy_tree reg raw t k) r"
proof -
  obtain q where q: "aopen K (atree K t) k = Some q" "r = map_res (\<lambda>_. adel k (atree K t)) q"
    using assms(3) by (auto simp: adestroy_def)
  have k: "k \<in> class_keys K (tree_cls t)" using q(1) by (auto simp: atree_def split: if_splits)
  from rdb_open_tree_ok [OF assms(1,2) q(1), of raw] kvs_delete_abs [OF assms(1) k] q(2)
  show ?thesis by (auto simp: rdb_destroy_tree_def map_res_def split: sum.splits)
qed

lemma update_refines:
  assumes "tree_ok K t" "aupdate K k v (atree K t) = Some r"
  shows "refines K (kvs_update t k (RVal v)) r"
proof -
  have "k \<in> class_keys K (tree_cls t)" using assms(2) by (auto simp: aupdate_def atree_def split: if_splits)
  from kvs_update_abs [OF assms(1) this val_ok_bytes, of v] assms(2)
  show ?thesis by (auto simp: aupdate_def atree_def split: if_splits)
qed

lemma delete_refines:
  assumes "tree_ok K t" "adelete K k (atree K t) = Some r"
  shows "refines K (kvs_delete t k) r"
proof -
  have k: "k \<in> class_keys K (tree_cls t)" using assms(2) by (auto simp: adelete_def atree_def split: if_splits)
  show ?thesis
  proof (cases "kvs_map K t k")
    case None
    then show ?thesis using kvs_delete_none [OF assms(1) k] assms(2) k by (auto simp: adelete_def atree_def)
  next
    case (Some v)
    then show ?thesis using kvs_delete_abs [OF assms(1) k] assms(2) k by (auto simp: adelete_def atree_def)
  qed
qed

lemma modify_refines:
  assumes "\<And>t r. tree_ok K t \<Longrightarrow> g (atree K t) = Some r \<Longrightarrow> refines K (f t) r" "reg_ok reg"
  shows "tree_ok K t \<Longrightarrow> amod K ks g (atree K t) = Some r \<Longrightarrow> refines K (tree_modify reg raw ks f t) r"
proof (induction ks arbitrary: t r)
  case Nil
  then show ?case using assms(1) by simp
next
  case (Cons k ks)
  obtain q where q: "aopen K (atree K t) k = Some q" using Cons.prems(2) by (auto split: option.splits)
  have k: "k \<in> class_keys K (tree_cls t)" using q by (auto simp: atree_def split: if_splits)
  note o = rdb_open_tree_ok [OF Cons.prems(1) assms(2) q, of raw]
  show ?case
  proof (cases q)
    case (Inl e)
    then show ?thesis using o q Cons.prems(2) by auto
  next
    case (Inr a)
    then obtain t' where t': "rdb_open_tree reg raw t k = Inr t'" "tree_ok K t'" "atree K t' = a" using o by auto
    obtain r' where r': "amod K ks g (atree K t') = Some r'" "r = map_res (\<lambda>a''. aput k a'' (atree K t)) r'"
      using Cons.prems(2) q Inr t'(3) by auto
    have "refines K (tree_modify reg raw ks f t') r'" using Cons.IH [OF t'(2) r'(1)] .
    then show ?thesis
      using t'(1) r'(2) kvs_update_abs [OF Cons.prems(1) k] tree_ok_val
      by (cases r') (fastforce simp: map_res_def aval_tree_val)+
  qed
qed

section \<open>Looking up a path\<close>

lemma length_key_le: "k \<in> set keys \<Longrightarrow> length k \<le> length (path_enc keys)"
  by (induction keys) (auto simp: path_enc_def)

lemma path_enc_ok:
  assumes "keys \<noteq> []" "length (path_enc keys) \<le> rdb_iov_max"
  shows "path_ok keys \<lparr>path_bytes = path_enc keys, path_cap = length (path_enc keys)\<rparr>" "path_enc keys \<noteq> []"
proof -
  have ne: "0 < length (path_enc keys)" using assms(1) by (cases keys) (auto simp: path_enc_def)
  then show "path_enc keys \<noteq> []" by auto
  have "\<forall>k\<in>set keys. length k \<le> rdb_iov_max" using length_key_le assms(2) order_trans by blast
  then show "path_ok keys \<lparr>path_bytes = path_enc keys, path_cap = length (path_enc keys)\<rparr>"
    using ne assms(2) by (simp add: path_ok_def path_enc_def)
qed

lemma path_pop_all_ok:
  "path_ok keys p \<Longrightarrow> \<exists>p'. path_pop_all p = Some p' \<and> path_bytes p' = []"
proof (induction keys arbitrary: p rule: rev_induct)
  case Nil
  then have "rdb_path_pop p = Some (Inl DER_NONEXIST)" "path_bytes p = []"
    using rdb_path_pop_ok [OF Nil] by (auto simp: path_ok_def)
  then show ?case by (subst path_pop_all.simps) simp
next
  case (snoc k keys)
  from rdb_path_pop_ok [OF snoc.prems] obtain p' where
    p': "rdb_path_pop p = Some (Inr p')" "path_ok keys p'" by auto
  from snoc.IH [OF p'(2)] p'(1) show ?case by (subst path_pop_all.simps) auto
qed

lemma walk_ok:
  assumes "reg_ok reg"
  shows "tree_ok K t \<Longrightarrow> awalk K ks (atree K t) = Some r \<Longrightarrow>
    case r of
      Inl e \<Rightarrow> fst (iterate_keys (rdb_tree_open_path_cb reg raw base) ks (pre, Some t)) = Some e
    | Inr a \<Rightarrow> \<exists>t'. iterate_keys (rdb_tree_open_path_cb reg raw base) ks (pre, Some t) = (None, pre @ ks, Some t') \<and>
        tree_ok K t' \<and> atree K t' = a"
proof (induction ks arbitrary: t pre)
  case (Cons k ks)
  obtain q where q: "aopen K (atree K t) k = Some q" using Cons.prems(2) by (auto split: option.splits)
  note o = rdb_open_tree_ok [OF Cons.prems(1) assms q, of raw]
  show ?case
  proof (cases q)
    case (Inl e)
    then show ?thesis using o q Cons.prems(2) by (auto simp: rdb_tree_open_path_cb_def)
  next
    case (Inr a)
    then obtain t' where t': "rdb_open_tree reg raw t k = Inr t'" "tree_ok K t'" "atree K t' = a" using o by auto
    have "awalk K ks (atree K t') = Some r" using Cons.prems(2) q Inr t'(3) by simp
    from Cons.IH [OF t'(2) this, of "pre @ [k]"] show ?thesis
      using t'(1) by (auto simp: rdb_tree_open_path_cb_def split: sum.splits)
  qed
qed auto

lemma rdb_tree_lookup_ok:
  assumes "tree_ok K t" "reg_ok reg" "keys \<noteq> []" "length (path_enc keys) \<le> rdb_iov_max"
    and "awalk K (norm_path keys) (atree K t) = Some r"
  shows "case r of
      Inl e \<Rightarrow> rdb_tree_lookup reg raw t (path_enc keys) = Some (Inl e)
    | Inr a \<Rightarrow> \<exists>t'. rdb_tree_lookup reg raw t (path_enc keys) = Some (Inr (norm_path keys, t')) \<and>
        tree_ok K t' \<and> atree K t' = a"
proof -
  let ?p = "\<lparr>path_bytes = path_enc keys, path_cap = length (path_enc keys)\<rparr>"
  let ?cb = "rdb_tree_open_path_cb reg raw t"
  note ok = path_enc_ok [OF assms(3,4)]
  obtain p' where p': "path_pop_all ?p = Some p'" "path_bytes p' = []" using path_pop_all_ok [OF ok(1)] by blast
  have it: "path_iterate ?cb (path_enc keys) ([], None) = iterate_keys ?cb keys ([], None)"
    using rdb_path_iterate_ok [OF ok(1), of ?cb "([], None)"] by (simp add: rdb_path_iterate_def)
  obtain k ks where ks: "keys = k # ks" using assms(3) by (cases keys) auto
  define k' where "k' = (if k = rdb_path_root_key then rdb_attr_root else k)"
  obtain q where q: "aopen K (atree K t) k' = Some q" using assms(5) ks by (auto simp: k'_def split: option.splits)
  note o = rdb_open_tree_ok [OF assms(1,2) q, of raw]
  have L: "rdb_tree_lookup reg raw t (path_enc keys) =
      (case iterate_keys ?cb keys ([], None) of
         (Some e, _) \<Rightarrow> Some (Inl e) | (None, ks, None) \<Rightarrow> None | (None, ks, Some t') \<Rightarrow> Some (Inr (ks, t')))"
    using ok(2) p' it by (simp add: rdb_tree_lookup_def)
  show ?thesis
  proof (cases q)
    case (Inl e)
    then have "r = Inl e" "?cb k ([], None) = Inl (Some e, [], None)"
      using o q assms(5) ks by (auto simp: k'_def rdb_tree_open_path_cb_def rdb_path_root_key_def split: if_splits)
    then show ?thesis using L ks by simp
  next
    case (Inr a)
    then obtain t' where t': "rdb_open_tree reg raw t k' = Inr t'" "tree_ok K t'" "atree K t' = a" using o by auto
    have w: "awalk K ks (atree K t') = Some r" using assms(5) q Inr t'(3) ks by (simp add: k'_def)
    have "?cb k ([], None) = Inr ([k'], Some t')"
      using t'(1) by (simp add: k'_def rdb_tree_open_path_cb_def rdb_path_root_key_def)
    then have "iterate_keys ?cb keys ([], None) = iterate_keys ?cb ks ([k'], Some t')" by (simp add: ks)
    moreover have "norm_path keys = k' # ks" by (simp add: ks k'_def)
    ultimately show ?thesis
      using walk_ok [OF assms(2) t'(2) w, of raw t "[k']"] L
      by (cases r) (auto split: prod.splits option.splits)
  qed
qed

lemma amod_walk:
  "amod K ks g a = Some r \<Longrightarrow>
     (\<exists>e. awalk K ks a = Some (Inl e) \<and> r = Inl e) \<or> (\<exists>a'. awalk K ks a = Some (Inr a'))"
proof (induction ks arbitrary: a r)
  case (Cons k ks)
  then show ?case
  proof (cases "aopen K a k")
    case (Some q)
    then show ?thesis using Cons by (cases q) (fastforce simp: map_res_def)+
  qed simp
qed simp

section \<open>Applying an entry\<close>

lemma victim_path_ok:
  assumes "aop_ok op"
  shows "victim_path (aop_enc op) = Some None"
proof (cases op)
  case ADestroyRoot
  show ?thesis
    using rdb_path_push_ok [OF rdb_path_init_ok, of "[]"] ADestroyRoot
    by (auto simp: victim_path_def opc_defs rdb_path_root_key_def rdb_path_init_def rdb_iov_max_def)
next
  case (ADestroy path k)
  have "path_ok path \<lparr>path_bytes = path_enc path, path_cap = length (path_enc path)\<rparr>"
    using assms ADestroy by (intro path_enc_ok) (auto simp: aop_ok_def)
  from rdb_path_push_ok [OF this, of k] assms ADestroy show ?thesis
    by (auto simp: victim_path_def opc_defs rdb_path_clone_def aop_ok_def op_ok_def)
qed (simp_all add: victim_path_def opc_defs)

lemma rdb_tx_apply_op_refines:
  assumes "tree_ok K t" "reg_ok reg" "aop_ok op" "spec_op K op (atree K t) = Some r"
  shows "\<exists>x. rdb_tx_apply_op reg raw t (aop_enc op) = Some x \<and> refines K x r"
proof -
  have path: "\<exists>x. rdb_tx_apply_op reg raw t (aop_enc op) = Some x \<and> refines K x r"
    if p: "dto_opc (aop_enc op) \<notin> {RDB_TX_CREATE_ROOT, RDB_TX_DESTROY_ROOT}"
      "dto_kvs (aop_enc op) = path_enc (aop_path op)"
      "amod K (norm_path (aop_path op)) g (atree K t) = Some r"
      and g: "\<And>t r. tree_ok K t \<Longrightarrow> g (atree K t) = Some r \<Longrightarrow> refines K (op_body reg raw (aop_enc op) t) r"
    for g
  proof -
    have sz: "aop_path op \<noteq> []" "length (path_enc (aop_path op)) \<le> rdb_iov_max"
      using assms(3) by (auto simp: aop_ok_def)
    note l = rdb_tree_lookup_ok [OF assms(1,2) sz, of _ raw]
    from amod_walk [OF p(3)] show ?thesis
    proof (elim disjE exE conjE)
      fix e assume "awalk K (norm_path (aop_path op)) (atree K t) = Some (Inl e)" "r = Inl e"
      then show ?thesis using l [of "Inl e"] p(1,2) by (simp add: rdb_tx_apply_op_def)
    next
      fix a' assume "awalk K (norm_path (aop_path op)) (atree K t) = Some (Inr a')"
      then show ?thesis
        using l [of "Inr a'"] p victim_path_ok [OF assms(3)]
          modify_refines [OF g assms(2,1) p(3), where raw = raw]
        by (auto simp: rdb_tx_apply_op_def)
    qed
  qed
  show ?thesis
  proof (cases op)
    case (ACreateRoot cls order)
    then show ?thesis
      using create_refines [OF assms(1,2)] assms(4) victim_path_ok [OF assms(3)]
      by (auto simp: rdb_tx_apply_op_def opc_defs)
  next
    case ADestroyRoot
    then show ?thesis
      using destroy_refines [OF assms(1,2)] assms(4) victim_path_ok [OF assms(3)]
      by (auto simp: rdb_tx_apply_op_def opc_defs)
  next
    case (ACreate p k cls order)
    show ?thesis by (rule path [of "acreate K k cls order"])
      (use ACreate assms(4) create_refines [OF _ assms(2)] in \<open>auto simp: opc_defs op_body_def\<close>)
  next
    case (ADestroy p k)
    show ?thesis by (rule path [of "adestroy K k"])
      (use ADestroy assms(4) destroy_refines [OF _ assms(2)] in \<open>auto simp: opc_defs op_body_def\<close>)
  next
    case (AUpdate p k v)
    show ?thesis by (rule path [of "aupdate K k v"])
      (use AUpdate assms(4) update_refines in \<open>auto simp: opc_defs op_body_def\<close>)
  next
    case (ADelete p k)
    show ?thesis by (rule path [of "adelete K k"])
      (use ADelete assms(4) delete_refines in \<open>auto simp: opc_defs op_body_def\<close>)
  qed
qed

fun spec_ops :: "bytes set \<Rightarrow> aop list \<Rightarrow> kval \<Rightarrow> kval res option" where
  "spec_ops K [] a = Some (Inr a)"
| "spec_ops K (op # ops) a =
     (case spec_op K op a of None \<Rightarrow> None | Some (Inl e) \<Rightarrow> Some (Inl e) | Some (Inr a') \<Rightarrow> spec_ops K ops a')"

definition ops_enc :: "aop list \<Rightarrow> bytes" where
  "ops_enc ops = concat (map (\<lambda>op. rdb_tx_op_encode (aop_enc op)) ops)"

lemma op_encode_not_Nil: "rdb_tx_op_encode op \<noteq> []"
  by (simp add: rdb_tx_op_encode_def)

lemma apply_ops_refines:
  assumes "reg_ok reg"
  shows "tree_ok K t \<Longrightarrow> \<forall>op\<in>set ops. aop_ok op \<Longrightarrow> spec_ops K ops (atree K t) = Some r \<Longrightarrow>
    \<exists>x. apply_ops reg raw rc t (ops_enc ops) = Some x \<and> refines K x r"
proof (induction ops arbitrary: t rc)
  case Nil
  then show ?case by (subst apply_ops.simps) (auto simp: ops_enc_def)
next
  case (Cons op ops)
  obtain q where q: "spec_op K op (atree K t) = Some q" using Cons.prems(3) by (auto split: option.splits)
  obtain x where x: "rdb_tx_apply_op reg raw t (aop_enc op) = Some x" "refines K x q"
    using rdb_tx_apply_op_refines [OF Cons.prems(1) assms _ q, of raw] Cons.prems(2) by auto
  have buf: "ops_enc (op # ops) = rdb_tx_op_encode (aop_enc op) @ ops_enc ops" by (simp add: ops_enc_def)
  have d: "rdb_tx_op_decode (ops_enc (op # ops)) = Inr (aop_enc op, length (rdb_tx_op_encode (aop_enc op)))"
    unfolding buf using Cons.prems(2) by (intro op_decode_encode) (simp add: aop_ok_def)
  have step: "apply_ops reg raw rc t (ops_enc (op # ops)) =
      (case x of Inl e \<Rightarrow> Some (Inl e) | Inr t' \<Rightarrow> apply_ops reg raw None t' (ops_enc ops))"
    using d x(1) op_encode_not_Nil by (subst apply_ops.simps) (simp add: buf split: sum.splits)
  show ?case
  proof (cases q)
    case (Inl e)
    then show ?thesis using step x(2) q Cons.prems(3) by auto
  next
    case (Inr a)
    then obtain t' where "x = Inr t'" "tree_ok K t'" "atree K t' = a" using x(2) by auto
    then show ?thesis using step q Inr Cons.prems Cons.IH [of t' None] by auto
  qed
qed

definition spec_tx :: "bytes set \<Rightarrow> aop list \<Rightarrow> u64 \<Rightarrow> kval \<Rightarrow> (kval \<times> der option res) option" where
  "spec_tx K ops index a =
     (case spec_ops K ops a of
        None \<Rightarrow> None
      | Some r \<Rightarrow>
         (case r of
            Inl e \<Rightarrow>
              if rdb_tx_deterministic_error e
              then (case aupdate K rdb_attr_applied (u64_bytes index) a of
                      Some (Inr a') \<Rightarrow> Some (a', Inr (Some e)) | _ \<Rightarrow> None)
              else Some (a, Inl e)
          | Inr a' \<Rightarrow>
              (case aupdate K rdb_attr_applied (u64_bytes index) a' of
                 Some (Inr a'') \<Rightarrow> Some (a'', Inr None) | _ \<Rightarrow> None)))"

lemma rdb_tx_apply_ok:
  assumes "tree_ok K t" "reg_ok reg" "\<forall>op\<in>set ops. aop_ok op" "spec_tx K ops index (atree K t) = Some (a, res)"
  shows "\<exists>t'. rdb_tx_apply reg raw rc0 t index (ops_enc ops) = Some (t', res) \<and> tree_ok K t' \<and> atree K t' = a"
proof -
  obtain r where r: "spec_ops K ops (atree K t) = Some r" using assms(4) by (auto simp: spec_tx_def split: option.splits)
  obtain x where x: "apply_ops reg raw rc0 t (ops_enc ops) = Some x" "refines K x r"
    using apply_ops_refines [OF assms(2,1,3) r] by blast
  have u: "\<exists>t2. kvs_update t1 rdb_attr_applied (RVal (u64_bytes index)) = Inr t2 \<and> tree_ok K t2 \<and> atree K t2 = b"
    if "tree_ok K t1" "aupdate K rdb_attr_applied (u64_bytes index) (atree K t1) = Some (Inr b)" for t1 b
    using update_refines [OF that] by simp
  show ?thesis
  proof (cases r)
    case (Inl e)
    then show ?thesis
      using x r assms u [OF assms(1)]
      by (fastforce simp: spec_tx_def rdb_tx_apply_def Let_def split: if_splits option.splits sum.splits)
  next
    case (Inr a1)
    then obtain t1 where t1: "x = Inr t1" "tree_ok K t1" "atree K t1 = a1" using x(2) by auto
    obtain b where b: "aupdate K rdb_attr_applied (u64_bytes index) a1 = Some (Inr b)" "a = b" "res = Inr None"
      using assms(4) r Inr by (auto simp: spec_tx_def split: option.splits sum.splits)
    then show ?thesis using x(1) t1 u [OF t1(2), of b] by (auto simp: rdb_tx_apply_def Let_def)
  qed
qed

section \<open>Queries\<close>

definition spec_lookup :: "bytes set \<Rightarrow> bytes list \<Rightarrow> bytes \<Rightarrow> kval \<Rightarrow> kval res option" where
  "spec_lookup K path k a =
     (case awalk K (norm_path path) a of
        Some (Inr (KMap c m)) \<Rightarrow>
          if k \<in> class_keys K c then Some (case m k of None \<Rightarrow> Inl DER_NONEXIST | Some v \<Rightarrow> Inr v) else None
      | Some (Inl e) \<Rightarrow> Some (Inl e)
      | _ \<Rightarrow> None)"

lemma rdb_tx_lookup_ok:
  assumes "tree_ok K t" "reg_ok reg" "path \<noteq> []" "length (path_enc path) \<le> rdb_iov_max"
    and "rdb_tx_leader_check raft tx = None" "spec_lookup K path k (atree K t) = Some r"
  shows "map_option (map_res (aval K)) (rdb_tx_lookup reg raw raft t tx (path_enc path) k) = Some r"
proof -
  obtain w where w: "awalk K (norm_path path) (atree K t) = Some w"
    using assms(6) by (auto simp: spec_lookup_def split: option.splits)
  note l = rdb_tree_lookup_ok [OF assms(1-4) w, of raw]
  show ?thesis
  proof (cases w)
    case (Inl e)
    then show ?thesis using l w assms(5,6)
      by (auto simp: rdb_tx_lookup_def rdb_tx_query_pre_def map_res_def spec_lookup_def)
  next
    case (Inr b)
    then obtain t' where t': "rdb_tree_lookup reg raw t (path_enc path) = Some (Inr (norm_path path, t'))"
      "tree_ok K t'" "atree K t' = b" using l by auto
    have k: "k \<in> class_keys K (tree_cls t')" using assms(6) w Inr t'(3)
      by (auto simp: spec_lookup_def atree_def split: if_splits)
    show ?thesis
      using kvs_lookup_ok [OF t'(2) k] t' w Inr assms(5,6) k
      by (auto simp: rdb_tx_lookup_def rdb_tx_query_pre_def map_res_def spec_lookup_def atree_def split: option.splits)
  qed
qed

end
