(* ===== verification/Rdb_Consistency.thy ===== *)
theory Rdb_Consistency
  imports Rdb_Apply "HOL-Library.Sublist"
begin

text \<open>
  Properties of the replicated database as its clients see it: entries take effect as a whole or not
  at all, a committed update is what the next query returns, and it changes nothing else.
\<close>

section \<open>What an operation changes\<close>

definition look :: "bytes set \<Rightarrow> bytes list \<Rightarrow> bytes \<Rightarrow> kval \<Rightarrow> kval res option" where
  "look K ks k a =
     (case awalk K ks a of
        Some (Inr (KMap c m)) \<Rightarrow>
          if k \<in> class_keys K c then Some (case m k of None \<Rightarrow> Inl DER_NONEXIST | Some v \<Rightarrow> Inr v) else None
      | Some (Inl e) \<Rightarrow> Some (Inl e)
      | _ \<Rightarrow> None)"

lemma spec_lookup_look: "spec_lookup K path k a = look K (norm_path path) k a"
  by (simp add: spec_lookup_def look_def)

lemma look_Cons:
  "look K (x # xs) k a =
     (case aopen K a x of None \<Rightarrow> None | Some (Inl e) \<Rightarrow> Some (Inl e) | Some (Inr b) \<Rightarrow> look K xs k b)"
  by (auto simp: look_def split: option.splits sum.splits)

lemma look_Nil:
  "look K [] k (KMap c m) =
     (if k \<in> class_keys K c then Some (case m k of None \<Rightarrow> Inl DER_NONEXIST | Some v \<Rightarrow> Inr v) else None)"
  by (simp add: look_def)

text \<open>The two paths to a value do not lead through one another.\<close>

definition apart :: "bytes list \<Rightarrow> bytes list \<Rightarrow> bool" where
  "apart p q \<longleftrightarrow> \<not> prefix p q \<and> \<not> prefix q p"

definition only_at :: "bytes \<Rightarrow> kval \<Rightarrow> kval \<Rightarrow> bool" where
  "only_at k b b' \<longleftrightarrow> (\<exists>c m v. b = KMap c m \<and> b' = KMap c (m(k := v)))"

lemma only_at_look:
  assumes "only_at k a a'" "apart [k] (q @ [j])"
  shows "look K q j a' = look K q j a"
  using assms by (cases q) (auto simp: only_at_def apart_def look_Nil look_Cons)

lemma aopen_Inr:
  "aopen K a x = Some (Inr b) \<longleftrightarrow>
     (\<exists>c m c' m'. a = KMap c m \<and> x \<in> class_keys K c \<and> m x = Some b \<and> b = KMap c' m')"
  by (cases a) (auto split: option.splits kval.splits)

lemma map_res_Inr: "map_res f r = Inr y \<longleftrightarrow> (\<exists>x. r = Inr x \<and> y = f x)"
  by (auto simp: map_res_def split: sum.splits)

lemma amod_Cons_Inr:
  "amod K (x # xs) g a = Some (Inr a') \<longleftrightarrow>
     (\<exists>b b'. aopen K a x = Some (Inr b) \<and> amod K xs g b = Some (Inr b') \<and> a' = aput x b' a)"
  by (auto simp: map_res_Inr split: option.splits sum.splits)

lemma amod_only_at:
  assumes "\<And>b b'. g b = Some (Inr b') \<Longrightarrow> only_at k b b'"
  shows "amod K ks g a = Some (Inr a') \<Longrightarrow> only_at (hd (ks @ [k])) a a'"
proof (cases ks)
  case (Cons x xs)
  assume "amod K ks g a = Some (Inr a')"
  then show ?thesis
    using Cons by (auto simp: only_at_def amod_Cons_Inr aopen_Inr simp del: amod.simps)
qed (use assms in auto)

lemma amod_look_frame:
  assumes "\<And>b b'. g b = Some (Inr b') \<Longrightarrow> only_at k b b'"
  shows "amod K ks g a = Some (Inr a') \<Longrightarrow> apart (ks @ [k]) (q @ [j]) \<Longrightarrow> look K q j a' = look K q j a"
proof (induction ks arbitrary: a a' q)
  case Nil
  then show ?case using only_at_look [OF assms] by simp
next
  case (Cons x xs)
  have o: "only_at x a a'" using amod_only_at [OF assms Cons.prems(1)] by simp
  show ?case
  proof (cases "apart [x] (q @ [j])")
    case True
    then show ?thesis using only_at_look [OF o] by blast
  next
    case False
    then obtain ys where q: "q = x # ys" using Cons.prems(2) by (cases q) (auto simp: apart_def)
    obtain b b' where b: "aopen K a x = Some (Inr b)" "amod K xs g b = Some (Inr b')" "a' = aput x b' a"
      using Cons.prems(1) unfolding amod_Cons_Inr by blast
    have "apart (xs @ [k]) (ys @ [j])" using Cons.prems(2) q by (auto simp: apart_def)
    from Cons.IH [OF b(2) this] have ih: "look K ys j b' = look K ys j b" .
    have "only_at (hd (xs @ [k])) b b'" using amod_only_at [OF assms b(2)] by blast
    then obtain c' m' where "b' = KMap c' m'" by (auto simp: only_at_def)
    then have "aopen K a' x = Some (Inr b')" using b(1,3) by (cases a) (auto split: if_splits)
    then show ?thesis using ih b(1) by (simp add: q look_Cons)
  qed
qed

lemma body_only_at:
  "acreate K k cls order b = Some (Inr b') \<Longrightarrow> only_at k b b'"
  "adestroy K k b = Some (Inr b') \<Longrightarrow> only_at k b b'"
  "aupdate K k v b = Some (Inr b') \<Longrightarrow> only_at k b b'"
  "adelete K k b = Some (Inr b') \<Longrightarrow> only_at k b b'"
  by (cases b; auto simp: acreate_def adestroy_def aupdate_def adelete_def only_at_def map_res_Inr aopen_Inr
      split: if_splits option.splits sum.splits)+

lemma amod_look_same:
  "amod K ks (aupdate K k v) a = Some (Inr a') \<Longrightarrow> look K ks k a' = Some (Inr (KBytes v))"
proof (induction ks arbitrary: a a')
  case Nil
  then show ?case by (cases a) (auto simp: aupdate_def look_Nil split: if_splits)
next
  case (Cons x xs)
  obtain b b' where b: "aopen K a x = Some (Inr b)" "amod K xs (aupdate K k v) b = Some (Inr b')" "a' = aput x b' a"
    using Cons.prems unfolding amod_Cons_Inr by blast
  note ih = Cons.IH [OF b(2)]
  have "only_at (hd (xs @ [k])) b b'" using amod_only_at [OF _ b(2)] body_only_at(3) by blast
  then obtain c' m' where "b' = KMap c' m'" by (auto simp: only_at_def)
  then have "aopen K a' x = Some (Inr b')" using b(1,3) by (cases a) (auto split: if_splits)
  then show ?case using ih by (simp add: look_Cons)
qed

text \<open>The path to the value that an operation changes.\<close>

fun target :: "aop \<Rightarrow> bytes list" where
  "target (ACreateRoot cls order) = [rdb_attr_root]"
| "target ADestroyRoot = [rdb_attr_root]"
| "target (ACreate path k cls order) = norm_path path @ [k]"
| "target (ADestroy path k) = norm_path path @ [k]"
| "target (AUpdate path k v) = norm_path path @ [k]"
| "target (ADelete path k) = norm_path path @ [k]"

lemma spec_op_frame:
  assumes "spec_op K op a = Some (Inr a')" "apart (target op) (q @ [j])"
  shows "look K q j a' = look K q j a"
  using assms
  by (cases op) (auto intro: only_at_look amod_look_frame body_only_at)

lemma spec_ops_frame:
  "spec_ops K ops a = Some (Inr a') \<Longrightarrow> \<forall>op\<in>set ops. apart (target op) (q @ [j]) \<Longrightarrow>
   look K q j a' = look K q j a"
  by (induction ops arbitrary: a) (auto dest: spec_op_frame split: option.splits sum.splits)

lemma spec_tx_frame:
  assumes "spec_tx K ops index a = Some (a', res)" "\<forall>op\<in>set ops. apart (target op) (q @ [j])"
    and "apart [rdb_attr_applied] (q @ [j])"
  shows "look K q j a' = look K q j a"
proof -
  have u: "look K q j c = look K q j b" if "aupdate K rdb_attr_applied v b = Some (Inr c)" for b c v
    using only_at_look [OF body_only_at(3) [OF that] assms(3)] .
  show ?thesis
    using assms(1,2) by (auto simp: spec_tx_def split: option.splits sum.splits if_splits dest!: u spec_ops_frame)
qed

section \<open>Properties\<close>


text \<open>
  C11. An applied transaction leaves alone every value that none of its operations names: a lookup
  at a path that does not lead through the changed values, nor they through it, returns the same as
  before, whether the transaction succeeded or failed.
\<close>

theorem rdb_tx_apply_frame:
  assumes "tree_ok K db" "reg_ok reg" "\<forall>op\<in>set ops. aop_ok op"
    and "spec_tx K ops index (atree K db) = Some (a, res)"
    and "rdb_tx_apply reg raw rc0 db index (ops_enc ops) = Some (db', res')"
    and "path \<noteq> []" "length (path_enc path) \<le> rdb_iov_max" "rdb_tx_leader_check raft tx = None"
    and "spec_lookup K path k (atree K db) = Some r"
    and "\<forall>t\<in>insert [rdb_attr_applied] (target ` set ops). apart t (norm_path path @ [k])"
  shows "map_option (map_res (aval K)) (rdb_tx_lookup reg raw raft db' tx (path_enc path) k) =
    map_option (map_res (aval K)) (rdb_tx_lookup reg raw raft db tx (path_enc path) k)"
proof -
  have db': "tree_ok K db'" "atree K db' = a" using rdb_tx_apply_ok [OF assms(1-4), of raw rc0] assms(5) by auto
  have "spec_lookup K path k a = Some r"
    using spec_tx_frame [OF assms(4)] assms(9,10) by (simp add: spec_lookup_look)
  then show ?thesis
    using rdb_tx_lookup_ok [OF assms(1,2,6-9), of raw] rdb_tx_lookup_ok [OF db'(1) assms(2,6-8), of k r raw] db'(2)
    by metis
qed

lemma append_update_ops:
  assumes "path_ok path p" "rdb_tx_update raft tx p k v = Some (Inr tx')" "dt_entry tx = []"
  shows "dt_entry tx' = ops_enc [AUpdate path k v]"
  using assms
  by (auto simp: rdb_tx_update_def rdb_tx_append_def Let_def ops_enc_def path_enc_def path_ok_def
      split: if_splits option.splits)

lemma amod_total:
  "awalk K ks a = Some (Inr b) \<Longrightarrow> g b = Some (Inr b') \<Longrightarrow> \<exists>a'. amod K ks g a = Some (Inr a')"
proof (induction ks arbitrary: a)
  case (Cons x xs)
  then obtain c where c: "aopen K a x = Some (Inr c)" "awalk K xs c = Some (Inr b)"
    by (auto split: option.splits sum.splits)
  from Cons.IH [OF c(2) Cons.prems(2)] c(1) show ?case by (auto simp: map_res_def)
qed simp

lemma aval_KBytes: "aval K x = KBytes v \<Longrightarrow> x = RVal v"
  by (cases x) auto

lemma spec_update_tx:
  assumes "tree_ok K db" "tree_cls db = GENERIC" "hd path = rdb_path_root_key" "path \<noteq> []"
    and "awalk K (norm_path path) (atree K db) = Some (Inr (KMap c m))" "k \<in> class_keys K c"
  shows "\<exists>a. spec_tx K [AUpdate path k v] index (atree K db) = Some (a, Inr None) \<and>
    spec_lookup K path k a = Some (Inr (KBytes v))"
proof -
  obtain a1 where a1: "amod K (norm_path path) (aupdate K k v) (atree K db) = Some (Inr a1)"
    using amod_total [OF assms(5), of "aupdate K k v"] assms(6) by (auto simp: aupdate_def)
  have "only_at (hd (norm_path path @ [k])) (atree K db) a1" using amod_only_at [OF _ a1] body_only_at(3) by blast
  then obtain m1 where m1: "a1 = KMap GENERIC m1" using assms(2) by (auto simp: only_at_def atree_def)
  have ap: "rdb_attr_applied \<in> K" using assms(1) by (auto simp: tree_ok_def good_keys_def)
  then obtain a2 where a2: "aupdate K rdb_attr_applied (u64_bytes index) a1 = Some (Inr a2)"
    by (auto simp: aupdate_def m1)
  have "apart [rdb_attr_applied] (norm_path path @ [k])"
    using assms(3,4) by (cases path) (auto simp: apart_def rdb_attr_applied_def rdb_attr_root_def)
  then have "look K (norm_path path) k a2 = Some (Inr (KBytes v))"
    using only_at_look [OF body_only_at(3) [OF a2]] amod_look_same [OF a1] by simp
  then show ?thesis using a1 a2 by (simp add: spec_tx_def spec_lookup_look)
qed

text \<open>
  C10. A committed update is what a query returns: for a transaction of one update, built by
  \<^verbatim>\<open>rdb_tx_update\<close>, packed into its entry and applied on a replica where the path leads from the
  root to a store that can have the key, the lookup at that path and key gives the value stored.
\<close>

theorem rdb_committed_update_is_read:
  assumes "tree_ok K db" "reg_ok reg" "path_ok path p" "aop_ok (AUpdate path k v)"
    and "rdb_tx_update raft tx p k v = Some (Inr tx')" "dt_entry tx = []"
    and "awalk K (norm_path path) (atree K db) = Some (Inr (KMap c m))" "k \<in> class_keys K c"
    and "hd path = rdb_path_root_key" "tree_cls db = GENERIC"
    and "rdb_tx_leader_check raft2 tx2 = None"
  shows "\<exists>db'. rdb_tx_apply reg raw rc0 db index (dt_entry tx') = Some (db', Inr None) \<and>
    rdb_tx_lookup reg raw raft2 db' tx2 (path_bytes p) k = Some (Inr (RVal v))"
proof -
  have p: "path \<noteq> []" "length (path_enc path) \<le> rdb_iov_max" "path_bytes p = path_enc path"
    using assms(3,4) by (auto simp: aop_ok_def path_ok_def path_enc_def)
  obtain a where a: "spec_tx K [AUpdate path k v] index (atree K db) = Some (a, Inr None)"
    "spec_lookup K path k a = Some (Inr (KBytes v))"
    using spec_update_tx [OF assms(1,10,9) p(1) assms(7,8)] by blast
  obtain db' where db': "rdb_tx_apply reg raw rc0 db index (ops_enc [AUpdate path k v]) = Some (db', Inr None)"
    "tree_ok K db'" "atree K db' = a"
    using rdb_tx_apply_ok [OF assms(1,2) _ a(1)] assms(4) by auto
  have "map_option (map_res (aval K)) (rdb_tx_lookup reg raw raft2 db' tx2 (path_enc path) k) = Some (Inr (KBytes v))"
    using rdb_tx_lookup_ok [OF db'(2) assms(2) p(1,2) assms(11)] a(2) db'(3) by blast
  then show ?thesis
    using db'(1) append_update_ops [OF assms(3,5,6)] p(3) by (auto simp: map_res_Inr dest: aval_KBytes [OF sym])
qed


text \<open>
  Creating a store under a key that already has one is no error: the old store, with all that
  is in it, is replaced by an empty one.
\<close>

theorem rdb_create_replaces_store:
  assumes "tree_ok K db" "reg_ok reg" "aop_ok (ACreate path k cls order)"
    and "awalk K (norm_path path @ [k]) (atree K db) = Some (Inr (KMap c m))" "aclass cls (unat order) = Inr c'"
  shows "\<exists>db'. rdb_tx_apply_op reg raw db (aop_enc (ACreate path k cls order)) = Some (Inr db') \<and>
    awalk K (norm_path path @ [k]) (atree K db') = Some (Inr (KMap c' Map.empty))"
proof -
  have "\<exists>a'. amod K ks (acreate K k cls order) a = Some (Inr a') \<and>
      awalk K (ks @ [k]) a' = Some (Inr (KMap c' Map.empty)) \<and> (\<exists>d n. a' = KMap d n)"
    if "awalk K (ks @ [k]) a = Some (Inr (KMap c m))" for ks a
    using that
  proof (induction ks arbitrary: a)
    case Nil
    then obtain b where "aopen K a k = Some (Inr b)" by (auto split: option.splits sum.splits)
    then show ?case using assms(5) by (auto simp: aopen_Inr acreate_def)
  next
    case (Cons x xs)
    then obtain b where b: "aopen K a x = Some (Inr b)" "awalk K (xs @ [k]) b = Some (Inr (KMap c m))"
      by (auto split: option.splits sum.splits)
    from Cons.IH [OF b(2)] b(1) show ?case by (force simp: aopen_Inr map_res_def)
  qed
  from this [OF assms(4)] obtain a' where a': "spec_op K (ACreate path k cls order) (atree K db) = Some (Inr a')"
    "awalk K (norm_path path @ [k]) a' = Some (Inr (KMap c' Map.empty))" by auto
  from rdb_tx_apply_op_refines [OF assms(1-3) a'(1), of raw] a'(2) show ?thesis by auto
qed

section \<open>Instances\<close>

definition keys0 :: "bytes set" where
  "keys0 = {rdb_attr_root, rdb_attr_applied, [1]}"

definition reg0 :: btr_registry where
  "reg0 = [DBTREE_CLASS_KV \<mapsto> 0, DBTREE_CLASS_IV \<mapsto> 0]"

definition db0 :: rdb_tree where
  "db0 = KvTree (kv_root 4 0 0 None)"

definition raw0 :: "bytes \<Rightarrow> rdb_tree res" where
  "raw0 bs = Inl DER_INVAL"

text \<open>Databases with an empty root store, and with an integer store in the root store.\<close>

definition db1 :: rdb_tree where
  "db1 = KvTree (kv_root 4 1 0 (Some (Leaf [(kv_hkey_gen rdb_attr_root, Kv_rec (RKv 16 0 0 None) rdb_attr_root)])))"

definition db2 :: rdb_tree where
  "db2 = KvTree (kv_root 4 1 0 (Some (Leaf [(kv_hkey_gen rdb_attr_root,
     Kv_rec (RKv 16 1 0 (Some (Leaf [(kv_hkey_gen [1], Kv_rec (RIv 16 0 0 None) [1])]))) rdb_attr_root)])))"

lemma hkeys0:
  "kv_hkey_gen rdb_attr_root \<noteq> kv_hkey_gen rdb_attr_applied" "kv_hkey_gen rdb_attr_root \<noteq> kv_hkey_gen [1]"
  "kv_hkey_gen rdb_attr_applied \<noteq> kv_hkey_gen [1]"
proof -
  have fin: "kv_hkey_gen x \<noteq> kv_hkey_gen y"
    if "daos_hash_murmur64 x 609815 = mur_final a" "daos_hash_murmur64 y 609815 = mur_final b" "a \<noteq> b" for x y a b
    using that by (metis bytes_u64_u64_bytes kv_hkey_gen_def mur_final_inj)
  have s: "daos_hash_murmur64 rdb_attr_root 609815 = mur_final (mur_rest (mur_init rdb_attr_root 609815) rdb_attr_root)"
    "daos_hash_murmur64 [1] 609815 = mur_final (mur_rest (mur_init [1] 609815) [1])"
    "daos_hash_murmur64 rdb_attr_applied 609815 =
       mur_final (mur_mix (mur_init rdb_attr_applied 609815) (bytes_u64 rdb_attr_applied))"
    by (simp_all add: murmur64_short murmur64_word rdb_attr_root_def rdb_attr_applied_def)
  show "kv_hkey_gen rdb_attr_root \<noteq> kv_hkey_gen rdb_attr_applied"
    by (rule fin [OF s(1,3)]) (simp add: mur_eval rdb_attr_root_def rdb_attr_applied_def)
  show "kv_hkey_gen rdb_attr_root \<noteq> kv_hkey_gen [1]"
    by (rule fin [OF s(1,2)]) (simp add: mur_eval rdb_attr_root_def)
  show "kv_hkey_gen rdb_attr_applied \<noteq> kv_hkey_gen [1]"
    by (rule fin [OF s(3,2)]) (simp add: mur_eval rdb_attr_applied_def)
qed

lemma good_keys0: "good_keys keys0"
  using hkeys0 by (auto simp: good_keys_def keys0_def inj_on_def rdb_attr_root_def rdb_attr_applied_def)

lemma reg_ok0: "reg_ok reg0"
  by (simp add: reg_ok_def reg0_def class_nums)


lemma store_ok0:
  "val_ok keys0 (RIv 16 0 0 None)" "val_ok keys0 (RKv 16 0 0 None)"
  "val_ok keys0 (RKv 16 1 0 (Some (Leaf [(kv_hkey_gen [1], Kv_rec (RIv 16 0 0 None) [1])])))"
  by (auto intro!: val_ok_kv val_ok_iv simp: kv_root_def iv_root_def kv_inv_def iv_inv_def btr_inv_def btr_recs_def
      BTR_ORDER_MIN_def keys0_def)

lemma db_ok1: "tree_ok keys0 db1" "atree keys0 db1 = KMap GENERIC [rdb_attr_root \<mapsto> KMap GENERIC Map.empty]"
  using good_keys0 store_ok0 hkeys0
  by (auto simp: db1_def tree_ok_Kv kv_root_def kv_inv_def btr_inv_def btr_recs_def BTR_ORDER_MIN_def kv_map_def
      atree_def fun_eq_iff keys0_def kv_node_map_def node_recs_def)

lemma db_ok2: "tree_ok keys0 db2"
  "atree keys0 db2 = KMap GENERIC [rdb_attr_root \<mapsto> KMap GENERIC [[1] \<mapsto> KMap INTEGER Map.empty]]"
  using good_keys0 store_ok0 hkeys0
  by (auto simp: db2_def tree_ok_Kv kv_root_def kv_inv_def btr_inv_def btr_recs_def BTR_ORDER_MIN_def kv_map_def
      atree_def fun_eq_iff keys0_def kv_node_map_def iv_node_map_def node_recs_def)

lemma tree_cls0: "tree_cls db0 = GENERIC" "tree_cls db1 = GENERIC"
  by (simp_all add: db0_def db1_def)

lemmas aop_ok0 = aop_ok_def op_ok_def opc_defs rdb_iov_max_def path_enc_def rdb_path_root_key_def

lemma keys0_mem [simp]: "rdb_attr_root \<in> keys0" "rdb_attr_applied \<in> keys0" "[1] \<in> keys0"
  by (simp_all add: keys0_def)

definition raft0 :: raft_view where
  "raft0 = \<lparr>raft_is_leader = True, raft_current_term = 1\<rparr>"

definition tx0 :: rdb_tx where
  "tx0 = \<lparr>dt_term = 1, dt_entry = [], dt_entry_cap = 0\<rparr>"

lemma leader0: "rdb_tx_leader_check raft0 tx0 = None"
  by (simp add: rdb_tx_leader_check_def raft0_def tx0_def)


theorem rdb_tx_apply_frame_witness:
  "\<exists>db'. rdb_tx_apply reg0 raw0 None db1 7 (ops_enc [AUpdate [[]] [1] [2]]) = Some (db', Inr None) \<and>
    map_option (map_res (aval keys0)) (rdb_tx_lookup reg0 raw0 raft0 db' tx0 (path_enc [[]]) rdb_attr_applied) =
    map_option (map_res (aval keys0)) (rdb_tx_lookup reg0 raw0 raft0 db1 tx0 (path_enc [[]]) rdb_attr_applied)"
proof -
  have ok: "\<forall>op\<in>set [AUpdate [[]] [1] [2]]. aop_ok op" by (simp add: aop_ok0)
  have sp: "spec_tx keys0 [AUpdate [[]] [1] [2]] 7 (atree keys0 db1) =
      Some (KMap GENERIC [rdb_attr_root \<mapsto> KMap GENERIC [[1] \<mapsto> KBytes [2]], rdb_attr_applied \<mapsto> KBytes (u64_bytes 7)],
        Inr None)"
    by (simp add: db_ok1 spec_tx_def aupdate_def map_res_def rdb_path_root_key_def)
  obtain db' where db': "rdb_tx_apply reg0 raw0 None db1 7 (ops_enc [AUpdate [[]] [1] [2]]) = Some (db', Inr None)"
    using rdb_tx_apply_ok [OF db_ok1(1) reg_ok0 ok sp] by blast
  have l: "spec_lookup keys0 [[]] rdb_attr_applied (atree keys0 db1) = Some (Inl DER_NONEXIST)"
    by (simp add: db_ok1 spec_lookup_def rdb_path_root_key_def)
  show ?thesis
    using rdb_tx_apply_frame [OF db_ok1(1) reg_ok0 ok sp db' _ _ leader0 l] db'
    by (simp add: path_enc_def rdb_iov_max_def apart_def rdb_path_root_key_def rdb_attr_applied_def rdb_attr_root_def)
qed

theorem rdb_committed_update_witness:
  "\<exists>tx' db'. rdb_tx_update raft0 tx0 \<lparr>path_bytes = path_enc [[]], path_cap = 8\<rparr> [1] [2] = Some (Inr tx') \<and>
    rdb_tx_apply reg0 raw0 None db1 7 (dt_entry tx') = Some (db', Inr None) \<and>
    rdb_tx_lookup reg0 raw0 raft0 db' tx0 (path_enc [[]]) [1] = Some (Inr (RVal [2]))"
proof -
  have p: "path_ok [[]] \<lparr>path_bytes = path_enc [[]], path_cap = 8\<rparr>"
    by (simp add: path_ok_def path_enc_def rdb_iov_max_def)
  have ok: "aop_ok (AUpdate [[]] [1] [2])" by (simp add: aop_ok0)
  obtain tx' where tx': "rdb_tx_update raft0 tx0 \<lparr>path_bytes = path_enc [[]], path_cap = 8\<rparr> [1] [2] = Some (Inr tx')"
    using rdb_tx_append_ok [of "[]" tx0 "aop_enc (AUpdate [[]] [1] [2])" raft0] ok leader0
    by (auto simp: rdb_tx_update_def tx_ops_def tx0_def aop_ok_def)
  have w: "awalk keys0 (norm_path [[]]) (atree keys0 db1) = Some (Inr (KMap GENERIC Map.empty))"
    by (simp add: db_ok1 rdb_path_root_key_def)
  from rdb_committed_update_is_read [OF db_ok1(1) reg_ok0 p ok tx' _ w _ _ tree_cls0(2) leader0, of raw0 None 7]
  show ?thesis using tx' by (simp add: tx0_def rdb_path_root_key_def)
qed


end
