(* ===== verification/Cont_Epoch.thy ===== *)
theory Cont_Epoch
  imports Btree_Class
begin

text \<open>
  Epochs of a container (\<^verbatim>\<open>src/container/srv_epoch.c\<close>): the counters of the lowest referenced and the
  lowest held epochs, the global epoch attributes, and the handlers that hold, slip, discard and commit
  epochs. Definitions only.

  The handlers run in a transaction of the replicated database: queries see the committed state, and
  updates are queued (\<open>cont_upd list\<close>) until the commit. The container's attributes are a record; the
  two counter stores are trees of the integer class, since the order of their keys matters. The
  handlers run on the leader, so that the database accepts their queries and updates.
\<close>

type_synonym uuid = bytes
type_synonym ec_kvs = "(bytes, bytes iv_rec) btr_root"


definition DAOS_COO_RW :: u64 where "DAOS_COO_RW = 2"
definition DAOS_COO_NOSLIP :: u64 where "DAOS_COO_NOSLIP = 4"

unbundle bit_operations_syntax

definition has_capa :: "u64 \<Rightarrow> u64 \<Rightarrow> bool" where
  "has_capa capas c \<longleftrightarrow> capas AND c \<noteq> 0"

record container_hdl =
  ch_pool_hdl :: uuid
  ch_cont :: uuid
  ch_hce :: u64
  ch_lre :: u64
  ch_lhe :: u64
  ch_capas :: u64

text \<open>A container as the transaction sees it; an attribute may be absent.\<close>

record cont =
  c_uuid :: uuid
  c_ghce :: "u64 option"
  c_ghpce :: "u64 option"
  c_lres :: ec_kvs
  c_lhes :: ec_kvs

datatype ec_type = EC_LRE | EC_LHE

fun ec_type2kvs :: "cont \<Rightarrow> ec_type \<Rightarrow> ec_kvs" where
  "ec_type2kvs cont EC_LRE = c_lres cont"
| "ec_type2kvs cont EC_LHE = c_lhes cont"

text \<open>The updates that a handler queues.\<close>

datatype cont_upd =
    UPD_HDL uuid container_hdl
  | DEL_HDL uuid
  | UPD_EC uuid ec_type u64 u64
  | DEL_EC uuid ec_type u64
  | UPD_GHCE uuid u64
  | UPD_GHPCE uuid u64
  | CREATE_CONT uuid
  | DESTROY_CONT uuid

type_synonym cont_tx = "cont_upd list"

section \<open>Epoch counters\<close>

definition ec_lookup :: "ec_kvs \<Rightarrow> u64 \<Rightarrow> u64 res" where
  "ec_lookup kvs epoch =
     (case dbtree_lookup dbtree_iv_ops kvs (u64_bytes epoch) of
        Inl e \<Rightarrow> if e = DER_NONEXIST then Inr 0 else Inl e
      | Inr val \<Rightarrow> Inr (bytes_u64 val))"

definition ec_increment :: "cont_tx \<Rightarrow> cont \<Rightarrow> ec_type \<Rightarrow> u64 \<Rightarrow> cont_tx res" where
  "ec_increment tx cont type epoch =
     (case ec_lookup (ec_type2kvs cont type) epoch of
        Inl e \<Rightarrow> Inl e
      | Inr c \<Rightarrow>
         (let c_new = c + 1 in
          if c_new < c then Inl DER_OVERFLOW
          else Inr (tx @ [UPD_EC (c_uuid cont) type epoch c_new])))"

definition ec_decrement :: "cont_tx \<Rightarrow> cont \<Rightarrow> ec_type \<Rightarrow> u64 \<Rightarrow> cont_tx res" where
  "ec_decrement tx cont type epoch =
     (case ec_lookup (ec_type2kvs cont type) epoch of
        Inl e \<Rightarrow> Inl e
      | Inr c \<Rightarrow>
         (let c_new = c - 1 in
          if c_new > c then Inl DER_OVERFLOW
          else if c_new = 0 then Inr (tx @ [DEL_EC (c_uuid cont) type epoch])
          else Inr (tx @ [UPD_EC (c_uuid cont) type epoch c_new])))"

definition ec_find_lowest :: "cont \<Rightarrow> ec_type \<Rightarrow> u64 res" where
  "ec_find_lowest cont type =
     (case dbtree_fetch dbtree_iv_ops (ec_type2kvs cont type) BTR_PROBE_FIRST None of
        Inl e \<Rightarrow> Inl e
      | Inr (key, val) \<Rightarrow> Inr (bytes_u64 (the key)))"

text \<open>The argument of the callback: the lowest epoch found, if any (\<^verbatim>\<open>eda_found\<close>).\<close>

definition ec_decrement_iter_cb :: "u64 \<Rightarrow> bytes \<Rightarrow> bytes \<Rightarrow> u64 option \<Rightarrow> cb_rc \<times> u64 option" where
  "ec_decrement_iter_cb decremented key val arg =
     (if bytes_u64 key = decremented \<and> bytes_u64 val = 1 then (CB_CONTINUE, arg)
      else (CB_STOP, Some (bytes_u64 key)))"

text \<open>
  \<^verbatim>\<open>ec_update_and_find_lowest\<close>: the transaction and the lowest epoch afterwards, \<open>None\<close> where the store
  becomes empty.
\<close>

definition ec_lowest_after_dec :: "cont \<Rightarrow> ec_type \<Rightarrow> u64 \<Rightarrow> u64 option res" where
  "ec_lowest_after_dec cont type dec =
     (case dbtree_iterate dbtree_iv_ops (ec_type2kvs cont type) False (ec_decrement_iter_cb dec) None of
        Some (Some e, arg) \<Rightarrow> Inl e
      | Some (None, arg) \<Rightarrow> Inr arg
      | None \<Rightarrow> Inl DER_UNKNOWN)"

definition ec_update_and_find_lowest ::
  "cont_tx \<Rightarrow> cont \<Rightarrow> ec_type \<Rightarrow> u64 option \<Rightarrow> u64 option \<Rightarrow> (cont_tx \<times> u64 option) res" where
  "ec_update_and_find_lowest tx cont type dec inc =
     (case (case dec of
              Some d \<Rightarrow>
                (case ec_decrement tx cont type d of
                   Inl e \<Rightarrow> Inl e
                 | Inr tx' \<Rightarrow>
                    (case ec_lowest_after_dec cont type d of
                       Inl e \<Rightarrow> Inl e
                     | Inr lowest \<Rightarrow> Inr (tx', lowest)))
            | None \<Rightarrow>
                (case ec_find_lowest cont type of
                   Inl e \<Rightarrow> if e = DER_NONEXIST then Inr (tx, None) else Inl e
                 | Inr lowest \<Rightarrow> Inr (tx, Some lowest))) of
        Inl e \<Rightarrow> Inl e
      | Inr (tx', lowest) \<Rightarrow>
         (case inc of
            None \<Rightarrow> Inr (tx', lowest)
          | Some i \<Rightarrow>
             (case ec_increment tx' cont type i of
                Inl e \<Rightarrow> Inl e
              | Inr tx'' \<Rightarrow>
                  Inr (tx'', Some (case lowest of None \<Rightarrow> i | Some l \<Rightarrow> if l > i then i else l)))))"

section \<open>Epoch attributes\<close>

record epoch_attr =
  ea_ghce :: u64
  ea_ghpce :: u64
  ea_glre :: u64
  ea_glhe :: u64

record daos_epoch_state =
  es_hce :: u64
  es_lre :: u64
  es_lhe :: u64
  es_ghce :: u64
  es_glre :: u64
  es_ghpce :: u64

definition find_lowest_or_max :: "cont \<Rightarrow> ec_type \<Rightarrow> u64 res" where
  "find_lowest_or_max cont type =
     (case ec_find_lowest cont type of
        Inl e \<Rightarrow> if e = DER_NONEXIST then Inr DAOS_EPOCH_MAX else Inl e
      | Inr l \<Rightarrow> Inr l)"

definition read_epoch_attr :: "cont \<Rightarrow> epoch_attr res" where
  "read_epoch_attr cont =
     (case c_ghce cont of
        None \<Rightarrow> Inl DER_NONEXIST
      | Some ghce \<Rightarrow>
         (case c_ghpce cont of
            None \<Rightarrow> Inl DER_NONEXIST
          | Some ghpce \<Rightarrow>
             (case find_lowest_or_max cont EC_LRE of
                Inl e \<Rightarrow> Inl e
              | Inr glre \<Rightarrow>
                 (case find_lowest_or_max cont EC_LHE of
                    Inl e \<Rightarrow> Inl e
                  | Inr glhe \<Rightarrow> Inr \<lparr>ea_ghce = ghce, ea_ghpce = ghpce, ea_glre = glre, ea_glhe = glhe\<rparr>))))"

text \<open>
  What surrounds the handlers: whether implicit purging is on (an environment variable), and the
  outcomes of the broadcasts to the targets, \<open>None\<close> for success.
\<close>

record cont_env =
  ce_implicit_purge :: bool
  ce_aggregate :: "u64 \<Rightarrow> u64 \<Rightarrow> der option"
  ce_discard :: "uuid \<Rightarrow> u64 \<Rightarrow> der option"
  ce_open :: "uuid \<Rightarrow> u64 \<Rightarrow> der option"
  ce_close :: "(uuid \<times> u64) list \<Rightarrow> der option"
  ce_destroy :: "uuid \<Rightarrow> der option"
  ce_query :: "der option"

definition trigger_aggregation :: "cont_env \<Rightarrow> u64 \<Rightarrow> u64 \<Rightarrow> u64 \<Rightarrow> der option" where
  "trigger_aggregation env glre glre_curr ghce =
     (if glre_curr > glre then ce_aggregate env 0 (min glre_curr ghce) else None)"

text \<open>Whether the checks pass.\<close>

definition check_global_epoch_invariant :: "epoch_attr \<Rightarrow> bool" where
  "check_global_epoch_invariant attr \<longleftrightarrow>
     ea_ghce attr \<le> ea_ghpce attr \<and>
     (ea_glhe attr = DAOS_EPOCH_MAX \<or> ea_glhe attr > ea_ghce attr)"

definition check_epoch_invariant :: "epoch_attr \<Rightarrow> container_hdl \<Rightarrow> bool" where
  "check_epoch_invariant attr hdl \<longleftrightarrow>
     check_global_epoch_invariant attr \<and> ch_hce hdl < ch_lhe hdl \<and> ea_glre attr \<le> ch_lre hdl \<and>
     ea_ghce attr < ch_lhe hdl \<and> ea_ghpce attr \<ge> ch_hce hdl"

definition set_epoch_state :: "epoch_attr \<Rightarrow> container_hdl \<Rightarrow> daos_epoch_state" where
  "set_epoch_state attr hdl =
     \<lparr>es_hce = ch_hce hdl, es_lre = ch_lre hdl, es_lhe = ch_lhe hdl, es_ghce = ea_ghce attr,
      es_glre = ea_glre attr, es_ghpce = ea_ghpce attr\<rparr>"

definition update_ghce :: "cont_tx \<Rightarrow> cont \<Rightarrow> epoch_attr \<Rightarrow> (cont_tx \<times> epoch_attr) res" where
  "update_ghce tx cont attr =
     (let ghce = min (ea_ghpce attr) (ea_glhe attr - 1) in
      if ghce < ea_ghce attr then Inl DER_IO
      else if ghce = ea_ghce attr then Inr (tx, attr)
      else Inr (tx @ [UPD_GHCE (c_uuid cont) ghce], attr\<lparr>ea_ghce := ghce\<rparr>))"

section \<open>Handles\<close>

text \<open>
  \<^verbatim>\<open>ds_cont_epoch_init_hdl\<close>: the transaction, the handle and the reply. The lowest epochs exist, since
  one has just been counted.
\<close>

definition ds_cont_epoch_init_hdl ::
  "cont_tx \<Rightarrow> cont \<Rightarrow> container_hdl \<Rightarrow> (cont_tx \<times> container_hdl \<times> daos_epoch_state) res" where
  "ds_cont_epoch_init_hdl tx cont hdl =
     (case read_epoch_attr cont of
        Inl e \<Rightarrow> Inl e
      | Inr attr \<Rightarrow>
         if \<not> check_global_epoch_invariant attr then Inl DER_IO
         else (let hdl' = hdl\<lparr>ch_hce := ea_ghce attr, ch_lre := ea_ghce attr, ch_lhe := DAOS_EPOCH_MAX\<rparr> in
               case ec_update_and_find_lowest tx cont EC_LRE None (Some (ch_lre hdl')) of
                 Inl e \<Rightarrow> Inl e
               | Inr (tx1, glre) \<Rightarrow>
                  (case ec_update_and_find_lowest tx1 cont EC_LHE None (Some (ch_lhe hdl')) of
                     Inl e \<Rightarrow> Inl e
                   | Inr (tx2, glhe) \<Rightarrow>
                      (let attr' = attr\<lparr>ea_glre := the glre, ea_glhe := the glhe\<rparr> in
                       if \<not> check_epoch_invariant attr' hdl' then Inl DER_IO
                       else Inr (tx2, hdl', set_epoch_state attr' hdl')))))"

definition ds_cont_epoch_fini_hdl :: "cont_env \<Rightarrow> cont_tx \<Rightarrow> cont \<Rightarrow> container_hdl \<Rightarrow> cont_tx res" where
  "ds_cont_epoch_fini_hdl env tx cont hdl =
     (case read_epoch_attr cont of
        Inl e \<Rightarrow> Inl e
      | Inr attr \<Rightarrow>
         if \<not> check_epoch_invariant attr hdl then Inl DER_IO
         else (case ec_update_and_find_lowest tx cont EC_LRE (Some (ch_lre hdl)) None of
                 Inl e \<Rightarrow> Inl e
               | Inr (tx1, glre) \<Rightarrow>
                  (case ec_update_and_find_lowest tx1 cont EC_LHE (Some (ch_lhe hdl)) None of
                     Inl e \<Rightarrow> Inl e
                   | Inr (tx2, glhe) \<Rightarrow>
                      (let or_max = (\<lambda>l. case l of None \<Rightarrow> DAOS_EPOCH_MAX | Some x \<Rightarrow> x);
                           attr' = attr\<lparr>ea_glre := or_max glre, ea_glhe := or_max glhe\<rparr>
                       in case update_ghce tx2 cont attr' of
                            Inl e \<Rightarrow> Inl e
                          | Inr (tx3, attr'') \<Rightarrow>
                             if \<not> check_global_epoch_invariant attr'' then Inl DER_IO
                             else (case (if ce_implicit_purge env
                                         then trigger_aggregation env (ea_glre attr) (ea_glre attr'') (ea_ghce attr'')
                                         else None) of
                                     Some e \<Rightarrow> Inl e
                                   | None \<Rightarrow> Inr tx3)))))"

section \<open>Handlers\<close>

text \<open>A handler that succeeds returns the transaction, the handle and the reply.\<close>

type_synonym epoch_out = "(cont_tx \<times> container_hdl \<times> daos_epoch_state) res"

definition ds_cont_epoch_read_state :: "cont \<Rightarrow> container_hdl \<Rightarrow> daos_epoch_state res" where
  "ds_cont_epoch_read_state cont hdl =
     (case read_epoch_attr cont of Inl e \<Rightarrow> Inl e | Inr attr \<Rightarrow> Inr (set_epoch_state attr hdl))"

definition ds_cont_epoch_query :: "cont_tx \<Rightarrow> cont \<Rightarrow> container_hdl \<Rightarrow> epoch_out" where
  "ds_cont_epoch_query tx cont hdl =
     (case read_epoch_attr cont of
        Inl e \<Rightarrow> Inl e
      | Inr attr \<Rightarrow>
         if \<not> check_epoch_invariant attr hdl then Inl DER_IO
         else Inr (tx, hdl, set_epoch_state attr hdl))"

definition ds_cont_epoch_hold :: "cont_tx \<Rightarrow> cont \<Rightarrow> uuid \<Rightarrow> container_hdl \<Rightarrow> u64 \<Rightarrow> epoch_out" where
  "ds_cont_epoch_hold tx cont ci_hdl hdl cei_epoch =
     (if \<not> has_capa (ch_capas hdl) DAOS_COO_RW then Inl DER_NO_PERM
      else if cei_epoch > DAOS_EPOCH_MAX then Inl DER_OVERFLOW
      else (case read_epoch_attr cont of
              Inl e \<Rightarrow> Inl e
            | Inr attr \<Rightarrow>
               if \<not> check_epoch_invariant attr hdl then Inl DER_IO
               else (let lhe = ch_lhe hdl;
                         lhe' = (if cei_epoch = 0 then ea_ghpce attr + 1
                                 else if cei_epoch \<le> ea_ghce attr then ea_ghce attr + 1
                                 else cei_epoch);
                         hdl' = hdl\<lparr>ch_lhe := lhe'\<rparr>
                     in if lhe' = lhe then Inr (tx, hdl', set_epoch_state attr hdl')
                        else (case ec_update_and_find_lowest (tx @ [UPD_HDL ci_hdl hdl']) cont EC_LHE (Some lhe)
                                     (Some lhe') of
                                Inl e \<Rightarrow> Inl e
                              | Inr (tx1, glhe) \<Rightarrow>
                                 (let attr1 = attr\<lparr>ea_glhe := the glhe\<rparr> in
                                  case (if lhe' > lhe then update_ghce tx1 cont attr1 else Inr (tx1, attr1)) of
                                    Inl e \<Rightarrow> Inl e
                                  | Inr (tx2, attr2) \<Rightarrow>
                                     if \<not> check_epoch_invariant attr2 hdl' then Inl DER_IO
                                     else Inr (tx2, hdl', set_epoch_state attr2 hdl'))))))"

definition ds_cont_epoch_slip ::
  "cont_env \<Rightarrow> cont_tx \<Rightarrow> cont \<Rightarrow> uuid \<Rightarrow> container_hdl \<Rightarrow> u64 \<Rightarrow> epoch_out" where
  "ds_cont_epoch_slip env tx cont ci_hdl hdl cei_epoch =
     (if cei_epoch \<ge> DAOS_EPOCH_MAX then Inl DER_OVERFLOW
      else (case read_epoch_attr cont of
              Inl e \<Rightarrow> Inl e
            | Inr attr \<Rightarrow>
               if \<not> check_epoch_invariant attr hdl then Inl DER_IO
               else (let lre = ch_lre hdl;
                         hdl' = (if cei_epoch < ch_lre hdl then hdl else hdl\<lparr>ch_lre := cei_epoch\<rparr>)
                     in if ch_lre hdl' = lre then Inr (tx, hdl', set_epoch_state attr hdl')
                        else (case ec_update_and_find_lowest (tx @ [UPD_HDL ci_hdl hdl']) cont EC_LRE (Some lre)
                                     (Some (ch_lre hdl')) of
                                Inl e \<Rightarrow> Inl e
                              | Inr (tx1, glre) \<Rightarrow>
                                 (let attr1 = attr\<lparr>ea_glre := the glre\<rparr> in
                                  if \<not> check_epoch_invariant attr1 hdl' then Inl DER_IO
                                  else (case trigger_aggregation env (ea_glre attr) (ea_glre attr1) (ea_ghce attr1) of
                                          Some e \<Rightarrow> Inl e
                                        | None \<Rightarrow> Inr (tx1, hdl', set_epoch_state attr1 hdl')))))))"

definition ds_cont_epoch_discard ::
  "cont_env \<Rightarrow> cont_tx \<Rightarrow> cont \<Rightarrow> uuid \<Rightarrow> container_hdl \<Rightarrow> u64 \<Rightarrow> epoch_out" where
  "ds_cont_epoch_discard env tx cont ci_hdl hdl cei_epoch =
     (if \<not> has_capa (ch_capas hdl) DAOS_COO_RW then Inl DER_NO_PERM
      else if cei_epoch \<ge> DAOS_EPOCH_MAX then Inl DER_OVERFLOW
      else if cei_epoch < ch_lhe hdl then Inl DER_EP_RO
      else (case read_epoch_attr cont of
              Inl e \<Rightarrow> Inl e
            | Inr attr \<Rightarrow>
               if \<not> check_epoch_invariant attr hdl then Inl DER_IO
               else (case ce_discard env ci_hdl cei_epoch of
                       Some e \<Rightarrow> Inl e
                     | None \<Rightarrow> Inr (tx, hdl, set_epoch_state attr hdl))))"

definition ds_cont_epoch_commit ::
  "cont_env \<Rightarrow> cont_tx \<Rightarrow> cont \<Rightarrow> uuid \<Rightarrow> container_hdl \<Rightarrow> u64 \<Rightarrow> epoch_out" where
  "ds_cont_epoch_commit env tx cont ci_hdl hdl cei_epoch =
     (if \<not> has_capa (ch_capas hdl) DAOS_COO_RW then Inl DER_NO_PERM
      else if cei_epoch \<ge> DAOS_EPOCH_MAX then Inl DER_OVERFLOW
      else (case read_epoch_attr cont of
              Inl e \<Rightarrow> Inl e
            | Inr attr \<Rightarrow>
               if \<not> check_epoch_invariant attr hdl then Inl DER_IO
               else if cei_epoch \<le> ch_hce hdl then Inr (tx, hdl, set_epoch_state attr hdl)
               else if cei_epoch < ch_lhe hdl then Inl DER_EP_RO
               else (let slip = \<not> has_capa (ch_capas hdl) DAOS_COO_NOSLIP;
                         hdl1 = hdl\<lparr>ch_hce := cei_epoch, ch_lhe := cei_epoch + 1\<rparr>;
                         hdl' = (if slip then hdl1\<lparr>ch_lre := cei_epoch\<rparr> else hdl1)
                     in case ec_update_and_find_lowest (tx @ [UPD_HDL ci_hdl hdl']) cont EC_LHE
                               (Some (ch_lhe hdl)) (Some (ch_lhe hdl')) of
                          Inl e \<Rightarrow> Inl e
                        | Inr (tx1, glhe) \<Rightarrow>
                           (let attr1 = attr\<lparr>ea_glhe := the glhe\<rparr> in
                            case (if slip
                                  then (case ec_update_and_find_lowest tx1 cont EC_LRE (Some (ch_lre hdl))
                                               (Some (ch_lre hdl')) of
                                          Inl e \<Rightarrow> Inl e
                                        | Inr (tx2, glre) \<Rightarrow> Inr (tx2, attr1\<lparr>ea_glre := the glre\<rparr>))
                                  else Inr (tx1, attr1)) of
                              Inl e \<Rightarrow> Inl e
                            | Inr (tx2, attr2) \<Rightarrow>
                               (let (tx3, attr3) =
                                  (if ch_hce hdl' > ea_ghpce attr2
                                   then (tx2 @ [UPD_GHPCE (c_uuid cont) (ch_hce hdl')], attr2\<lparr>ea_ghpce := ch_hce hdl'\<rparr>)
                                   else (tx2, attr2))
                                in case update_ghce tx3 cont attr3 of
                                     Inl e \<Rightarrow> Inl e
                                   | Inr (tx4, attr4) \<Rightarrow>
                                      if \<not> check_epoch_invariant attr4 hdl' then Inl DER_IO
                                      else (case (if ce_implicit_purge env
                                                  then trigger_aggregation env (ea_glre attr) (ea_glre attr4) (ea_ghce attr4)
                                                  else None) of
                                              Some e \<Rightarrow> Inl e
                                            | None \<Rightarrow> Inr (tx4, hdl', set_epoch_state attr4 hdl')))))))"

end
