(* ===== verification/Cont_Svc.thy ===== *)
theory Cont_Svc
  imports Cont_Epoch
begin

text \<open>
  The container service (\<^verbatim>\<open>src/container/srv_container.c\<close>): creating, destroying, opening and closing
  containers, and the dispatch of a request to its handler, in one transaction of the replicated
  database per request. Definitions only.

  The stores of the service are maps, as the database promises. \<open>CREATE_CONT\<close> stands for the updates
  that create the attribute store of a container with its two epochs and its counter stores, and
  \<open>DESTROY_CONT\<close> for those that destroy them; the store of snapshots, which nothing reads, is left out.
\<close>

record cont_svc =
  cs_conts :: "uuid \<Rightarrow> cont option"
  cs_hdls :: "uuid \<Rightarrow> container_hdl option"

definition DAOS_PC_RW :: u64 where "DAOS_PC_RW = 2"
definition DAOS_PC_EX :: u64 where "DAOS_PC_EX = 4"

record ds_pool_hdl =
  sph_uuid :: uuid
  sph_capas :: u64

section \<open>Applying the queued updates\<close>

definition empty_ec :: ec_kvs where
  "empty_ec = btr_root_init 24 0 16"

definition new_cont :: "uuid \<Rightarrow> cont" where
  "new_cont uuid = \<lparr>c_uuid = uuid, c_ghce = Some 0, c_ghpce = Some 0, c_lres = empty_ec, c_lhes = empty_ec\<rparr>"

fun set_ec :: "cont \<Rightarrow> ec_type \<Rightarrow> ec_kvs \<Rightarrow> cont" where
  "set_ec cont EC_LRE kvs = cont\<lparr>c_lres := kvs\<rparr>"
| "set_ec cont EC_LHE kvs = cont\<lparr>c_lhes := kvs\<rparr>"

definition with_cont :: "cont_svc \<Rightarrow> uuid \<Rightarrow> (cont \<Rightarrow> cont res) \<Rightarrow> cont_svc res" where
  "with_cont svc uuid f =
     (case cs_conts svc uuid of
        None \<Rightarrow> Inl DER_NONEXIST
      | Some cont \<Rightarrow>
         (case f cont of
            Inl e \<Rightarrow> Inl e
          | Inr cont' \<Rightarrow> Inr (svc\<lparr>cs_conts := (cs_conts svc)(uuid \<mapsto> cont')\<rparr>)))"

fun apply_upd :: "cont_svc \<Rightarrow> cont_upd \<Rightarrow> cont_svc res" where
  "apply_upd svc (UPD_HDL u hdl) = Inr (svc\<lparr>cs_hdls := (cs_hdls svc)(u \<mapsto> hdl)\<rparr>)"
| "apply_upd svc (DEL_HDL u) =
     (if cs_hdls svc u = None then Inl DER_NONEXIST else Inr (svc\<lparr>cs_hdls := (cs_hdls svc)(u := None)\<rparr>))"
| "apply_upd svc (UPD_EC c type epoch n) =
     with_cont svc c (\<lambda>cont.
       case dbtree_update dbtree_iv_ops (ec_type2kvs cont type) (u64_bytes epoch) (u64_bytes n) of
         Inl e \<Rightarrow> Inl e | Inr kvs \<Rightarrow> Inr (set_ec cont type kvs))"
| "apply_upd svc (DEL_EC c type epoch) =
     with_cont svc c (\<lambda>cont.
       case dbtree_delete dbtree_iv_ops (ec_type2kvs cont type) (u64_bytes epoch) of
         Inl e \<Rightarrow> Inl e | Inr kvs \<Rightarrow> Inr (set_ec cont type kvs))"
| "apply_upd svc (UPD_GHCE c ghce) = with_cont svc c (\<lambda>cont. Inr (cont\<lparr>c_ghce := Some ghce\<rparr>))"
| "apply_upd svc (UPD_GHPCE c ghpce) = with_cont svc c (\<lambda>cont. Inr (cont\<lparr>c_ghpce := Some ghpce\<rparr>))"
| "apply_upd svc (CREATE_CONT c) = Inr (svc\<lparr>cs_conts := (cs_conts svc)(c \<mapsto> new_cont c)\<rparr>)"
| "apply_upd svc (DESTROY_CONT c) =
     (if cs_conts svc c = None then Inl DER_NONEXIST else Inr (svc\<lparr>cs_conts := (cs_conts svc)(c := None)\<rparr>))"

fun apply_upds :: "cont_svc \<Rightarrow> cont_tx \<Rightarrow> cont_svc res" where
  "apply_upds svc [] = Inr svc"
| "apply_upds svc (u # us) = (case apply_upd svc u of Inl e \<Rightarrow> Inl e | Inr svc' \<Rightarrow> apply_upds svc' us)"

section \<open>Requests\<close>

definition cont_create :: "ds_pool_hdl \<Rightarrow> cont_svc \<Rightarrow> uuid \<Rightarrow> cont_tx res" where
  "cont_create pool_hdl svc uuid =
     (if \<not> has_capa (sph_capas pool_hdl) DAOS_PC_RW \<and> \<not> has_capa (sph_capas pool_hdl) DAOS_PC_EX
      then Inl DER_NO_PERM
      else if cs_conts svc uuid \<noteq> None then Inr []
      else Inr [CREATE_CONT uuid])"

text \<open>The request's flag \<^verbatim>\<open>cdi_force\<close> is not read.\<close>

definition cont_destroy :: "cont_env \<Rightarrow> ds_pool_hdl \<Rightarrow> cont_svc \<Rightarrow> uuid \<Rightarrow> bool \<Rightarrow> cont_tx res" where
  "cont_destroy env pool_hdl svc uuid cdi_force =
     (if \<not> has_capa (sph_capas pool_hdl) DAOS_PC_RW \<and> \<not> has_capa (sph_capas pool_hdl) DAOS_PC_EX
      then Inl DER_NO_PERM
      else if cs_conts svc uuid = None then Inr []
      else (case ce_destroy env uuid of
              Some e \<Rightarrow> Inl e
            | None \<Rightarrow> Inr [DESTROY_CONT uuid]))"

definition cont_lookup :: "cont_svc \<Rightarrow> uuid \<Rightarrow> cont res" where
  "cont_lookup svc uuid = (case cs_conts svc uuid of None \<Rightarrow> Inl DER_NONEXIST | Some cont \<Rightarrow> Inr cont)"

definition hdl_init :: container_hdl where
  "hdl_init = \<lparr>ch_pool_hdl = [], ch_cont = [], ch_hce = 0, ch_lre = 0, ch_lhe = 0, ch_capas = 0\<rparr>"

definition cont_open :: "cont_env \<Rightarrow> ds_pool_hdl \<Rightarrow> cont_svc \<Rightarrow> cont \<Rightarrow> uuid \<Rightarrow> u64 \<Rightarrow> cont_tx res" where
  "cont_open env pool_hdl svc cont ci_hdl coi_capas =
     (if has_capa coi_capas DAOS_COO_RW \<and> \<not> has_capa (sph_capas pool_hdl) DAOS_PC_RW \<and>
         \<not> has_capa (sph_capas pool_hdl) DAOS_PC_EX
      then Inl DER_NO_PERM
      else (case cs_hdls svc ci_hdl of
              Some chdl \<Rightarrow> if ch_capas chdl \<noteq> coi_capas then Inl DER_EXIST else Inr []
            | None \<Rightarrow>
               (case ce_open env ci_hdl coi_capas of
                  Some e \<Rightarrow> Inl e
                | None \<Rightarrow>
                   (let chdl = hdl_init\<lparr>ch_pool_hdl := sph_uuid pool_hdl, ch_cont := c_uuid cont, ch_capas := coi_capas\<rparr>
                    in case ds_cont_epoch_init_hdl [] cont chdl of
                         Inl e \<Rightarrow> Inl e
                       | Inr (tx, chdl', state) \<Rightarrow> Inr (tx @ [UPD_HDL ci_hdl chdl'])))))"

definition cont_close_one_hdl :: "cont_env \<Rightarrow> cont_svc \<Rightarrow> uuid \<Rightarrow> cont_tx res" where
  "cont_close_one_hdl env svc uuid =
     (case cs_hdls svc uuid of
        None \<Rightarrow> Inl DER_NONEXIST
      | Some chdl \<Rightarrow>
         (case cont_lookup svc (ch_cont chdl) of
            Inl e \<Rightarrow> Inl e
          | Inr cont \<Rightarrow>
             (case ds_cont_epoch_fini_hdl env [] cont chdl of
                Inl e \<Rightarrow> Inl e
              | Inr tx \<Rightarrow> Inr (tx @ [DEL_HDL uuid]))))"

definition cont_close :: "cont_env \<Rightarrow> cont_svc \<Rightarrow> uuid \<Rightarrow> cont_tx res" where
  "cont_close env svc ci_hdl =
     (case cs_hdls svc ci_hdl of
        None \<Rightarrow> Inr []
      | Some chdl \<Rightarrow>
         (case ce_close env [(ci_hdl, ch_hce chdl)] of
            Some e \<Rightarrow> Inl e
          | None \<Rightarrow> cont_close_one_hdl env svc ci_hdl))"

text \<open>\<^verbatim>\<open>cont_close_hdls\<close>: one transaction per handle; the first error ends the loop.\<close>

fun close_hdls_loop :: "cont_env \<Rightarrow> cont_svc \<Rightarrow> (uuid \<times> u64) list \<Rightarrow> der option \<times> cont_svc" where
  "close_hdls_loop env svc [] = (None, svc)"
| "close_hdls_loop env svc (rec # recs) =
     (case cont_close_one_hdl env svc (fst rec) of
        Inl e \<Rightarrow> (Some e, svc)
      | Inr tx \<Rightarrow>
         (case apply_upds svc tx of
            Inl e \<Rightarrow> (Some e, svc)
          | Inr svc' \<Rightarrow> close_hdls_loop env svc' recs))"

definition cont_close_hdls :: "cont_env \<Rightarrow> cont_svc \<Rightarrow> (uuid \<times> u64) list \<Rightarrow> der option \<times> cont_svc" where
  "cont_close_hdls env svc recs =
     (case ce_close env recs of Some e \<Rightarrow> (Some e, svc) | None \<Rightarrow> close_hdls_loop env svc recs)"

text \<open>
  Closing all handles that belong to some pool connections. The argument \<open>hdls\<close> is what an iteration over
  the store of handles visits, in its order. The records found are kept in an array of \<open>cia_recs_size\<close>
  bytes, 24 for each record.
\<close>

fun shall_close :: "uuid \<Rightarrow> uuid list \<Rightarrow> bool" where
  "shall_close pool_hdl [] = False"
| "shall_close pool_hdl (p # pool_hdls) = (if p = pool_hdl then True else shall_close pool_hdl pool_hdls)"

record close_iter_arg =
  cia_recs :: "(uuid \<times> u64) list"
  cia_recs_size :: nat

definition TCR_SIZE :: nat where "TCR_SIZE = 24"

definition close_iter_cb :: "uuid list \<Rightarrow> uuid \<Rightarrow> container_hdl \<Rightarrow> close_iter_arg \<Rightarrow> close_iter_arg" where
  "close_iter_cb pool_hdls key hdl arg =
     (if \<not> shall_close (ch_pool_hdl hdl) pool_hdls then arg
      else (let n = length (cia_recs arg);
                arg' = (if TCR_SIZE * (n + 1) > cia_recs_size arg then arg\<lparr>cia_recs_size := cia_recs_size arg * 2\<rparr>
                        else arg)
            in arg'\<lparr>cia_recs := cia_recs arg @ [(key, ch_hce hdl)]\<rparr>))"

definition find_hdls_to_close :: "(uuid \<times> container_hdl) list \<Rightarrow> uuid list \<Rightarrow> close_iter_arg" where
  "find_hdls_to_close hdls pool_hdls =
     fold (\<lambda>(key, hdl). close_iter_cb pool_hdls key hdl) hdls \<lparr>cia_recs = [], cia_recs_size = 4096\<rparr>"

definition ds_cont_close_by_pool_hdls ::
  "cont_env \<Rightarrow> bool \<Rightarrow> cont_svc \<Rightarrow> (uuid \<times> container_hdl) list \<Rightarrow> uuid list \<Rightarrow> der option \<times> cont_svc" where
  "ds_cont_close_by_pool_hdls env up svc hdls pool_hdls =
     (if \<not> up then (Some DER_NOTLEADER, svc)
      else (let recs = cia_recs (find_hdls_to_close hdls pool_hdls) in
            if recs \<noteq> [] then cont_close_hdls env svc recs else (None, svc)))"

definition cont_query :: "cont_env \<Rightarrow> cont \<Rightarrow> container_hdl \<Rightarrow> daos_epoch_state res" where
  "cont_query env cont hdl =
     (case ce_query env of Some e \<Rightarrow> Inl e | None \<Rightarrow> ds_cont_epoch_read_state cont hdl)"

section \<open>Dispatch\<close>

datatype hdl_req =
    CONT_QUERY
  | CONT_EPOCH_QUERY
  | CONT_EPOCH_HOLD u64
  | CONT_EPOCH_SLIP u64
  | CONT_EPOCH_DISCARD u64
  | CONT_EPOCH_COMMIT u64

datatype cont_req =
    CONT_CREATE uuid
  | CONT_DESTROY uuid bool
  | CONT_OPEN uuid uuid u64
  | CONT_CLOSE uuid uuid
  | CONT_HDL uuid uuid hdl_req

fun cont_op_with_hdl :: "cont_env \<Rightarrow> cont \<Rightarrow> uuid \<Rightarrow> container_hdl \<Rightarrow> hdl_req \<Rightarrow> cont_tx res" where
  "cont_op_with_hdl env cont ci_hdl hdl CONT_QUERY =
     (case cont_query env cont hdl of Inl e \<Rightarrow> Inl e | Inr state \<Rightarrow> Inr [])"
| "cont_op_with_hdl env cont ci_hdl hdl CONT_EPOCH_QUERY =
     (case ds_cont_epoch_query [] cont hdl of Inl e \<Rightarrow> Inl e | Inr (tx, hdl', state) \<Rightarrow> Inr tx)"
| "cont_op_with_hdl env cont ci_hdl hdl (CONT_EPOCH_HOLD epoch) =
     (case ds_cont_epoch_hold [] cont ci_hdl hdl epoch of Inl e \<Rightarrow> Inl e | Inr (tx, hdl', state) \<Rightarrow> Inr tx)"
| "cont_op_with_hdl env cont ci_hdl hdl (CONT_EPOCH_SLIP epoch) =
     (case ds_cont_epoch_slip env [] cont ci_hdl hdl epoch of Inl e \<Rightarrow> Inl e | Inr (tx, hdl', state) \<Rightarrow> Inr tx)"
| "cont_op_with_hdl env cont ci_hdl hdl (CONT_EPOCH_DISCARD epoch) =
     (case ds_cont_epoch_discard env [] cont ci_hdl hdl epoch of Inl e \<Rightarrow> Inl e | Inr (tx, hdl', state) \<Rightarrow> Inr tx)"
| "cont_op_with_hdl env cont ci_hdl hdl (CONT_EPOCH_COMMIT epoch) =
     (case ds_cont_epoch_commit env [] cont ci_hdl hdl epoch of Inl e \<Rightarrow> Inl e | Inr (tx, hdl', state) \<Rightarrow> Inr tx)"

text \<open>Note that the handle need not be one of the container named in the request.\<close>

definition cont_op_with_cont :: "cont_env \<Rightarrow> cont_svc \<Rightarrow> cont \<Rightarrow> uuid \<Rightarrow> hdl_req \<Rightarrow> cont_tx res" where
  "cont_op_with_cont env svc cont ci_hdl req =
     (case cs_hdls svc ci_hdl of
        None \<Rightarrow> Inl DER_NO_HDL
      | Some hdl \<Rightarrow> cont_op_with_hdl env cont ci_hdl hdl req)"

definition cont_op :: "cont_env \<Rightarrow> ds_pool_hdl \<Rightarrow> cont_svc \<Rightarrow> cont_req \<Rightarrow> cont_tx res" where
  "cont_op env pool_hdl svc req =
     (case req of
        CONT_CREATE uuid \<Rightarrow> cont_create pool_hdl svc uuid
      | CONT_DESTROY uuid force \<Rightarrow> cont_destroy env pool_hdl svc uuid force
      | CONT_OPEN uuid ci_hdl capas \<Rightarrow>
          (case cont_lookup svc uuid of Inl e \<Rightarrow> Inl e | Inr cont \<Rightarrow> cont_open env pool_hdl svc cont ci_hdl capas)
      | CONT_CLOSE uuid ci_hdl \<Rightarrow>
          (case cont_lookup svc uuid of Inl e \<Rightarrow> Inl e | Inr cont \<Rightarrow> cont_close env svc ci_hdl)
      | CONT_HDL uuid ci_hdl hreq \<Rightarrow>
          (case cont_lookup svc uuid of Inl e \<Rightarrow> Inl e | Inr cont \<Rightarrow> cont_op_with_cont env svc cont ci_hdl hreq))"

text \<open>\<^verbatim>\<open>cont_op_with_svc\<close>: the return code and the committed state; an error discards the transaction.\<close>

definition cont_op_with_svc :: "cont_env \<Rightarrow> ds_pool_hdl \<Rightarrow> cont_svc \<Rightarrow> cont_req \<Rightarrow> der option \<times> cont_svc" where
  "cont_op_with_svc env pool_hdl svc req =
     (case cont_op env pool_hdl svc req of
        Inl e \<Rightarrow> (Some e, svc)
      | Inr tx \<Rightarrow> (case apply_upds svc tx of Inl e \<Rightarrow> (Some e, svc) | Inr svc' \<Rightarrow> (None, svc')))"

end
