(* ===== verification/Epoch_Counters.thy ===== *)
theory Epoch_Counters
  imports Cont_Svc
begin

text \<open>
  The epoch counter stores: what they count, and which epoch is found as the lowest one.
\<close>

section \<open>The contract of a counter store\<close>

locale counter_store =
  fixes get :: "'s \<Rightarrow> u64 \<Rightarrow> u64 res"
    and put :: "'s \<Rightarrow> u64 \<Rightarrow> u64 \<Rightarrow> 's res"
    and del :: "'s \<Rightarrow> u64 \<Rightarrow> 's res"
    and inv :: "'s \<Rightarrow> bool"
    and count_of :: "'s \<Rightarrow> u64 \<Rightarrow> nat"
  assumes get: "inv s \<Longrightarrow> \<exists>c. get s e = Inr c \<and> unat c = count_of s e"
    and put: "inv s \<Longrightarrow> n \<noteq> 0 \<Longrightarrow>
      \<exists>s'. put s e n = Inr s' \<and> inv s' \<and> count_of s' = (count_of s)(e := unat n)"
    and del: "inv s \<Longrightarrow> count_of s e \<noteq> 0 \<Longrightarrow>
      \<exists>s'. del s e = Inr s' \<and> inv s' \<and> count_of s' = (count_of s)(e := 0)"
begin

text \<open>Adding one to what was read before, and taking one off, in the way of the program.\<close>

lemma add_one:
  assumes "inv s" "get s e = Inr c" "\<not> c + 1 < c"
  shows "c + 1 \<noteq> 0" "unat (c + 1) = Suc (count_of s e)"
proof -
  show c: "c + 1 \<noteq> 0"
  proof
    assume "c + 1 = 0"
    then have "c = - 1" by (simp add: eq_neg_iff_add_eq_0)
    then show False using assms(3) by (simp add: word_gt_0)
  qed
  show "unat (c + 1) = Suc (count_of s e)"
    using get [OF assms(1), of e] assms(2) c by (simp add: unatSuc add.commute)
qed

lemma take_one:
  assumes "inv s" "get s e = Inr c" "\<not> c - 1 > c"
  shows "0 < count_of s e" "unat (c - 1) = count_of s e - 1" "c - 1 = 0 \<longleftrightarrow> count_of s e = 1"
proof -
  have c: "c \<noteq> 0" using assms(3) by (auto simp: word_gt_0)
  have u: "unat c = count_of s e" using get [OF assms(1), of e] assms(2) by simp
  show p: "0 < count_of s e" using c u by (metis gr0I unat_eq_0)
  show m: "unat (c - 1) = count_of s e - 1" using u c by (simp add: unat_minus_one)
  show "c - 1 = 0 \<longleftrightarrow> count_of s e = 1"
    using m p unat_eq_0 [of "c - 1"] by auto
qed

end

section \<open>The counters of a tree of the integer class\<close>

definition ctr :: "ec_kvs \<Rightarrow> u64 \<Rightarrow> nat" where
  "ctr kvs e = (case iv_map kvs (u64_bytes e) of None \<Rightarrow> 0 | Some b \<Rightarrow> unat (bytes_u64 b))"

definition ec_ok :: "ec_kvs \<Rightarrow> bool" where
  "ec_ok kvs \<longleftrightarrow> iv_inv kvs \<and> (\<forall>k b. iv_map kvs k = Some b \<longrightarrow> length b = 8 \<and> bytes_u64 b \<noteq> 0)"

definition ec_put :: "ec_kvs \<Rightarrow> u64 \<Rightarrow> u64 \<Rightarrow> ec_kvs res" where
  "ec_put kvs e n = dbtree_update dbtree_iv_ops kvs (u64_bytes e) (u64_bytes n)"

definition ec_del :: "ec_kvs \<Rightarrow> u64 \<Rightarrow> ec_kvs res" where
  "ec_del kvs e = dbtree_delete dbtree_iv_ops kvs (u64_bytes e)"

lemma ec_lookup_ok:
  assumes "ec_ok kvs"
  shows "\<exists>c. ec_lookup kvs e = Inr c \<and> unat c = ctr kvs e"
  using assms iv.lookup_ok [of kvs "u64_bytes e"]
  by (auto simp: ec_lookup_def ctr_def ec_ok_def iv_tree split: option.splits)

lemma ec_put_ok:
  assumes "ec_ok kvs" "n \<noteq> 0"
  shows "\<exists>kvs'. ec_put kvs e n = Inr kvs' \<and> ec_ok kvs' \<and> ctr kvs' = (ctr kvs)(e := unat n)"
  using assms iv.update_ok [of kvs "u64_bytes e" "u64_bytes n"]
  by (auto simp: ec_put_def ctr_def ec_ok_def iv_tree fun_eq_iff)

lemma ec_del_ok:
  assumes "ec_ok kvs" "ctr kvs e \<noteq> 0"
  shows "\<exists>kvs'. ec_del kvs e = Inr kvs' \<and> ec_ok kvs' \<and> ctr kvs' = (ctr kvs)(e := 0)"
proof -
  have "iv_map kvs (u64_bytes e) \<noteq> None" using assms(2) by (auto simp: ctr_def split: option.splits)
  then show ?thesis
    using assms(1) iv.delete_ok [of kvs "u64_bytes e"]
    by (auto simp: ec_del_def ctr_def ec_ok_def iv_tree fun_eq_iff)
qed

interpretation ecs: counter_store ec_lookup ec_put ec_del ec_ok ctr
  by unfold_locales (fact ec_lookup_ok ec_put_ok ec_del_ok)+

lemma empty_ec_ok: "ec_ok empty_ec" "ctr empty_ec e = 0"
  by (simp_all add: ec_ok_def empty_ec_def btr_root_init_def iv_inv_def iv_map_def btr_inv_def btr_recs_def ctr_def
      BTR_ORDER_MIN_def)

section \<open>The order of epochs\<close>

text \<open>
  The tree orders epochs by their bytes, least significant byte first. This is the order of the
  numbers for the epochs below 256 and the greatest epoch, which stands for no hold.
\<close>

definition small :: "u64 \<Rightarrow> bool" where
  "small e \<longleftrightarrow> e < 256 \<or> e = DAOS_EPOCH_MAX"

lemma le_bytes_0: "le_bytes k 0 = replicate k 0"
  by (induction k) auto

lemma le_bytes_max: "le_bytes k (256 ^ k - 1) = replicate k 255"
proof (induction k)
  case (Suc k)
  have "256 ^ Suc k - 1 = 256 * (256 ^ k - 1) + (255 :: nat)"
    by (simp add: diff_mult_distrib2)
  then have "(256 ^ Suc k - 1) mod 256 = (255 :: nat)" "(256 ^ Suc k - 1) div 256 = (256 ^ k - 1 :: nat)"
    by simp_all
  then show ?case using Suc by (simp del: power_Suc)
qed simp

lemma u64_bytes_small: "e < 256 \<Longrightarrow> u64_bytes e = word_of_nat (unat e) # replicate 7 0"
proof -
  assume "e < 256"
  then have "unat e < 256" by (simp add: word_less_nat_alt)
  then show ?thesis using le_bytes.simps(2) [of 7 "unat e"] by (simp add: u64_bytes_def le_bytes_0)
qed

lemma u64_bytes_max: "u64_bytes DAOS_EPOCH_MAX = replicate 8 255"
proof -
  have "unat DAOS_EPOCH_MAX = 256 ^ 8 - 1"
    by (simp add: DAOS_EPOCH_MAX_def unsigned_minus_1_eq_mask mask_eq_exp_minus_1)
  then show ?thesis using le_bytes_max [of 8] by (simp add: u64_bytes_def)
qed

lemma replicate_0_less: "0 < k \<Longrightarrow> replicate k (0 :: u8) < replicate k 255"
  by (cases k) auto

lemma small_order:
  assumes "small x" "small y"
  shows "u64_bytes x < u64_bytes y \<longleftrightarrow> x < y"
proof -
  have byte: "unat (word_of_nat (unat e) :: u8) = unat e" "unat e < 256" if "e < 256" for e :: u64
    using that by (simp_all add: word_less_nat_alt unsigned_ucast_eq take_bit_nat_eq_self_iff)
  have max: "e < DAOS_EPOCH_MAX" "\<not> DAOS_EPOCH_MAX < e" if "e < 256" for e
    using that by (auto simp: DAOS_EPOCH_MAX_def word_less_nat_alt unsigned_minus_1_eq_mask mask_eq_exp_minus_1)
  have top8: "replicate 8 (255 :: u8) = 255 # replicate 7 255" by (simp add: numeral_eq_Suc)
  consider "x < 256" "y < 256" | "x < 256" "y = DAOS_EPOCH_MAX" | "x = DAOS_EPOCH_MAX" "y < 256"
    | "x = DAOS_EPOCH_MAX" "y = DAOS_EPOCH_MAX"
    using assms by (auto simp: small_def)
  then show ?thesis
  proof cases
    case 1
    then show ?thesis
      using byte by (simp add: u64_bytes_small word_less_nat_alt word_unat_eq_iff)
  next
    case 2
    have "word_of_nat (unat x) \<le> (255 :: u8)" using byte [OF 2(1)] by (simp add: word_le_nat_alt)
    then show ?thesis
      using 2 max replicate_0_less [of 7] by (auto simp: u64_bytes_small u64_bytes_max top8 order_le_less)
  next
    case 3
    have "word_of_nat (unat y) \<le> (255 :: u8)" using byte [OF 3(2)] by (simp add: word_le_nat_alt)
    then show ?thesis
      using 3 max replicate_0_less [of 7] by (auto simp: u64_bytes_small u64_bytes_max top8 order_le_less)
  next
    case 4
    then show ?thesis by simp
  qed
qed

section \<open>The lowest epoch\<close>

definition epochs :: "ec_kvs \<Rightarrow> u64 list" where
  "epochs kvs = map (\<lambda>x. bytes_u64 (fst x)) (btr_recs kvs)"

text \<open>The least epoch that is counted.\<close>

definition low :: "(u64 \<Rightarrow> nat) \<Rightarrow> u64 option" where
  "low C = (if {e. 0 < C e} = {} then None else Some (Min {e. 0 < C e}))"

lemma recs_ctr:
  assumes "ec_ok kvs" "(h, r) \<in> set (btr_recs kvs)"
  shows "u64_bytes (bytes_u64 h) = h" "ctr kvs (bytes_u64 h) = unat (bytes_u64 (ir_value r))" "0 < ctr kvs (bytes_u64 h)"
proof -
  show h: "u64_bytes (bytes_u64 h) = h" using assms by (auto simp: ec_ok_def iv_inv_def intro: u64_bytes_bytes_u64)
  have "distinct (map fst (btr_recs kvs))"
    using assms(1) btr_inv_sorted by (auto simp: ec_ok_def iv_inv_def strict_sorted_iff)
  then have "map_of (btr_recs kvs) h = Some r" using assms(2) by simp
  moreover have "length h = 8" using assms by (auto simp: ec_ok_def iv_inv_def)
  ultimately have m: "iv_map kvs h = Some (ir_value r)" by (simp add: iv_map_def)
  then show "ctr kvs (bytes_u64 h) = unat (bytes_u64 (ir_value r))" by (simp add: ctr_def h)
  then show "0 < ctr kvs (bytes_u64 h)" using assms(1) m by (auto simp: ec_ok_def unat_gt_0)
qed

lemma set_epochs:
  assumes "ec_ok kvs"
  shows "set (epochs kvs) = {e. 0 < ctr kvs e}"
proof (intro equalityI subsetI)
  fix e assume "e \<in> set (epochs kvs)"
  then show "e \<in> {e. 0 < ctr kvs e}" using recs_ctr(3) [OF assms] by (auto simp: epochs_def)
next
  fix e assume "e \<in> {e. 0 < ctr kvs e}"
  then obtain r where "(u64_bytes e, r) \<in> set (btr_recs kvs)"
    by (auto simp: ctr_def iv_map_def split: option.splits if_splits dest: map_of_SomeD)
  then have "bytes_u64 (u64_bytes e) \<in> set (epochs kvs)" unfolding epochs_def by (metis (no_types, lifting) fst_conv image_eqI list.set_map)
  then show "e \<in> set (epochs kvs)" by simp
qed

lemma sorted_epochs:
  assumes "ec_ok kvs" "\<And>e. 0 < ctr kvs e \<Longrightarrow> small e"
  shows "sorted_wrt (<) (epochs kvs)"
proof -
  have s: "sorted_wrt (\<lambda>x y. fst x < fst y) (btr_recs kvs)"
    using assms(1) btr_inv_sorted by (auto simp: ec_ok_def iv_inv_def sorted_wrt_map)
  have "bytes_u64 (fst x) < bytes_u64 (fst y)"
    if "x \<in> set (btr_recs kvs)" "y \<in> set (btr_recs kvs)" "fst x < fst y" for x y
    using that recs_ctr [OF assms(1), of "fst x" "snd x"] recs_ctr [OF assms(1), of "fst y" "snd y"]
      small_order [of "bytes_u64 (fst x)" "bytes_u64 (fst y)"] assms(2) by simp
  then show ?thesis unfolding epochs_def sorted_wrt_map using s by (rule sorted_wrt_mono_rel)
qed

lemma find_sorted:
  fixes xs :: "u64 list"
  assumes "sorted_wrt (<) xs"
  shows "find P xs = (if {x \<in> set xs. P x} = {} then None else Some (Min {x \<in> set xs. P x}))"
  using assms
proof (induction xs)
  case (Cons x xs)
  show ?case
  proof (cases "P x")
    case True
    then have "Min {y \<in> set (x # xs). P y} = x"
      using Cons.prems by (intro Min_eqI) auto
    then show ?thesis using True by auto
  next
    case False
    then have "{y \<in> set (x # xs). P y} = {y \<in> set xs. P y}" by auto
    then show ?thesis using Cons False by auto
  qed
qed simp

lemma ec_find_lowest_hd:
  assumes "ec_ok (ec_type2kvs cont t)"
  shows "ec_find_lowest cont t =
    (case find (\<lambda>e. True) (epochs (ec_type2kvs cont t)) of None \<Rightarrow> Inl DER_NONEXIST | Some e \<Rightarrow> Inr e)"
proof -
  let ?kvs = "ec_type2kvs cont t"
  have inv: "btr_inv ?kvs" using assms by (simp add: ec_ok_def iv_inv_def)
  show ?thesis
  proof (cases "tr_node ?kvs")
    case None
    then show ?thesis
      by (simp add: ec_find_lowest_def dbtree_fetch_def btr_probe_def epochs_def btr_recs_def btr_probe_is_public_def)
  next
    case (Some nd)
    obtain tr where "btr_probe dbtree_iv_ops ?kvs BTR_PROBE_FIRST None None = (PROBE_RC_OK, tr)"
      "inorder nd = btr_trace2rec tr # after tr" by (rule probe_first_ok [OF inv Some])
    then show ?thesis
      using Some
      by (simp add: ec_find_lowest_def dbtree_fetch_def btr_probe_is_public_def epochs_def btr_recs_def class_defs
          case_prod_beta)
  qed
qed

lemma iterate_dec:
  assumes "ec_ok kvs" "set recs \<subseteq> set (btr_recs kvs)"
  shows "iterate_spec (ec_decrement_iter_cb d) (map (fetch_rec dbtree_iv_ops) recs) None =
    (None, find (\<lambda>e. \<not> (e = d \<and> ctr kvs e = 1)) (map (\<lambda>x. bytes_u64 (fst x)) recs))"
  using assms(2)
proof (induction recs)
  case (Cons x recs)
  have "ctr kvs (bytes_u64 (fst x)) = 1 \<longleftrightarrow> bytes_u64 (ir_value (snd x)) = 1"
    using recs_ctr(2) [OF assms(1), of "fst x" "snd x"] Cons.prems
    by (simp add: word_unat_eq_iff)
  then show ?case using Cons by (auto simp: class_defs ec_decrement_iter_cb_def)
qed simp

lemma ec_lowest_after_dec_find:
  assumes "ec_ok (ec_type2kvs cont t)"
  shows "ec_lowest_after_dec cont t d =
    Inr (find (\<lambda>e. \<not> (e = d \<and> ctr (ec_type2kvs cont t) e = 1)) (epochs (ec_type2kvs cont t)))"
proof -
  have "btr_inv (ec_type2kvs cont t)" using assms by (simp add: ec_ok_def iv_inv_def)
  then show ?thesis
    using iterate_dec [OF assms order_refl, of d]
    by (simp add: ec_lowest_after_dec_def dbtree_iterate_ok epochs_def)
qed

text \<open>With the epochs in numerical order, the code finds the least one.\<close>

lemma ec_find_lowest_low:
  assumes "ec_ok (ec_type2kvs cont t)" "\<And>e. 0 < ctr (ec_type2kvs cont t) e \<Longrightarrow> small e"
  shows "ec_find_lowest cont t =
    (case low (ctr (ec_type2kvs cont t)) of None \<Rightarrow> Inl DER_NONEXIST | Some e \<Rightarrow> Inr e)"
  using find_sorted [OF sorted_epochs [OF assms], of "\<lambda>e. True"] set_epochs [OF assms(1)]
  by (simp add: ec_find_lowest_hd [OF assms(1)] low_def)

lemma ec_lowest_after_dec_low:
  assumes "ec_ok (ec_type2kvs cont t)" "\<And>e. 0 < ctr (ec_type2kvs cont t) e \<Longrightarrow> small e"
  shows "ec_lowest_after_dec cont t d =
    Inr (low ((ctr (ec_type2kvs cont t))(d := ctr (ec_type2kvs cont t) d - 1)))"
proof -
  let ?C = "ctr (ec_type2kvs cont t)"
  let ?P = "\<lambda>e. \<not> (e = d \<and> ?C e = 1)"
  have "{e \<in> set (epochs (ec_type2kvs cont t)). ?P e} = {e. 0 < (?C(d := ?C d - 1)) e}"
    unfolding set_epochs [OF assms(1)] by auto
  moreover have "find ?P (epochs (ec_type2kvs cont t)) =
      (if {e \<in> set (epochs (ec_type2kvs cont t)). ?P e} = {} then None
       else Some (Min {e \<in> set (epochs (ec_type2kvs cont t)). ?P e}))"
    by (rule find_sorted [OF sorted_epochs [OF assms]])
  ultimately show ?thesis unfolding ec_lowest_after_dec_find [OF assms(1)] low_def by (simp only:)
qed

end
