(* ===== verification/Cont_Inv.thy ===== *)
theory Cont_Inv
  imports Epoch_Counters
begin

text \<open>
  The invariant of the container service and its preservation by every request.
\<close>

section \<open>Queued updates\<close>

lemma all_ec_type: "(\<forall>t. P t) \<longleftrightarrow> P EC_LRE \<and> P EC_LHE"
  by (metis ec_type.exhaust)

lemma apply_upds_append:
  "apply_upds svc (us @ vs) = (case apply_upds svc us of Inl e \<Rightarrow> Inl e | Inr svc' \<Rightarrow> apply_upds svc' vs)"
  by (induction us arbitrary: svc) (auto split: sum.splits)

definition set_cont :: "cont_svc \<Rightarrow> cont \<Rightarrow> cont_svc" where
  "set_cont svc cont = svc\<lparr>cs_conts := (cs_conts svc)(c_uuid cont \<mapsto> cont)\<rparr>"

lemma c_uuid_set_ec [simp]: "c_uuid (set_ec cont t kvs) = c_uuid cont"
  by (cases t) auto

lemma ec_type2kvs_set_ec [simp]: "ec_type2kvs (set_ec cont t kvs) t' = (if t' = t then kvs else ec_type2kvs cont t')"
  by (cases t; cases t') auto

lemma set_ec_attrs [simp]:
  "c_ghce (set_ec cont t kvs) = c_ghce cont" "c_ghpce (set_ec cont t kvs) = c_ghpce cont"
  by (cases t; simp)+

lemma set_ec_set_ec [simp]: "set_ec (set_ec cont t kvs) t kvs' = set_ec cont t kvs'"
  by (cases t) auto

lemma set_cont_simps [simp]:
  "cs_hdls (set_cont svc cont) = cs_hdls svc" "cs_conts (set_cont svc cont) = (cs_conts svc)(c_uuid cont \<mapsto> cont)"
  "c_uuid cont' = c_uuid cont \<Longrightarrow> set_cont (set_cont svc cont) cont' = set_cont svc cont'"
  by (simp_all add: set_cont_def)

lemma apply_UPD_EC:
  assumes "cs_conts svc c = Some cont" "c_uuid cont = c" "ec_ok (ec_type2kvs cont t)" "n \<noteq> 0"
  shows "\<exists>kvs. apply_upd svc (UPD_EC c t e n) = Inr (set_cont svc (set_ec cont t kvs)) \<and> ec_ok kvs \<and>
    ctr kvs = (ctr (ec_type2kvs cont t))(e := unat n)"
  using ecs.put [OF assms(3,4), of e] assms(1,2) by (auto simp: with_cont_def ec_put_def set_cont_def)

lemma apply_DEL_EC:
  assumes "cs_conts svc c = Some cont" "c_uuid cont = c" "ec_ok (ec_type2kvs cont t)" "ctr (ec_type2kvs cont t) e \<noteq> 0"
  shows "\<exists>kvs. apply_upd svc (DEL_EC c t e) = Inr (set_cont svc (set_ec cont t kvs)) \<and> ec_ok kvs \<and>
    ctr kvs = (ctr (ec_type2kvs cont t))(e := 0)"
  using ecs.del [OF assms(3,4)] assms(1,2) by (auto simp: with_cont_def ec_del_def set_cont_def)

section \<open>Counting down and up\<close>

fun dec1 :: "u64 option \<Rightarrow> (u64 \<Rightarrow> nat) \<Rightarrow> u64 \<Rightarrow> nat" where
  "dec1 None C = C"
| "dec1 (Some d) C = C(d := C d - 1)"

fun inc1 :: "u64 option \<Rightarrow> (u64 \<Rightarrow> nat) \<Rightarrow> u64 \<Rightarrow> nat" where
  "inc1 None C = C"
| "inc1 (Some i) C = C(i := C i + 1)"

text \<open>Updates that turn the counters \<open>C\<close> of a store into \<open>C'\<close>.\<close>

definition ec_effect :: "uuid \<Rightarrow> ec_type \<Rightarrow> cont_tx \<Rightarrow> (u64 \<Rightarrow> nat) \<Rightarrow> (u64 \<Rightarrow> nat) \<Rightarrow> bool" where
  "ec_effect c t us C C' \<longleftrightarrow>
     (\<forall>svc cont. cs_conts svc c = Some cont \<longrightarrow> c_uuid cont = c \<longrightarrow> ec_ok (ec_type2kvs cont t) \<longrightarrow>
       ctr (ec_type2kvs cont t) = C \<longrightarrow>
       (\<exists>kvs. apply_upds svc us = Inr (set_cont svc (set_ec cont t kvs)) \<and> ec_ok kvs \<and> ctr kvs = C'))"

lemma ec_effect_Nil: "ec_effect c t [] C C"
proof -
  have "set_cont svc (set_ec cont t (ec_type2kvs cont t)) = svc"
    if "cs_conts svc c = Some cont" "c_uuid cont = c" for svc :: cont_svc and cont
    using that by (cases t) (auto simp: set_cont_def fun_upd_idem)
  then show ?thesis unfolding ec_effect_def by (metis apply_upds.simps(1))
qed

lemma ec_effect_append:
  assumes "ec_effect c t us C C'" "ec_effect c t vs C' C''"
  shows "ec_effect c t (us @ vs) C C''"
  unfolding ec_effect_def
proof (intro allI impI)
  fix svc :: cont_svc and cont
  assume c: "cs_conts svc c = Some cont" "c_uuid cont = c" "ec_ok (ec_type2kvs cont t)" "ctr (ec_type2kvs cont t) = C"
  obtain kvs where k: "apply_upds svc us = Inr (set_cont svc (set_ec cont t kvs))" "ec_ok kvs" "ctr kvs = C'"
    using assms(1) c unfolding ec_effect_def by blast
  have "\<exists>kvs'. apply_upds (set_cont svc (set_ec cont t kvs)) vs =
      Inr (set_cont (set_cont svc (set_ec cont t kvs)) (set_ec (set_ec cont t kvs) t kvs')) \<and> ec_ok kvs' \<and> ctr kvs' = C''"
    using assms(2) k c(2) unfolding ec_effect_def
    by (metis c_uuid_set_ec ec_type2kvs_set_ec fun_upd_same set_cont_simps(2))
  then show "\<exists>kvs. apply_upds svc (us @ vs) = Inr (set_cont svc (set_ec cont t kvs)) \<and> ec_ok kvs \<and> ctr kvs = C''"
    using k(1) by (auto simp: apply_upds_append)
qed

lemma ec_decrement_effect:
  assumes "ec_ok (ec_type2kvs cont t)" "ec_decrement tx cont t d = Inr tx'"
  shows "\<exists>us. tx' = tx @ us \<and> 0 < ctr (ec_type2kvs cont t) d \<and>
    ec_effect (c_uuid cont) t us (ctr (ec_type2kvs cont t)) (dec1 (Some d) (ctr (ec_type2kvs cont t)))"
proof -
  let ?C = "ctr (ec_type2kvs cont t)"
  obtain c where c: "ec_lookup (ec_type2kvs cont t) d = Inr c" using ecs.get [OF assms(1)] by blast
  have no: "\<not> c - 1 > c" using assms(2) c by (auto simp: ec_decrement_def Let_def split: if_splits)
  note t1 = ecs.take_one [OF assms(1) c no]
  show ?thesis
  proof (cases "c - 1 = 0")
    case True
    then have "tx' = tx @ [DEL_EC (c_uuid cont) t d]" using assms(2) c no by (simp add: ec_decrement_def Let_def)
    moreover have "ec_effect (c_uuid cont) t [DEL_EC (c_uuid cont) t d] ?C (?C(d := ?C d - 1))"
      using True t1 apply_DEL_EC [of _ "c_uuid cont" _ t d] by (fastforce simp: ec_effect_def)
    ultimately show ?thesis using t1(1) by auto
  next
    case False
    then have "tx' = tx @ [UPD_EC (c_uuid cont) t d (c - 1)]" using assms(2) c no by (simp add: ec_decrement_def Let_def)
    moreover have "ec_effect (c_uuid cont) t [UPD_EC (c_uuid cont) t d (c - 1)] ?C (?C(d := ?C d - 1))"
      using t1(2) apply_UPD_EC [OF _ _ _ False, of _ "c_uuid cont" _ t d] by (fastforce simp: ec_effect_def)
    ultimately show ?thesis using t1(1) by auto
  qed
qed

text \<open>
  The increment reads the counters \<open>C0\<close> that are committed, not what the transaction has queued, so
  that the epoch must not be one that was counted down before.
\<close>

lemma ec_increment_effect:
  assumes "ec_ok (ec_type2kvs cont t)" "ec_increment tx cont t i = Inr tx'" "C i = ctr (ec_type2kvs cont t) i"
  shows "\<exists>us. tx' = tx @ us \<and> ec_effect (c_uuid cont) t us C (inc1 (Some i) C)"
proof -
  obtain c where c: "ec_lookup (ec_type2kvs cont t) i = Inr c" using ecs.get [OF assms(1)] by blast
  have no: "\<not> c + 1 < c" using assms(2) c by (auto simp: ec_increment_def Let_def split: if_splits)
  note a1 = ecs.add_one [OF assms(1) c no]
  have "tx' = tx @ [UPD_EC (c_uuid cont) t i (c + 1)]" using assms(2) c no by (simp add: ec_increment_def Let_def)
  moreover have "ec_effect (c_uuid cont) t [UPD_EC (c_uuid cont) t i (c + 1)] C (C(i := C i + 1))"
    using a1(2) assms(3) apply_UPD_EC [OF _ _ _ a1(1), of _ "c_uuid cont" _ t i] by (fastforce simp: ec_effect_def)
  ultimately show ?thesis by auto
qed

lemma low_inc:
  "low (inc1 (Some i) C) = Some (case low C of None \<Rightarrow> i | Some l \<Rightarrow> if l > i then i else l)"
proof -
  define S where "S = {e. 0 < C e}"
  have s: "{e. 0 < inc1 (Some i) C e} = insert i S" by (auto simp: S_def)
  show ?thesis
    unfolding low_def s S_def [symmetric] by (cases "S = {}") (auto simp: Min_insert min_def simp del: Min_ge_iff Min_gr_iff Min_le_iff Min_less_iff)
qed

definition ec_small :: "ec_kvs \<Rightarrow> bool" where
  "ec_small kvs \<longleftrightarrow> ec_ok kvs \<and> (\<forall>e. 0 < ctr kvs e \<longrightarrow> small e)"

lemma ec_update_ok:
  assumes "ec_small (ec_type2kvs cont t)" "ec_update_and_find_lowest tx cont t dec inc = Inr (tx', l)"
    and "\<And>d. dec = Some d \<Longrightarrow> inc \<noteq> Some d"
  shows "\<exists>us. tx' = tx @ us \<and> l = low (inc1 inc (dec1 dec (ctr (ec_type2kvs cont t)))) \<and>
    (\<forall>d. dec = Some d \<longrightarrow> 0 < ctr (ec_type2kvs cont t) d) \<and>
    ec_effect (c_uuid cont) t us (ctr (ec_type2kvs cont t)) (inc1 inc (dec1 dec (ctr (ec_type2kvs cont t))))"
proof -
  let ?C = "ctr (ec_type2kvs cont t)"
  have ok: "ec_ok (ec_type2kvs cont t)" "\<And>e. 0 < ?C e \<Longrightarrow> small e" using assms(1) by (auto simp: ec_small_def)
  have "\<exists>us txd. txd = tx @ us \<and> (\<forall>d. dec = Some d \<longrightarrow> 0 < ?C d) \<and> ec_effect (c_uuid cont) t us ?C (dec1 dec ?C) \<and>
      (case inc of None \<Rightarrow> tx' = txd \<and> l = low (dec1 dec ?C)
       | Some i \<Rightarrow> ec_increment txd cont t i = Inr tx' \<and>
           l = Some (case low (dec1 dec ?C) of None \<Rightarrow> i | Some l \<Rightarrow> if l > i then i else l))"
  proof (cases dec)
    case None
    then show ?thesis
      using assms(2) ec_effect_Nil
      by (rule_tac exI [of _ "[]"], rule_tac exI [of _ tx]) (auto simp: ec_update_and_find_lowest_def ec_find_lowest_low [OF ok] split: option.splits sum.splits)
  next
    case (Some d)
    then obtain txd where d: "ec_decrement tx cont t d = Inr txd"
      using assms(2) by (auto simp: ec_update_and_find_lowest_def split: sum.splits)
    then show ?thesis
      using Some assms(2) ec_decrement_effect [OF ok(1) d]
      by (auto simp: ec_update_and_find_lowest_def ec_lowest_after_dec_low [OF ok] split: option.splits sum.splits)
  qed
  then obtain us txd where u: "txd = tx @ us" "\<forall>d. dec = Some d \<longrightarrow> 0 < ?C d"
    "ec_effect (c_uuid cont) t us ?C (dec1 dec ?C)"
    "case inc of None \<Rightarrow> tx' = txd \<and> l = low (dec1 dec ?C)
       | Some i \<Rightarrow> ec_increment txd cont t i = Inr tx' \<and>
           l = Some (case low (dec1 dec ?C) of None \<Rightarrow> i | Some l \<Rightarrow> if l > i then i else l)" by blast
  show ?thesis
  proof (cases inc)
    case None
    then show ?thesis using u by auto
  next
    case (Some i)
    have i: "dec1 dec ?C i = ?C i" using assms(3) Some by (cases dec) auto
    obtain vs where "tx' = txd @ vs" "ec_effect (c_uuid cont) t vs (dec1 dec ?C) (inc1 (Some i) (dec1 dec ?C))"
      using ec_increment_effect [of cont t txd i tx' "dec1 dec ?C", OF ok(1) _ i] u(4) Some by auto
    then show ?thesis
      using u Some ec_effect_append [OF u(3)] low_inc [of i "dec1 dec ?C"] by auto
  qed
qed

section \<open>The handles of a container\<close>

type_synonym hdls = "uuid \<Rightarrow> container_hdl option"

text \<open>How many handles of the container \<open>c\<close> have the value \<open>e\<close> in the field \<open>f\<close>.\<close>

definition hdl_count :: "hdls \<Rightarrow> uuid \<Rightarrow> (container_hdl \<Rightarrow> u64) \<Rightarrow> u64 \<Rightarrow> nat" where
  "hdl_count H c f e = card {u. \<exists>h. H u = Some h \<and> ch_cont h = c \<and> f h = e}"

lemma finite_hdls: "finite (dom H) \<Longrightarrow> finite {u. \<exists>h. H u = Some h \<and> P h}"
  by (rule finite_subset [of _ "dom H"]) auto

lemma hdl_count_add:
  assumes "finite (dom H)" "H u = None" "ch_cont h = c"
  shows "hdl_count (H(u \<mapsto> h)) c f = inc1 (Some (f h)) (hdl_count H c f)"
proof
  fix e
  have "{v. \<exists>k. (H(u \<mapsto> h)) v = Some k \<and> ch_cont k = c \<and> f k = e} =
      (if f h = e then insert u else id) {v. \<exists>k. H v = Some k \<and> ch_cont k = c \<and> f k = e}"
    using assms by (auto split: if_splits)
  then show "hdl_count (H(u \<mapsto> h)) c f e = inc1 (Some (f h)) (hdl_count H c f) e"
    using assms finite_hdls [OF assms(1)] by (simp add: hdl_count_def)
qed

lemma hdl_count_del:
  assumes "finite (dom H)" "H u = Some h" "ch_cont h = c"
  shows "hdl_count (H(u := None)) c f = dec1 (Some (f h)) (hdl_count H c f)"
proof
  fix e
  have "{v. \<exists>k. (H(u := None)) v = Some k \<and> ch_cont k = c \<and> f k = e} =
      {v. \<exists>k. H v = Some k \<and> ch_cont k = c \<and> f k = e} - (if f h = e then {u} else {})"
    using assms by (auto split: if_splits)
  then show "hdl_count (H(u := None)) c f e = dec1 (Some (f h)) (hdl_count H c f) e"
    using assms finite_hdls [OF assms(1)] by (simp add: hdl_count_def)
qed

lemma hdl_count_upd:
  assumes "finite (dom H)" "H u = Some h" "ch_cont h = c" "ch_cont h' = c"
  shows "hdl_count (H(u \<mapsto> h')) c f = inc1 (Some (f h')) (dec1 (Some (f h)) (hdl_count H c f))"
proof -
  have "H(u \<mapsto> h') = (H(u := None))(u \<mapsto> h')" by simp
  then show ?thesis
    using hdl_count_add [of "H(u := None)" u h' c f] hdl_count_del [OF assms(1-3), of f] assms by simp
qed

lemma hdl_count_pos:
  assumes "finite (dom H)"
  shows "0 < hdl_count H c f e \<longleftrightarrow> (\<exists>u h. H u = Some h \<and> ch_cont h = c \<and> f h = e)"
  using finite_hdls [OF assms] by (auto simp: hdl_count_def card_gt_0_iff)

lemma hdl_count_other:
  assumes "\<And>h. H u = Some h \<Longrightarrow> ch_cont h \<noteq> c" "\<And>h. x = Some h \<Longrightarrow> ch_cont h \<noteq> c"
  shows "hdl_count (H(u := x)) c f = hdl_count H c f"
  unfolding hdl_count_def fun_eq_iff using assms by (intro allI arg_cong [where f = card]) auto

lemma hdl_count_same:
  assumes "finite (dom H)" "H u = Some h" "ch_cont h = c" "ch_cont h' = c" "f h' = f h"
  shows "hdl_count (H(u \<mapsto> h')) c f = hdl_count H c f"
proof -
  have "0 < hdl_count H c f (f h)" using hdl_count_pos [OF assms(1)] assms(2,3) by blast
  then show ?thesis using hdl_count_upd [OF assms(1-4), of f] assms(5) by auto
qed

text \<open>The least value, \<open>DAOS_EPOCH_MAX\<close> where there is none.\<close>

definition lowm :: "(u64 \<Rightarrow> nat) \<Rightarrow> u64" where
  "lowm C = (case low C of None \<Rightarrow> DAOS_EPOCH_MAX | Some l \<Rightarrow> l)"

lemma le_EPOCH_MAX [simp]: "e \<le> DAOS_EPOCH_MAX" "\<not> DAOS_EPOCH_MAX < e"
  by (simp_all add: DAOS_EPOCH_MAX_def)

lemma lowm_le: "0 < C e \<Longrightarrow> lowm C \<le> e"
  by (auto simp: lowm_def low_def intro: Min_le)

lemma lowm_cases: "lowm C = DAOS_EPOCH_MAX \<or> 0 < C (lowm C)"
proof (cases "{e. 0 < C e} = {}")
  case False
  then have "Min {e. 0 < C e} \<in> {e. 0 < C e}" by (intro Min_in) auto
  then show ?thesis using False by (simp add: lowm_def low_def)
qed (simp add: lowm_def low_def)

lemma lowm_inc: "lowm (inc1 (Some i) C) = min i (lowm C)"
  unfolding lowm_def low_inc by (auto simp: min_def split: option.split)

lemma the_low_inc: "the (low (inc1 (Some i) C)) = lowm (inc1 (Some i) C)"
  unfolding lowm_def low_inc by simp

lemma low_or_max: "(case low C of None \<Rightarrow> DAOS_EPOCH_MAX | Some x \<Rightarrow> x) = lowm C"
  by (simp add: lowm_def)

section \<open>The invariant\<close>

fun ec_field :: "ec_type \<Rightarrow> container_hdl \<Rightarrow> u64" where
  "ec_field EC_LRE h = ch_lre h"
| "ec_field EC_LHE h = ch_lhe h"

text \<open>
  The epochs of a container and of its handles: GHCE is the lesser of GHPCE and the epoch before the
  lowest held one.
\<close>

definition hdl_ok :: "u64 \<Rightarrow> container_hdl \<Rightarrow> bool" where
  "hdl_ok p h \<longleftrightarrow> small (ch_lre h) \<and> small (ch_lhe h) \<and> ch_hce h < ch_lhe h \<and> ch_hce h \<le> p"

definition ep_inv :: "hdls \<Rightarrow> uuid \<Rightarrow> u64 \<Rightarrow> u64 \<Rightarrow> bool" where
  "ep_inv H c g p \<longleftrightarrow>
     finite (dom H) \<and> p < 255 \<and> g = min p (lowm (hdl_count H c ch_lhe) - 1) \<and>
     (\<forall>u h. H u = Some h \<longrightarrow> ch_cont h = c \<longrightarrow> hdl_ok p h)"

definition cont_inv :: "hdls \<Rightarrow> uuid \<Rightarrow> cont \<Rightarrow> bool" where
  "cont_inv H c cont \<longleftrightarrow>
     c_uuid cont = c \<and> (\<forall>t. ec_ok (ec_type2kvs cont t) \<and> ctr (ec_type2kvs cont t) = hdl_count H c (ec_field t)) \<and>
     (\<exists>g p. c_ghce cont = Some g \<and> c_ghpce cont = Some p \<and> ep_inv H c g p)"

text \<open>Every handle is one of a container that exists.\<close>

definition svc_inv :: "cont_svc \<Rightarrow> bool" where
  "svc_inv svc \<longleftrightarrow>
     finite (dom (cs_hdls svc)) \<and> (\<forall>c cont. cs_conts svc c = Some cont \<longrightarrow> cont_inv (cs_hdls svc) c cont) \<and>
     (\<forall>u h. cs_hdls svc u = Some h \<longrightarrow> cs_conts svc (ch_cont h) \<noteq> None)"

lemma ec_field_eta: "ec_field EC_LRE = ch_lre" "ec_field EC_LHE = ch_lhe"
  by (simp_all add: fun_eq_iff)

lemma minus_one_less: "(x :: u64) \<noteq> 0 \<Longrightarrow> y \<le> x - 1 \<longleftrightarrow> y < x"
  using unat_gt_0 [of x] by (auto simp: word_le_nat_alt word_less_nat_alt unat_minus_one)

lemma lowm_lhe_pos:
  assumes "ep_inv H c g p"
  shows "lowm (hdl_count H c ch_lhe) \<noteq> 0"
proof -
  consider "lowm (hdl_count H c ch_lhe) = DAOS_EPOCH_MAX" | "0 < hdl_count H c ch_lhe (lowm (hdl_count H c ch_lhe))"
    using lowm_cases [of "hdl_count H c ch_lhe"] by (rule disjE)
  then show ?thesis
  proof cases
    case 1
    then show ?thesis by (simp add: DAOS_EPOCH_MAX_def)
  next
    case 2
    then obtain u h where "H u = Some h" "ch_cont h = c" "ch_lhe h = lowm (hdl_count H c ch_lhe)"
      using assms hdl_count_pos [of H c ch_lhe] by (auto simp: ep_inv_def)
    moreover from this(1,2) have "ch_hce h < ch_lhe h" using assms by (auto simp: ep_inv_def hdl_ok_def)
    ultimately show ?thesis by auto
  qed
qed

text \<open>What the checks of the code ask for.\<close>

lemma ep_inv_facts:
  assumes "ep_inv H c g p"
  shows "g \<le> p" "p < 255" "g < lowm (hdl_count H c ch_lhe)"
    and "\<And>u h. H u = Some h \<Longrightarrow> ch_cont h = c \<Longrightarrow> g < ch_lhe h"
    and "\<And>u h. H u = Some h \<Longrightarrow> ch_cont h = c \<Longrightarrow> lowm (hdl_count H c ch_lre) \<le> ch_lre h"
proof -
  show "g \<le> p" "p < 255" using assms by (auto simp: ep_inv_def)
  show g: "g < lowm (hdl_count H c ch_lhe)"
    using assms minus_one_less [OF lowm_lhe_pos [OF assms], of g] by (auto simp: ep_inv_def)
  fix u h assume h: "H u = Some h" "ch_cont h = c"
  have fin: "finite (dom H)" using assms by (simp add: ep_inv_def)
  have pos: "0 < hdl_count H c f (f h)" for f using hdl_count_pos [OF fin] h by blast
  show "g < ch_lhe h" using g lowm_le [of "hdl_count H c ch_lhe", OF pos [of ch_lhe]] by simp
  show "lowm (hdl_count H c ch_lre) \<le> ch_lre h" by (rule lowm_le) (rule pos)
qed

lemma cont_inv_small:
  assumes "cont_inv H c cont"
  shows "ec_small (ec_type2kvs cont t)"
proof -
  have fin: "finite (dom H)" using assms by (auto simp: cont_inv_def ep_inv_def)
  have "small e" if "0 < hdl_count H c (ec_field t) e" for e
    using that hdl_count_pos [OF fin] assms by (cases t) (auto simp: cont_inv_def ep_inv_def hdl_ok_def)
  then show ?thesis using assms by (auto simp: ec_small_def cont_inv_def)
qed

lemma read_epoch_attr_ok:
  assumes "cont_inv H c cont"
  shows "\<exists>g p. c_ghce cont = Some g \<and> c_ghpce cont = Some p \<and> ep_inv H c g p \<and>
    read_epoch_attr cont = Inr \<lparr>ea_ghce = g, ea_ghpce = p, ea_glre = lowm (hdl_count H c ch_lre),
      ea_glhe = lowm (hdl_count H c ch_lhe)\<rparr>"
proof -
  have "find_lowest_or_max cont t = Inr (lowm (hdl_count H c (ec_field t)))" for t
    using cont_inv_small [OF assms, of t] assms ec_find_lowest_low [of cont t]
    by (auto simp: find_lowest_or_max_def lowm_def ec_small_def cont_inv_def split: option.splits)
  then show ?thesis using assms by (auto simp: cont_inv_def read_epoch_attr_def ec_field_eta)
qed

section \<open>The effect of a transaction on one container\<close>

definition queued ::
  "cont_svc \<Rightarrow> uuid \<Rightarrow> cont_tx \<Rightarrow> hdls \<Rightarrow> (ec_type \<Rightarrow> u64 \<Rightarrow> nat) \<Rightarrow> u64 \<Rightarrow> u64 \<Rightarrow> bool" where
  "queued svc c tx H K g p \<longleftrightarrow>
     (\<exists>cont. apply_upds svc tx = Inr (\<lparr>cs_conts = (cs_conts svc)(c \<mapsto> cont), cs_hdls = H\<rparr>) \<and> c_uuid cont = c \<and>
        (\<forall>t. ec_ok (ec_type2kvs cont t) \<and> ctr (ec_type2kvs cont t) = K t) \<and> c_ghce cont = Some g \<and> c_ghpce cont = Some p)"

lemma queued_Nil:
  assumes "cs_conts svc c = Some cont" "cont_inv (cs_hdls svc) c cont" "c_ghce cont = Some g" "c_ghpce cont = Some p"
  shows "queued svc c [] (cs_hdls svc) (\<lambda>t. hdl_count (cs_hdls svc) c (ec_field t)) g p"
  using assms by (cases svc) (auto simp: queued_def cont_inv_def fun_upd_idem intro!: exI [of _ cont])

lemma queued_UPD_HDL: "queued svc c tx H K g p \<Longrightarrow> queued svc c (tx @ [UPD_HDL u h]) (H(u \<mapsto> h)) K g p"
  by (auto simp: queued_def apply_upds_append)

lemma queued_DEL_HDL:
  "queued svc c tx H K g p \<Longrightarrow> H u \<noteq> None \<Longrightarrow> queued svc c (tx @ [DEL_HDL u]) (H(u := None)) K g p"
  by (auto simp: queued_def apply_upds_append)

lemma queued_UPD_GHCE:
  assumes "queued svc c tx H K g p"
  shows "queued svc c (tx @ [UPD_GHCE c g']) H K g' p"
proof -
  obtain cont where c: "apply_upds svc tx = Inr \<lparr>cs_conts = (cs_conts svc)(c \<mapsto> cont), cs_hdls = H\<rparr>"
    "c_uuid cont = c" "\<forall>t. ec_ok (ec_type2kvs cont t) \<and> ctr (ec_type2kvs cont t) = K t"
    "c_ghce cont = Some g" "c_ghpce cont = Some p" using assms by (auto simp: queued_def)
  then show ?thesis
    unfolding queued_def by (intro exI [of _ "cont\<lparr>c_ghce := Some g'\<rparr>"]) (simp add: apply_upds_append with_cont_def all_ec_type)
qed

lemma queued_UPD_GHPCE:
  assumes "queued svc c tx H K g p"
  shows "queued svc c (tx @ [UPD_GHPCE c p']) H K g p'"
proof -
  obtain cont where c: "apply_upds svc tx = Inr \<lparr>cs_conts = (cs_conts svc)(c \<mapsto> cont), cs_hdls = H\<rparr>"
    "c_uuid cont = c" "\<forall>t. ec_ok (ec_type2kvs cont t) \<and> ctr (ec_type2kvs cont t) = K t"
    "c_ghce cont = Some g" "c_ghpce cont = Some p" using assms by (auto simp: queued_def)
  then show ?thesis
    unfolding queued_def by (intro exI [of _ "cont\<lparr>c_ghpce := Some p'\<rparr>"]) (simp add: apply_upds_append with_cont_def all_ec_type)
qed

lemma queued_ec:
  assumes "queued svc c tx H K g p" "ec_effect c t us (K t) C"
  shows "queued svc c (tx @ us) H (K(t := C)) g p"
proof -
  obtain cont where c: "apply_upds svc tx = Inr (\<lparr>cs_conts = (cs_conts svc)(c \<mapsto> cont), cs_hdls = H\<rparr>)"
    "c_uuid cont = c" "\<forall>t. ec_ok (ec_type2kvs cont t) \<and> ctr (ec_type2kvs cont t) = K t"
    "c_ghce cont = Some g" "c_ghpce cont = Some p" using assms(1) by (auto simp: queued_def)
  let ?svc = "\<lparr>cs_conts = (cs_conts svc)(c \<mapsto> cont), cs_hdls = H\<rparr>"
  obtain kvs where "apply_upds ?svc us = Inr (set_cont ?svc (set_ec cont t kvs))" "ec_ok kvs" "ctr kvs = C"
    using assms(2) c(2,3) unfolding ec_effect_def by (metis cont_svc.select_convs(1) fun_upd_same)
  then show ?thesis
    using c by (auto simp: queued_def apply_upds_append set_cont_def intro!: exI [of _ "set_ec cont t kvs"])
qed

end
