(* ===== verification/Cont_Steps.thy ===== *)
theory Cont_Steps
  imports Cont_Inv
begin

text \<open>
  Every request keeps the invariant of the container service: the effect of each handler on the handles,
  the counters and the epochs of its container.
\<close>

section \<open>Parts of the handlers\<close>

lemma ec_update_queued:
  assumes "cont_inv H c cont" "ec_update_and_find_lowest tx cont t dec inc = Inr (tx', l)"
    and "\<And>d. dec = Some d \<Longrightarrow> inc \<noteq> Some d"
    and "queued svc c tx H' K g p" "K t = hdl_count H c (ec_field t)"
    and "C = inc1 inc (dec1 dec (hdl_count H c (ec_field t)))"
  shows "queued svc c tx' H' (K(t := C)) g p \<and> l = low C"
proof -
  have c: "ctr (ec_type2kvs cont t) = hdl_count H c (ec_field t)" "c_uuid cont = c"
    using assms(1) by (auto simp: cont_inv_def)
  obtain us where "tx' = tx @ us" "l = low C" "ec_effect c t us (hdl_count H c (ec_field t)) C"
    using ec_update_ok [OF cont_inv_small [OF assms(1)] assms(2,3)] assms(6) c by auto
  then show ?thesis using queued_ec [OF assms(4), of t us C] assms(5) by auto
qed

lemma ec_add_queued:
  assumes "cont_inv H c cont" "ec_update_and_find_lowest tx cont t None (Some (ec_field t h)) = Inr (tx', l)"
    and "queued svc c tx H' K g p" "K t = hdl_count H c (ec_field t)" "H u = None" "ch_cont h = c"
  shows "queued svc c tx' H' (K(t := hdl_count (H(u \<mapsto> h)) c (ec_field t))) g p \<and>
    l = low (hdl_count (H(u \<mapsto> h)) c (ec_field t))"
proof (rule ec_update_queued [OF assms(1,2) _ assms(3,4)])
  have "finite (dom H)" using assms(1) by (auto simp: cont_inv_def ep_inv_def)
  then show "hdl_count (H(u \<mapsto> h)) c (ec_field t) =
      inc1 (Some (ec_field t h)) (dec1 None (hdl_count H c (ec_field t)))"
    unfolding dec1.simps(1) using assms(5,6) by (rule hdl_count_add)
qed simp

lemma ec_del_queued:
  assumes "cont_inv H c cont" "ec_update_and_find_lowest tx cont t (Some (ec_field t h)) None = Inr (tx', l)"
    and "queued svc c tx H' K g p" "K t = hdl_count H c (ec_field t)" "H u = Some h" "ch_cont h = c"
  shows "queued svc c tx' H' (K(t := hdl_count (H(u := None)) c (ec_field t))) g p \<and>
    l = low (hdl_count (H(u := None)) c (ec_field t))"
proof (rule ec_update_queued [OF assms(1,2) _ assms(3,4)])
  have "finite (dom H)" using assms(1) by (auto simp: cont_inv_def ep_inv_def)
  then show "hdl_count (H(u := None)) c (ec_field t) =
      inc1 None (dec1 (Some (ec_field t h)) (hdl_count H c (ec_field t)))"
    unfolding inc1.simps(1) using assms(5,6) by (rule hdl_count_del)
qed simp

lemma ec_move_queued:
  assumes "cont_inv H c cont"
    and "ec_update_and_find_lowest tx cont t (Some (ec_field t h)) (Some (ec_field t h')) = Inr (tx', l)"
    and "queued svc c tx H' K g p" "K t = hdl_count H c (ec_field t)"
    and "H u = Some h" "ch_cont h = c" "ch_cont h' = c" "ec_field t h \<noteq> ec_field t h'"
  shows "queued svc c tx' H' (K(t := hdl_count (H(u \<mapsto> h')) c (ec_field t))) g p \<and>
    the l = lowm (hdl_count (H(u \<mapsto> h')) c (ec_field t))"
proof -
  have "finite (dom H)" using assms(1) by (auto simp: cont_inv_def ep_inv_def)
  then have e: "hdl_count (H(u \<mapsto> h')) c (ec_field t) =
      inc1 (Some (ec_field t h')) (dec1 (Some (ec_field t h)) (hdl_count H c (ec_field t)))"
    using assms(5-7) by (rule hdl_count_upd)
  have "queued svc c tx' H' (K(t := hdl_count (H(u \<mapsto> h')) c (ec_field t))) g p \<and>
      l = low (hdl_count (H(u \<mapsto> h')) c (ec_field t))"
    by (rule ec_update_queued [OF assms(1,2) _ assms(3,4) e]) (use assms(8) in auto)
  then show ?thesis unfolding e the_low_inc [symmetric] by simp
qed

lemma update_ghce_queued:
  assumes "update_ghce tx cont attr = Inr (tx', attr')" "queued svc c tx H K (ea_ghce attr) p" "c_uuid cont = c"
    and "ea_ghpce attr = p" "g' = min p (ea_glhe attr - 1)"
  shows "queued svc c tx' H K g' p \<and> attr' = attr\<lparr>ea_ghce := g'\<rparr>"
  using assms queued_UPD_GHCE [OF assms(2), of g'] by (auto simp: update_ghce_def Let_def split: if_splits)

lemma case_der_Inr: "(case x of None \<Rightarrow> Inr a | Some e \<Rightarrow> Inl e) = Inr b \<longleftrightarrow> x = None \<and> a = b"
  by (cases x) auto

lemma ghce_mono:
  assumes "finite (dom H)" "g < DAOS_EPOCH_MAX" "\<And>u h. H u = Some h \<Longrightarrow> ch_cont h = c \<Longrightarrow> g < ch_lhe h"
  shows "g < lowm (hdl_count H c ch_lhe)" "g \<le> lowm (hdl_count H c ch_lhe) - 1"
proof -
  show l: "g < lowm (hdl_count H c ch_lhe)"
    using lowm_cases [of "hdl_count H c ch_lhe"]
  proof (rule disjE)
    assume "0 < hdl_count H c ch_lhe (lowm (hdl_count H c ch_lhe))"
    then show ?thesis using hdl_count_pos [OF assms(1), of c ch_lhe] assms(3) by (metis (full_types))
  qed (simp add: assms(2))
  then have "lowm (hdl_count H c ch_lhe) \<noteq> 0" by auto
  then show "g \<le> lowm (hdl_count H c ch_lhe) - 1" using l minus_one_less by blast
qed

lemma ghce_stable:
  fixes a b g p :: u64
  assumes "g = min p (a - 1)" "b \<le> a" "g < b"
  shows "g = min p (b - 1)"
proof -
  have b: "b \<noteq> 0" "a \<noteq> 0" using assms(2,3) by auto
  have "g \<le> b - 1" using minus_one_less [OF b(1)] assms(3) by blast
  moreover have "b - 1 \<le> a - 1"
    using assms(2) b by (simp add: word_le_nat_alt unat_minus_one)
  ultimately show ?thesis using assms(1) by (auto simp: min_def split: if_splits)
qed

section \<open>From the effect on a container to the service\<close>

text \<open>A transaction that changes the handle \<open>u\<close> of the container \<open>c\<close> and leaves its epochs right.\<close>

definition steps_to :: "cont_svc \<Rightarrow> uuid \<Rightarrow> cont_tx \<Rightarrow> hdls \<Rightarrow> u64 \<Rightarrow> u64 \<Rightarrow> bool" where
  "steps_to svc c tx H g p \<longleftrightarrow> queued svc c tx H (\<lambda>t. hdl_count H c (ec_field t)) g p \<and> ep_inv H c g p"

lemma ep_inv_other:
  assumes "ep_inv H c g p" "\<And>h. H u = Some h \<Longrightarrow> ch_cont h \<noteq> c" "\<And>h. x = Some h \<Longrightarrow> ch_cont h \<noteq> c"
  shows "ep_inv (H(u := x)) c g p"
proof -
  have "hdl_count (H(u := x)) c ch_lhe = hdl_count H c ch_lhe" by (rule hdl_count_other) (use assms in auto)
  moreover have "finite (dom (H(u := x)))" using assms(1) by (auto simp: ep_inv_def)
  ultimately show ?thesis using assms unfolding ep_inv_def by (metis fun_upd_apply)
qed

lemma cont_inv_other:
  assumes "cont_inv H c cont" "\<And>h. H u = Some h \<Longrightarrow> ch_cont h \<noteq> c" "\<And>h. x = Some h \<Longrightarrow> ch_cont h \<noteq> c"
  shows "cont_inv (H(u := x)) c cont"
proof -
  have "hdl_count (H(u := x)) c f = hdl_count H c f" for f by (rule hdl_count_other) (use assms in auto)
  then show ?thesis using assms ep_inv_other [OF _ assms(2,3)] by (auto simp: cont_inv_def)
qed

lemma steps_to_svc_inv:
  assumes "svc_inv svc" "cs_conts svc c = Some cont" "steps_to svc c tx ((cs_hdls svc)(u := x)) g p"
    and "\<And>h. cs_hdls svc u = Some h \<Longrightarrow> ch_cont h = c" "\<And>h. x = Some h \<Longrightarrow> ch_cont h = c"
  shows "\<exists>svc' cont'. apply_upds svc tx = Inr svc' \<and> svc_inv svc' \<and> cs_hdls svc' = (cs_hdls svc)(u := x) \<and>
    cs_conts svc' = (cs_conts svc)(c \<mapsto> cont') \<and> c_ghce cont' = Some g \<and> c_ghpce cont' = Some p"
proof -
  let ?H = "(cs_hdls svc)(u := x)"
  obtain cont' where c: "apply_upds svc tx = Inr \<lparr>cs_conts = (cs_conts svc)(c \<mapsto> cont'), cs_hdls = ?H\<rparr>"
    "c_uuid cont' = c" "\<forall>t. ec_ok (ec_type2kvs cont' t) \<and> ctr (ec_type2kvs cont' t) = hdl_count ?H c (ec_field t)"
    "c_ghce cont' = Some g" "c_ghpce cont' = Some p" and ep: "ep_inv ?H c g p"
    using assms(3) by (auto simp: steps_to_def queued_def)
  have this_cont: "cont_inv ?H c cont'" using c ep by (simp add: cont_inv_def)
  have other: "cont_inv ?H c2 cont2" if "cs_conts svc c2 = Some cont2" "c2 \<noteq> c" for c2 cont2
    by (rule cont_inv_other) (use that assms in \<open>auto simp: svc_inv_def\<close>)
  have "svc_inv \<lparr>cs_conts = (cs_conts svc)(c \<mapsto> cont'), cs_hdls = ?H\<rparr>"
    unfolding svc_inv_def using this_cont other assms(1,5) by (auto simp: svc_inv_def)
  then show ?thesis using c by auto
qed

section \<open>Opening and closing\<close>

lemma count_fun_upd:
  "(\<lambda>t. hdl_count H c (ec_field t))
     (EC_LHE := hdl_count H' c (ec_field EC_LHE), EC_LRE := hdl_count H' c (ec_field EC_LRE)) =
    (\<lambda>t. hdl_count H' c (ec_field t))"
  "(\<lambda>t. hdl_count H c (ec_field t))
     (EC_LRE := hdl_count H' c (ec_field EC_LRE), EC_LHE := hdl_count H' c (ec_field EC_LHE)) =
    (\<lambda>t. hdl_count H' c (ec_field t))"
proof -
  have two: "t = EC_LRE \<or> t = EC_LHE" for t by (cases t) auto
  show "(\<lambda>t. hdl_count H c (ec_field t))
      (EC_LHE := hdl_count H' c (ec_field EC_LHE), EC_LRE := hdl_count H' c (ec_field EC_LRE)) =
      (\<lambda>t. hdl_count H' c (ec_field t))" (is "?f = ?g")
  proof
    show "?f t = ?g t" for t using two [of t] by auto
  qed
  show "(\<lambda>t. hdl_count H c (ec_field t))
      (EC_LRE := hdl_count H' c (ec_field EC_LRE), EC_LHE := hdl_count H' c (ec_field EC_LHE)) =
      (\<lambda>t. hdl_count H' c (ec_field t))" (is "?f' = ?g")
  proof
    show "?f' t = ?g t" for t using two [of t] by auto
  qed
qed

lemma count_one:
  assumes "finite (dom H)" "H u = Some h" "ch_cont h = c" "ch_cont h' = c"
    and "\<And>t'. t' \<noteq> t \<Longrightarrow> ec_field t' h' = ec_field t' h"
  shows "(\<lambda>t. hdl_count H c (ec_field t))(t := hdl_count (H(u \<mapsto> h')) c (ec_field t)) =
    (\<lambda>t. hdl_count (H(u \<mapsto> h')) c (ec_field t))"
  using hdl_count_same [OF assms(1-4)] assms(5) by (auto simp: fun_eq_iff)

lemma ec_move_only:
  assumes ci: "cont_inv H c cont"
    and u: "ec_update_and_find_lowest tx cont t (Some (ec_field t h)) (Some (ec_field t h')) = Inr (tx', l)"
    and q: "queued svc c tx H' (\<lambda>t. hdl_count H c (ec_field t)) g p"
    and h: "H u = Some h" "ch_cont h = c" "ch_cont h' = c" "ec_field t h \<noteq> ec_field t h'"
    and other: "\<forall>t'. t' \<noteq> t \<longrightarrow> ec_field t' h' = ec_field t' h"
  shows "queued svc c tx' H' (\<lambda>t. hdl_count (H(u \<mapsto> h')) c (ec_field t)) g p \<and>
    the l = lowm (hdl_count (H(u \<mapsto> h')) c (ec_field t))"
proof -
  have fin: "finite (dom H)" using ci by (auto simp: cont_inv_def ep_inv_def)
  have one: "(\<lambda>t. hdl_count H c (ec_field t))(t := hdl_count (H(u \<mapsto> h')) c (ec_field t)) =
      (\<lambda>t. hdl_count (H(u \<mapsto> h')) c (ec_field t))"
    by (rule count_one [OF fin h(1-3)]) (use other in blast)
  show ?thesis using ec_move_queued [OF ci u q refl h] by (simp only: one)
qed

lemma lowm_upd_le:
  assumes "finite (dom H)" "H u = Some h" "ch_cont h = c" "ch_cont h' = c" "f h' \<le> f h"
  shows "lowm (hdl_count (H(u \<mapsto> h')) c f) \<le> lowm (hdl_count H c f)"
proof -
  have fin: "finite (dom (H(u \<mapsto> h')))" using assms(1) by simp
  have le: "lowm (hdl_count (H(u \<mapsto> h')) c f) \<le> f k" if "(H(u \<mapsto> h')) v = Some k" "ch_cont k = c" for v k
    by (rule lowm_le) (use that hdl_count_pos [OF fin] in blast)
  show ?thesis
    using lowm_cases [of "hdl_count H c f"]
  proof (rule disjE)
    assume "0 < hdl_count H c f (lowm (hdl_count H c f))"
    then obtain v k where k: "H v = Some k" "ch_cont k = c" "f k = lowm (hdl_count H c f)"
      using hdl_count_pos [OF assms(1)] by blast
    show ?thesis
    proof (cases "v = u")
      case True
      then show ?thesis using le [of u h'] k assms(2,4,5) by auto
    next
      case False
      then show ?thesis using le [of v k] k by auto
    qed
  qed simp
qed

lemma ep_inv_finite: "ep_inv H c g p \<Longrightarrow> finite (dom H)"
  by (simp add: ep_inv_def)

lemma small_le: "e \<le> 255 \<Longrightarrow> small e" "p < 255 \<Longrightarrow> e \<le> p \<Longrightarrow> small e \<and> e < DAOS_EPOCH_MAX"
  by (auto simp: small_def DAOS_EPOCH_MAX_def word_less_nat_alt word_le_nat_alt unsigned_minus_1_eq_mask
      mask_eq_exp_minus_1)

text \<open>No change of a handle that keeps its hold above GHCE makes GHCE decrease.\<close>

lemma ghce_upd:
  assumes "ep_inv H c g p" "\<forall>h. x = Some h \<longrightarrow> g < ch_lhe h" "p \<le> p'"
  shows "g < lowm (hdl_count (H(u := x)) c ch_lhe)" "g \<le> min p' (lowm (hdl_count (H(u := x)) c ch_lhe) - 1)"
proof -
  have "finite (dom (H(u := x)))" using assms(1) by (auto simp: ep_inv_def)
  moreover have "g < DAOS_EPOCH_MAX" using small_le(2) [of p g] ep_inv_facts(1,2) [OF assms(1)] by simp
  moreover have "g < ch_lhe h" if "(H(u := x)) v = Some h" "ch_cont h = c" for v h
    using that assms(2) ep_inv_facts(4) [OF assms(1)] by (auto split: if_splits)
  ultimately show "g < lowm (hdl_count (H(u := x)) c ch_lhe)" "g \<le> min p' (lowm (hdl_count (H(u := x)) c ch_lhe) - 1)"
    using ghce_mono [of "H(u := x)" g c] ep_inv_facts(1) [OF assms(1)] assms(3) by auto
qed

lemma ep_inv_put:
  assumes "ep_inv H c g p" "hdl_ok p' h" "p \<le> p'" "p' < 255"
  shows "ep_inv (H(u \<mapsto> h)) c (min p' (lowm (hdl_count (H(u \<mapsto> h)) c ch_lhe) - 1)) p'"
  using assms by (auto simp: ep_inv_def hdl_ok_def intro: order_trans)

lemma svc_inv_read:
  assumes "svc_inv svc" "cs_conts svc c = Some cont" "c_ghce cont = Some g" "c_ghpce cont = Some p"
  shows "cont_inv (cs_hdls svc) c cont" "ep_inv (cs_hdls svc) c g p" "c_uuid cont = c"
    and "read_epoch_attr cont = Inr \<lparr>ea_ghce = g, ea_ghpce = p, ea_glre = lowm (hdl_count (cs_hdls svc) c ch_lre),
      ea_glhe = lowm (hdl_count (cs_hdls svc) c ch_lhe)\<rparr>"
proof -
  show ci: "cont_inv (cs_hdls svc) c cont" using assms by (simp add: svc_inv_def)
  then show "c_uuid cont = c" by (simp add: cont_inv_def)
  show "ep_inv (cs_hdls svc) c g p"
    "read_epoch_attr cont = Inr \<lparr>ea_ghce = g, ea_ghpce = p, ea_glre = lowm (hdl_count (cs_hdls svc) c ch_lre),
      ea_glhe = lowm (hdl_count (cs_hdls svc) c ch_lhe)\<rparr>"
    using read_epoch_attr_ok [OF ci] assms(3,4) by auto
qed

lemma ghce_steps:
  assumes "update_ghce tx cont \<lparr>ea_ghce = g, ea_ghpce = p, ea_glre = l, ea_glhe = m\<rparr> = Inr (tx', attr)"
    and "queued svc c tx H (\<lambda>t. hdl_count H c (ec_field t)) g p" "c_uuid cont = c" "m = lowm (hdl_count H c ch_lhe)"
    and "ep_inv H c (min p (lowm (hdl_count H c ch_lhe) - 1)) p"
  shows "steps_to svc c tx' H (min p (lowm (hdl_count H c ch_lhe) - 1)) p"
  using update_ghce_queued [OF assms(1) _ assms(3), of svc H _ p] assms by (simp add: steps_to_def)

lemma init_hdl_steps:
  assumes inv: "svc_inv svc" "cs_conts svc c = Some cont" "c_ghce cont = Some g" "c_ghpce cont = Some p"
    and new: "cs_hdls svc u = None" "ch_cont h = c"
    and run: "ds_cont_epoch_init_hdl [] cont h = Inr (tx, h', st)"
  shows "ch_cont h' = c \<and> steps_to svc c (tx @ [UPD_HDL u h']) ((cs_hdls svc)(u \<mapsto> h')) g p"
proof -
  let ?H = "cs_hdls svc"
  note ci = svc_inv_read(1) [OF inv] and ep = svc_inv_read(2) [OF inv] and cu = svc_inv_read(3) [OF inv]
    and rd = svc_inv_read(4) [OF inv]
  obtain tx1 l1 l2 where h': "h' = h\<lparr>ch_hce := g, ch_lre := g, ch_lhe := DAOS_EPOCH_MAX\<rparr>"
    and u1: "ec_update_and_find_lowest [] cont EC_LRE None (Some (ec_field EC_LRE h')) = Inr (tx1, l1)"
    and u2: "ec_update_and_find_lowest tx1 cont EC_LHE None (Some (ec_field EC_LHE h')) = Inr (tx, l2)"
    using run by (auto simp: ds_cont_epoch_init_hdl_def rd Let_def split: sum.splits if_splits)
  let ?H' = "?H(u \<mapsto> h')"
  have c': "ch_cont h' = c" using h' new by simp
  note q1 = ec_add_queued [OF ci u1 queued_Nil [OF inv(2) ci inv(3,4)] refl new(1) c']
  have "queued svc c tx ?H (\<lambda>t. hdl_count ?H' c (ec_field t)) g p"
    using ec_add_queued [OF ci u2 conjunct1 [OF q1] _ new(1) c'] by (simp add: count_fun_upd)
  moreover have "lowm (hdl_count ?H' c ch_lhe) = lowm (hdl_count ?H c ch_lhe)"
    using hdl_count_add [of ?H u h' c ch_lhe] inv(1) new(1) c' h'
    by (simp only: lowm_inc svc_inv_def) (simp add: min.absorb2)
  then have "ep_inv ?H' c g p"
    using ep_inv_put [OF ep, of p h' u] ep small_le(2) [of p g] ep_inv_facts(1,2) [OF ep] h'
    by (simp add: hdl_ok_def small_def ep_inv_def)
  ultimately show ?thesis using queued_UPD_HDL c' by (simp add: steps_to_def)
qed

lemma fini_hdl_steps:
  assumes inv: "svc_inv svc" "cs_conts svc c = Some cont" "c_ghce cont = Some g" "c_ghpce cont = Some p"
    and hdl: "cs_hdls svc u = Some h" "ch_cont h = c"
    and run: "ds_cont_epoch_fini_hdl env [] cont h = Inr tx"
  shows "\<exists>g'. g \<le> g' \<and> steps_to svc c (tx @ [DEL_HDL u]) ((cs_hdls svc)(u := None)) g' p"
proof -
  let ?H = "cs_hdls svc" let ?H' = "?H(u := None)"
  note ci = svc_inv_read(1) [OF inv] and ep = svc_inv_read(2) [OF inv] and cu = svc_inv_read(3) [OF inv]
    and rd = svc_inv_read(4) [OF inv]
  obtain tx1 tx2 l1 l2 attr' where
    u1: "ec_update_and_find_lowest [] cont EC_LRE (Some (ec_field EC_LRE h)) None = Inr (tx1, l1)"
    and u2: "ec_update_and_find_lowest tx1 cont EC_LHE (Some (ec_field EC_LHE h)) None = Inr (tx2, l2)"
    and u3: "update_ghce tx2 cont \<lparr>ea_ghce = g, ea_ghpce = p,
      ea_glre = (case l1 of None \<Rightarrow> DAOS_EPOCH_MAX | Some x \<Rightarrow> x),
      ea_glhe = (case l2 of None \<Rightarrow> DAOS_EPOCH_MAX | Some x \<Rightarrow> x)\<rparr> = Inr (tx, attr')"
    using run by (auto simp: ds_cont_epoch_fini_hdl_def rd Let_def case_der_Inr split: sum.splits if_splits)
  note q1 = ec_del_queued [OF ci u1 queued_Nil [OF inv(2) ci inv(3,4)] refl hdl]
  have q: "queued svc c tx2 ?H (\<lambda>t. hdl_count ?H' c (ec_field t)) g p" "l2 = low (hdl_count ?H' c ch_lhe)"
    using ec_del_queued [OF ci u2 conjunct1 [OF q1] _ hdl] by (simp_all add: count_fun_upd) (simp add: ec_field_eta)
  define g' where "g' = min p (lowm (hdl_count ?H' c ch_lhe) - 1)"
  have "queued svc c tx ?H (\<lambda>t. hdl_count ?H' c (ec_field t)) g' p"
    using update_ghce_queued [OF u3 _ cu _ refl, of svc ?H] q by (simp add: low_or_max g'_def)
  then have "queued svc c (tx @ [DEL_HDL u]) ?H' (\<lambda>t. hdl_count ?H' c (ec_field t)) g' p"
    using hdl by (simp add: queued_DEL_HDL)
  moreover have "ep_inv ?H' c g' p" using ep by (auto simp: ep_inv_def g'_def)
  moreover have "g \<le> g'" unfolding g'_def by (rule ghce_upd(2) [OF ep]) auto
  ultimately show ?thesis by (auto simp: steps_to_def)
qed

section \<open>Hold, slip and commit\<close>

lemma succ_le_255: "x < 255 \<Longrightarrow> x + 1 \<le> (255 :: u64)" "x < 255 \<Longrightarrow> x < (x + 1 :: u64)"
  by (simp_all add: word_less_nat_alt word_le_nat_alt unat_word_ariths)

lemma hold_lhe:
  fixes e g p :: u64
  assumes "g \<le> p" "p < 255" "small e" "l = (if e = 0 then p + 1 else if e \<le> g then g + 1 else e)"
  shows "g < l" "small l"
  using assms succ_le_255 [of p] succ_le_255 [of g] small_le(1) [of "p + 1"] small_le(1) [of "g + 1"]
  by (auto split: if_splits)

lemma hold_steps:
  assumes inv: "svc_inv svc" "cs_conts svc c = Some cont" "c_ghce cont = Some g" "c_ghpce cont = Some p"
    and hdl: "cs_hdls svc u = Some h" "ch_cont h = c" and e: "small e"
    and run: "ds_cont_epoch_hold [] cont u h e = Inr (tx, h', st)"
  shows "ch_cont h' = c \<and> (\<exists>g'. g \<le> g' \<and> steps_to svc c tx ((cs_hdls svc)(u \<mapsto> h')) g' p)"
proof -
  let ?H = "cs_hdls svc" let ?H' = "?H(u \<mapsto> h')"
  note ci = svc_inv_read(1) [OF inv] and ep = svc_inv_read(2) [OF inv] and cu = svc_inv_read(3) [OF inv]
    and rd = svc_inv_read(4) [OF inv]
  note f = ep_inv_facts [OF ep] and fin = ep_inv_finite [OF ep]
  define l where "l = (if e = 0 then p + 1 else if e \<le> g then g + 1 else e)"
  note gl = hold_lhe [OF f(1,2) e l_def]
  note run' = run [unfolded ds_cont_epoch_hold_def rd sum.case Let_def epoch_attr.simps l_def [symmetric]]
  have h': "h' = h\<lparr>ch_lhe := l\<rparr>" and c': "ch_cont h' = c"
    using run' hdl by (auto split: sum.splits if_splits)
  show ?thesis
  proof (cases "l = ch_lhe h")
    case True
    then have "tx = []" "h' = h" using run' h' by (auto split: sum.splits if_splits)
    then show ?thesis using queued_Nil [OF inv(2) ci inv(3,4)] ep hdl by (auto simp: steps_to_def fun_upd_idem)
  next
    case False
    obtain tx1 glhe attr' where
      u1: "ec_update_and_find_lowest ([] @ [UPD_HDL u h']) cont EC_LHE (Some (ec_field EC_LHE h)) (Some (ec_field EC_LHE h')) = Inr (tx1, glhe)"
      and u2: "(if l > ch_lhe h
         then update_ghce tx1 cont \<lparr>ea_ghce = g, ea_ghpce = p, ea_glre = lowm (hdl_count ?H c ch_lre), ea_glhe = the glhe\<rparr>
         else Inr (tx1, \<lparr>ea_ghce = g, ea_ghpce = p, ea_glre = lowm (hdl_count ?H c ch_lre), ea_glhe = the glhe\<rparr>)) = Inr (tx, attr')"
      and ck: "check_epoch_invariant attr' h'"
      using run' h' False by (auto split: sum.splits if_splits)
    note q0 = queued_UPD_HDL [OF queued_Nil [OF inv(2) ci inv(3,4)], of u h']
    have q: "queued svc c tx1 ?H' (\<lambda>t. hdl_count ?H' c (ec_field t)) g p" "the glhe = lowm (hdl_count ?H' c ch_lhe)"
      using ec_move_only [OF ci u1 q0 hdl c'] h' False by (simp_all add: all_ec_type ec_field_eta)
    have ok: "hdl_ok p h'" using ck gl(2) h' ep hdl by (auto simp: hdl_ok_def ep_inv_def check_epoch_invariant_def)
    have g': "\<forall>k. Some h' = Some k \<longrightarrow> g < ch_lhe k" using gl(1) h' by auto
    show ?thesis
    proof (cases "l > ch_lhe h")
      case True
      then have "steps_to svc c tx ?H' (min p (lowm (hdl_count ?H' c ch_lhe) - 1)) p"
        using u2 by (intro ghce_steps [OF _ q(1) cu q(2) ep_inv_put [OF ep ok order_refl f(2)]]) simp
      then show ?thesis using ghce_upd(2) [OF ep g' order_refl, of u] c' by blast
    next
      case False
      then have le: "lowm (hdl_count ?H' c ch_lhe) \<le> lowm (hdl_count ?H c ch_lhe)"
        using h' by (intro lowm_upd_le [OF fin hdl c']) auto
      have "g = min p (lowm (hdl_count ?H c ch_lhe) - 1)" using ep by (simp add: ep_inv_def)
      from ghce_stable [OF this le ghce_upd(1) [OF ep g' order_refl]] have "ep_inv ?H' c g p" using ep_inv_put [OF ep ok order_refl f(2), of u] by simp
      then show ?thesis using False u2 q c' by (auto simp: steps_to_def)
    qed
  qed
qed

lemma slip_steps:
  assumes inv: "svc_inv svc" "cs_conts svc c = Some cont" "c_ghce cont = Some g" "c_ghpce cont = Some p"
    and hdl: "cs_hdls svc u = Some h" "ch_cont h = c" and e: "small e"
    and run: "ds_cont_epoch_slip env [] cont u h e = Inr (tx, h', st)"
  shows "ch_cont h' = c \<and> steps_to svc c tx ((cs_hdls svc)(u \<mapsto> h')) g p"
proof -
  let ?H = "cs_hdls svc" let ?H' = "?H(u \<mapsto> h')"
  note ci = svc_inv_read(1) [OF inv] and ep = svc_inv_read(2) [OF inv] and cu = svc_inv_read(3) [OF inv]
    and rd = svc_inv_read(4) [OF inv]
  note f = ep_inv_facts [OF ep] and fin = ep_inv_finite [OF ep]
  note run' = run [unfolded ds_cont_epoch_slip_def rd sum.case Let_def epoch_attr.simps]
  have h': "h' = (if e < ch_lre h then h else h\<lparr>ch_lre := e\<rparr>)" and c': "ch_cont h' = c"
    using run' hdl by (auto split: sum.splits if_splits option.splits)
  show ?thesis
  proof (cases "e \<le> ch_lre h")
    case True
    then have "tx = []" "h' = h" using run' h' by (auto split: sum.splits if_splits option.splits)
    then show ?thesis using queued_Nil [OF inv(2) ci inv(3,4)] ep hdl by (auto simp: steps_to_def fun_upd_idem)
  next
    case False
    then have h'': "h' = h\<lparr>ch_lre := e\<rparr>" using h' by auto
    obtain glre where
      u1: "ec_update_and_find_lowest ([] @ [UPD_HDL u h']) cont EC_LRE (Some (ec_field EC_LRE h)) (Some (ec_field EC_LRE h')) = Inr (tx, glre)"
      using run' h'' False by (auto split: sum.splits if_splits option.splits)
    note q0 = queued_UPD_HDL [OF queued_Nil [OF inv(2) ci inv(3,4)], of u h']
    have q: "queued svc c tx ?H' (\<lambda>t. hdl_count ?H' c (ec_field t)) g p"
      using ec_move_only [OF ci u1 q0 hdl c'] h'' False by (auto simp: all_ec_type)
    have "hdl_count ?H' c ch_lhe = hdl_count ?H c ch_lhe" by (rule hdl_count_same [OF fin hdl c']) (simp add: h'')
    moreover have "hdl_ok p h'" using e h'' ep hdl by (auto simp: hdl_ok_def ep_inv_def)
    ultimately have "ep_inv ?H' c g p" using ep_inv_put [OF ep, of p h' u] f(2) ep by (auto simp: ep_inv_def)
    then show ?thesis using q c' by (simp add: steps_to_def)
  qed
qed

lemma commit_ec:
  assumes ci: "cont_inv H c cont"
    and h: "H u = Some h" "ch_cont h = c" "ch_cont h' = c" "ec_field EC_LHE h \<noteq> ec_field EC_LHE h'"
    and slip: "slip \<Longrightarrow> ec_field EC_LRE h \<noteq> ec_field EC_LRE h'" "\<not> slip \<Longrightarrow> ch_lre h' = ch_lre h"
    and q: "queued svc c tx H' (\<lambda>t. hdl_count H c (ec_field t)) g p"
    and u1: "ec_update_and_find_lowest tx cont EC_LHE (Some (ec_field EC_LHE h)) (Some (ec_field EC_LHE h')) = Inr (tx1, glhe)"
    and u2: "if slip
      then ec_update_and_find_lowest tx1 cont EC_LRE (Some (ec_field EC_LRE h)) (Some (ec_field EC_LRE h')) = Inr (tx2, glre)
      else tx2 = tx1"
  shows "queued svc c tx2 H' (\<lambda>t. hdl_count (H(u \<mapsto> h')) c (ec_field t)) g p \<and>
    the glhe = lowm (hdl_count (H(u \<mapsto> h')) c ch_lhe) \<and>
    (slip \<longrightarrow> the glre = lowm (hdl_count (H(u \<mapsto> h')) c ch_lre))"
proof (cases slip)
  case True
  note m1 = ec_move_queued [OF ci u1 q refl h]
  have u2': "ec_update_and_find_lowest tx1 cont EC_LRE (Some (ec_field EC_LRE h)) (Some (ec_field EC_LRE h')) = Inr (tx2, glre)"
    using u2 True by simp
  show ?thesis
    using m1 ec_move_queued [OF ci u2' conjunct1 [OF m1] _ h(1-3) slip(1) [OF True]]
    by (simp add: count_fun_upd) (simp add: ec_field_eta)
next
  case False
  then have "ec_field EC_LRE h' = ec_field EC_LRE h" using slip(2) by simp
  then show ?thesis
    using ec_move_only [OF ci u1 q h] u2 False by (simp add: all_ec_type ec_field_eta)
qed

text \<open>The handle after a commit, and the epochs then.\<close>

definition commit_hdl :: "container_hdl \<Rightarrow> u64 \<Rightarrow> container_hdl" where
  "commit_hdl h e =
     (if has_capa (ch_capas h) DAOS_COO_NOSLIP then h\<lparr>ch_hce := e, ch_lhe := e + 1\<rparr>
      else h\<lparr>ch_hce := e, ch_lhe := e + 1, ch_lre := e\<rparr>)"

lemma commit_hdl_simps [simp]:
  "ch_hce (commit_hdl h e) = e" "ch_lhe (commit_hdl h e) = e + 1" "ch_cont (commit_hdl h e) = ch_cont h"
  "ch_lre (commit_hdl h e) = (if has_capa (ch_capas h) DAOS_COO_NOSLIP then ch_lre h else e)"
  by (simp_all add: commit_hdl_def)

lemma commit_ep_inv:
  assumes ep: "ep_inv H c g p" and hdl: "H u = Some h" "ch_cont h = c" and e: "e < 255" "ch_lhe h \<le> e"
    and p': "p' = (if e > p then e else p)" and H': "H' = H(u \<mapsto> commit_hdl h e)"
  shows "ep_inv H' c (min p' (lowm (hdl_count H' c ch_lhe) - 1)) p'" "p \<le> p'"
    and "g \<le> min p' (lowm (hdl_count H' c ch_lhe) - 1)" "ec_field EC_LHE h \<noteq> ec_field EC_LHE (commit_hdl h e)"
proof -
  have lt: "e < e + 1" using succ_le_255 e(1) by blast
  then show "ec_field EC_LHE h \<noteq> ec_field EC_LHE (commit_hdl h e)" using e(2) by auto
  have ok: "hdl_ok p' (commit_hdl h e)"
    using lt e(1) small_le(1) [of e] small_le(1) [of "e + 1"] succ_le_255(1) [of e] ep hdl
    by (auto simp: hdl_ok_def p' ep_inv_def)
  show pp: "p \<le> p'" by (auto simp: p')
  have p255: "p' < 255" using ep_inv_facts(2) [OF ep] e(1) by (simp add: p')
  show "ep_inv H' c (min p' (lowm (hdl_count H' c ch_lhe) - 1)) p'" unfolding H' by (rule ep_inv_put [OF ep ok pp p255])
  have "\<forall>x. Some (commit_hdl h e) = Some x \<longrightarrow> g < ch_lhe x" using ep_inv_facts(4) [OF ep hdl] e(2) lt by auto
  from ghce_upd(2) [OF ep this pp] show "g \<le> min p' (lowm (hdl_count H' c ch_lhe) - 1)" unfolding H' .
qed

lemma commit_steps:
  assumes inv: "svc_inv svc" "cs_conts svc c = Some cont" "c_ghce cont = Some g" "c_ghpce cont = Some p"
    and hdl: "cs_hdls svc u = Some h" "ch_cont h = c"
    and e: "e < 255" "has_capa (ch_capas h) DAOS_COO_NOSLIP \<or> e \<noteq> ch_lre h"
    and run: "ds_cont_epoch_commit env [] cont u h e = Inr (tx, h', st)"
  shows "ch_cont h' = c \<and> (\<exists>g' p'. g \<le> g' \<and> p \<le> p' \<and> steps_to svc c tx ((cs_hdls svc)(u \<mapsto> h')) g' p')"
proof -
  let ?H = "cs_hdls svc" let ?H' = "?H(u \<mapsto> h')"
  note ci = svc_inv_read(1) [OF inv] and ep = svc_inv_read(2) [OF inv] and cu = svc_inv_read(3) [OF inv]
    and rd = svc_inv_read(4) [OF inv]
  note f = ep_inv_facts [OF ep] and fin = ep_inv_finite [OF ep]
  define slip where "slip \<longleftrightarrow> \<not> has_capa (ch_capas h) DAOS_COO_NOSLIP"
  note run' = run [unfolded ds_cont_epoch_commit_def rd sum.case Let_def epoch_attr.simps slip_def [symmetric]]
  show ?thesis
  proof (cases "e \<le> ch_hce h")
    case True
    then have "tx = []" "h' = h" using run' by (auto split: sum.splits if_splits option.splits)
    then show ?thesis using queued_Nil [OF inv(2) ci inv(3,4)] ep hdl by (auto simp: steps_to_def fun_upd_idem)
  next
    case False
    define k where "k = commit_hdl h e"
    define p' where "p' = (if e > p then e else p)"
    have ck: "ch_cont k = c" using hdl by (simp add: k_def)
    obtain tx1 tx2 glhe glre gl attr' where hk: "h' = k" "ch_lhe h \<le> e"
      and u1: "ec_update_and_find_lowest ([] @ [UPD_HDL u k]) cont EC_LHE (Some (ec_field EC_LHE h)) (Some (ec_field EC_LHE k)) = Inr (tx1, glhe)"
      and u2: "if slip
        then ec_update_and_find_lowest tx1 cont EC_LRE (Some (ec_field EC_LRE h)) (Some (ec_field EC_LRE k)) = Inr (tx2, glre)
        else tx2 = tx1"
      and u3: "update_ghce (if e > p then tx2 @ [UPD_GHPCE c e] else tx2) cont
        \<lparr>ea_ghce = g, ea_ghpce = p', ea_glre = gl, ea_glhe = the glhe\<rparr> = Inr (tx, attr')"
      using run' False cu
      by (cases slip; cases "e > p") (auto simp: k_def commit_hdl_def slip_def p'_def case_der_Inr split: sum.splits if_splits)
    note new = commit_ep_inv [OF ep hdl e(1) hk(2) p'_def refl, folded k_def]
    have q: "queued svc c tx2 ?H' (\<lambda>t. hdl_count ?H' c (ec_field t)) g p" "the glhe = lowm (hdl_count ?H' c ch_lhe)"
      using commit_ec [OF ci hdl ck new(4) _ _ queued_UPD_HDL [OF queued_Nil [OF inv(2) ci inv(3,4)]] u1 u2] hk(1) e(2)
      by (auto simp: k_def slip_def)
    then have q3: "queued svc c (if e > p then tx2 @ [UPD_GHPCE c e] else tx2) ?H' (\<lambda>t. hdl_count ?H' c (ec_field t)) g p'"
      using queued_UPD_GHPCE by (auto simp: p'_def)
    have "steps_to svc c tx ?H' (min p' (lowm (hdl_count ?H' c ch_lhe) - 1)) p'"
      using ghce_steps [OF u3 q3 cu q(2)] new(1) hk(1) by simp
    then show ?thesis using new(2,3) hk(1) ck by blast
  qed
qed

end
