(* ===== verification/Cont_Reach.thy ===== *)
theory Cont_Reach
  imports Cont_Steps
begin

text \<open>
  The container service as a state machine: the states that sequences of requests reach, the invariant
  that holds in all of them, and what the handlers promise there. Requests that break the invariant are
  singled out, each with a run of the code.
\<close>

section \<open>Requests that keep the invariant\<close>

text \<open>
  The epochs asked for are below 256, where the order of the counters' keys is that of the numbers; a
  commit that moves the reference does not commit the epoch that is referenced already.
\<close>

fun hdl_req_ok :: "container_hdl \<Rightarrow> hdl_req \<Rightarrow> bool" where
  "hdl_req_ok h (CONT_EPOCH_HOLD e) = small e"
| "hdl_req_ok h (CONT_EPOCH_SLIP e) = small e"
| "hdl_req_ok h (CONT_EPOCH_COMMIT e) = (e < 255 \<and> (has_capa (ch_capas h) DAOS_COO_NOSLIP \<or> e \<noteq> ch_lre h))"
| "hdl_req_ok h req = True"

text \<open>A handle is used with its own container, and a container with open handles is not destroyed.\<close>

fun req_ok :: "cont_svc \<Rightarrow> cont_req \<Rightarrow> bool" where
  "req_ok svc (CONT_DESTROY c force) = (\<forall>h \<in> ran (cs_hdls svc). ch_cont h \<noteq> c)"
| "req_ok svc (CONT_HDL c u req) = (case cs_hdls svc u of None \<Rightarrow> True | Some h \<Rightarrow> ch_cont h = c \<and> hdl_req_ok h req)"
| "req_ok svc req = True"

text \<open>The epochs of the containers that remain do not decrease.\<close>

definition epochs_grow :: "cont_svc \<Rightarrow> cont_svc \<Rightarrow> bool" where
  "epochs_grow svc svc' \<longleftrightarrow>
     (\<forall>c cont cont'. cs_conts svc c = Some cont \<longrightarrow> cs_conts svc' c = Some cont' \<longrightarrow>
        the (c_ghce cont) \<le> the (c_ghce cont') \<and> the (c_ghpce cont) \<le> the (c_ghpce cont'))"

lemma epochs_grow_refl [simp]: "epochs_grow svc svc"
  by (simp add: epochs_grow_def)

lemma steps_to_grow:
  assumes inv: "svc_inv svc" "cs_conts svc c = Some cont" "c_ghce cont = Some g" "c_ghpce cont = Some p"
    and "\<exists>g' p'. g \<le> g' \<and> p \<le> p' \<and> steps_to svc c tx ((cs_hdls svc)(u := x)) g' p'"
    and "\<forall>h. cs_hdls svc u = Some h \<longrightarrow> ch_cont h = c" "\<forall>h. x = Some h \<longrightarrow> ch_cont h = c"
  shows "\<exists>svc'. apply_upds svc tx = Inr svc' \<and> svc_inv svc' \<and> epochs_grow svc svc' \<and> cs_hdls svc' = (cs_hdls svc)(u := x)"
proof -
  obtain g' p' where g: "g \<le> g'" "p \<le> p'" "steps_to svc c tx ((cs_hdls svc)(u := x)) g' p'" using assms(5) by blast
  then obtain svc' cont' where "apply_upds svc tx = Inr svc'" "svc_inv svc'" "cs_hdls svc' = (cs_hdls svc)(u := x)"
    "cs_conts svc' = (cs_conts svc)(c \<mapsto> cont')" "c_ghce cont' = Some g'" "c_ghpce cont' = Some p'"
    using steps_to_svc_inv [OF inv(1,2) g(3)] assms(6,7) by blast
  then show ?thesis using g(1,2) inv(2-4) by (auto simp: epochs_grow_def)
qed

lemma svc_inv_epochs:
  assumes "svc_inv svc" "cs_conts svc c = Some cont"
  obtains g p where "c_ghce cont = Some g" "c_ghpce cont = Some p"
proof -
  have "cont_inv (cs_hdls svc) c cont" using assms by (simp add: svc_inv_def)
  then show thesis using that by (auto simp: cont_inv_def)
qed

section \<open>Each request\<close>

definition keeps :: "cont_svc \<Rightarrow> cont_tx res \<Rightarrow> bool" where
  "keeps svc r \<longleftrightarrow> (\<forall>tx. r = Inr tx \<longrightarrow> (\<exists>svc'. apply_upds svc tx = Inr svc' \<and> svc_inv svc' \<and> epochs_grow svc svc'))"

lemma keeps_simps [simp]: "keeps svc (Inl e)" "svc_inv svc \<Longrightarrow> keeps svc (Inr [])"
  by (simp_all add: keeps_def)

lemma cont_inv_new:
  assumes "finite (dom H)" "\<forall>h \<in> ran H. ch_cont h \<noteq> c"
  shows "cont_inv H c (new_cont c)"
proof -
  have no: "H u = Some h \<Longrightarrow> ch_cont h \<noteq> c" for u h using assms(2) by (auto simp: ran_def)
  have z: "hdl_count H c f = (\<lambda>e. 0)" for f using hdl_count_pos [OF assms(1), of c f] no by (fastforce simp: fun_eq_iff)
  have "lowm (\<lambda>e. 0) = DAOS_EPOCH_MAX" by (simp add: lowm_def low_def)
  then show ?thesis
    using empty_ec_ok no assms(1) by (auto simp: cont_inv_def new_cont_def all_ec_type z ep_inv_def min_def fun_eq_iff)
qed

lemma create_keeps:
  assumes "svc_inv svc"
  shows "keeps svc (cont_create ph svc c)"
proof (cases "cs_conts svc c")
  case None
  then have "\<forall>h \<in> ran (cs_hdls svc). ch_cont h \<noteq> c" using assms by (fastforce simp: svc_inv_def ran_def)
  then have "cont_inv (cs_hdls svc) c (new_cont c)" using assms by (intro cont_inv_new) (auto simp: svc_inv_def)
  then show ?thesis using assms None by (auto simp: keeps_def cont_create_def svc_inv_def epochs_grow_def)
next
  case (Some cont)
  then show ?thesis using assms by (simp add: cont_create_def)
qed

lemma destroy_keeps:
  assumes "svc_inv svc" "\<forall>h \<in> ran (cs_hdls svc). ch_cont h \<noteq> c"
  shows "keeps svc (cont_destroy env ph svc c force)"
  using assms by (auto simp: keeps_def cont_destroy_def svc_inv_def epochs_grow_def ran_def split: option.splits if_splits)

lemma open_keeps:
  assumes "svc_inv svc" "cs_conts svc c = Some cont"
  shows "keeps svc (cont_open env ph svc cont u capas)"
proof (cases "cs_hdls svc u")
  case None
  obtain g p where gp: "c_ghce cont = Some g" "c_ghpce cont = Some p" by (rule svc_inv_epochs [OF assms])
  have cu: "c_uuid cont = c" using svc_inv_read(3) [OF assms gp] .
  show ?thesis
    unfolding keeps_def
  proof (intro allI impI)
    fix tx assume "cont_open env ph svc cont u capas = Inr tx"
    moreover define h where "h = hdl_init\<lparr>ch_pool_hdl := sph_uuid ph, ch_cont := c_uuid cont, ch_capas := capas\<rparr>"
    ultimately obtain tx' h' st where h: "ch_cont h = c" "ds_cont_epoch_init_hdl [] cont h = Inr (tx', h', st)"
      "tx = tx' @ [UPD_HDL u h']"
      using None cu by (auto simp: cont_open_def Let_def split: if_splits option.splits sum.splits)
    note st = init_hdl_steps [OF assms gp None h(1,2)]
    show "\<exists>svc'. apply_upds svc tx = Inr svc' \<and> svc_inv svc' \<and> epochs_grow svc svc'"
      using steps_to_grow [OF assms gp, of tx u "Some h'"] st None h(3) by (metis option.distinct(1) option.sel order_refl)
  qed
next
  case (Some h)
  then show ?thesis using assms by (simp add: cont_open_def)
qed

lemma close_one_keeps:
  assumes "svc_inv svc"
  shows "keeps svc (cont_close_one_hdl env svc u)"
  unfolding keeps_def
proof (intro allI impI)
  fix tx assume "cont_close_one_hdl env svc u = Inr tx"
  then obtain h cont tx' where h: "cs_hdls svc u = Some h" "cs_conts svc (ch_cont h) = Some cont"
    "ds_cont_epoch_fini_hdl env [] cont h = Inr tx'" "tx = tx' @ [DEL_HDL u]"
    by (auto simp: cont_close_one_hdl_def cont_lookup_def split: option.splits sum.splits)
  obtain g p where gp: "c_ghce cont = Some g" "c_ghpce cont = Some p" by (rule svc_inv_epochs [OF assms h(2)])
  show "\<exists>svc'. apply_upds svc tx = Inr svc' \<and> svc_inv svc' \<and> epochs_grow svc svc'"
    using steps_to_grow [OF assms h(2) gp, of tx u None] fini_hdl_steps [OF assms h(2) gp h(1) refl h(3)] h(1,4)
    by (metis option.distinct(1) option.sel order_refl)
qed

lemma hdl_keeps:
  assumes "svc_inv svc" "cs_conts svc c = Some cont" "cs_hdls svc u = Some h" "ch_cont h = c" "hdl_req_ok h req"
  shows "keeps svc (cont_op_with_hdl env cont u h req)"
proof -
  obtain g p where gp: "c_ghce cont = Some g" "c_ghpce cont = Some p" by (rule svc_inv_epochs [OF assms(1,2)])
  have go: "keeps svc (Inr tx)"
    if "ch_cont h' = c \<and> (\<exists>g' p'. g \<le> g' \<and> p \<le> p' \<and> steps_to svc c tx ((cs_hdls svc)(u \<mapsto> h')) g' p')" for tx h'
    using steps_to_grow [OF assms(1,2) gp conjunct2 [OF that]] that assms(3,4) by (auto simp: keeps_def)
  show ?thesis
  proof (cases req)
    case (CONT_EPOCH_HOLD e)
    then show ?thesis
      using hold_steps [OF assms(1,2) gp assms(3,4), of e] assms(5) go by (auto split: sum.split) blast
  next
    case (CONT_EPOCH_SLIP e)
    then show ?thesis
      using slip_steps [OF assms(1,2) gp assms(3,4), of e env] assms(5) go by (auto split: sum.split) blast
  next
    case (CONT_EPOCH_COMMIT e)
    then show ?thesis
      using commit_steps [OF assms(1,2) gp assms(3,4), of e env] assms(5) go by (auto split: sum.split)
  qed (use assms(1) in \<open>auto simp: ds_cont_epoch_query_def ds_cont_epoch_discard_def cont_query_def
      split: sum.split option.split\<close>)
qed

lemma cont_op_keeps:
  assumes "svc_inv svc" "req_ok svc req"
  shows "keeps svc (cont_op env ph svc req)"
proof (cases req)
  case (CONT_CREATE c)
  then show ?thesis using create_keeps [OF assms(1)] by (simp add: cont_op_def)
next
  case (CONT_DESTROY c force)
  then show ?thesis using destroy_keeps assms by (simp add: cont_op_def)
next
  case (CONT_OPEN c u capas)
  then show ?thesis using open_keeps [OF assms(1)] by (simp add: cont_op_def cont_lookup_def split: option.split)
next
  case (CONT_CLOSE c u)
  then show ?thesis
    using close_one_keeps [OF assms(1)] assms(1)
    by (simp add: cont_op_def cont_lookup_def cont_close_def split: option.split)
next
  case (CONT_HDL c u req')
  then show ?thesis
    using hdl_keeps [OF assms(1)] assms(2)
    by (simp add: cont_op_def cont_lookup_def cont_op_with_cont_def split: option.splits)
qed

lemma cont_op_with_svc_keeps:
  assumes "svc_inv svc" "req_ok svc req" "cont_op_with_svc env ph svc req = (rc, svc')"
  shows "svc_inv svc' \<and> epochs_grow svc svc'"
  using cont_op_keeps [OF assms(1,2), of env ph] assms(1,3)
  by (auto simp: cont_op_with_svc_def keeps_def split: sum.splits)

lemma epochs_grow_trans:
  assumes "epochs_grow svc svc1" "epochs_grow svc1 svc2" "dom (cs_conts svc) \<subseteq> dom (cs_conts svc1)"
  shows "epochs_grow svc svc2"
  unfolding epochs_grow_def
proof (intro allI impI)
  fix c cont cont2 assume c: "cs_conts svc c = Some cont" "cs_conts svc2 c = Some cont2"
  then obtain cont1 where "cs_conts svc1 c = Some cont1" using assms(3) by blast
  then show "the (c_ghce cont) \<le> the (c_ghce cont2) \<and> the (c_ghpce cont) \<le> the (c_ghpce cont2)"
    using c assms(1,2) unfolding epochs_grow_def by (meson order_trans)
qed

lemma close_hdls_loop_keeps:
  assumes "svc_inv svc" "close_hdls_loop env svc recs = (rc, svc')"
  shows "svc_inv svc'"
  using assms
proof (induction recs arbitrary: svc)
  case (Cons rec recs)
  then show ?case
    using close_one_keeps [OF Cons.prems(1), of env "fst rec"] by (auto simp: keeps_def split: sum.splits)
qed simp

section \<open>Reachable states\<close>

definition svc_empty :: cont_svc where
  "svc_empty = \<lparr>cs_conts = (\<lambda>c. None), cs_hdls = (\<lambda>u. None)\<rparr>"

inductive svc_reach :: "cont_svc \<Rightarrow> bool" where
  reach_empty: "svc_reach svc_empty"
| reach_req: "svc_reach svc \<Longrightarrow> req_ok svc req \<Longrightarrow> cont_op_with_svc env ph svc req = (rc, svc') \<Longrightarrow> svc_reach svc'"
| reach_close_hdls: "svc_reach svc \<Longrightarrow> cont_close_hdls env svc recs = (rc, svc') \<Longrightarrow> svc_reach svc'"

lemma svc_reach_inv: "svc_reach svc \<Longrightarrow> svc_inv svc"
proof (induction rule: svc_reach.induct)
  case reach_empty
  then show ?case by (simp add: svc_inv_def svc_empty_def)
next
  case (reach_req svc req env ph rc svc')
  then show ?case using cont_op_with_svc_keeps by blast
next
  case (reach_close_hdls svc env recs rc svc')
  then show ?case using close_hdls_loop_keeps by (auto simp: cont_close_hdls_def split: option.splits)
qed

section \<open>Requests that succeed\<close>

lemma ec_update_total:
  assumes "cont_inv H c cont" "\<And>d. dec = Some d \<Longrightarrow> 0 < hdl_count H c (ec_field t) d"
    and "\<And>i. inc = Some i \<Longrightarrow> hdl_count H c (ec_field t) i < 2 ^ 64 - 1"
  shows "\<exists>tx' l. ec_update_and_find_lowest tx cont t dec inc = Inr (tx', l)"
proof -
  have ok: "ec_ok (ec_type2kvs cont t)" "ctr (ec_type2kvs cont t) = hdl_count H c (ec_field t)"
    using assms(1) by (auto simp: cont_inv_def)
  have sm: "\<And>e. 0 < ctr (ec_type2kvs cont t) e \<Longrightarrow> small e" using cont_inv_small [OF assms(1)] by (auto simp: ec_small_def)
  have dec: "\<exists>tx'. ec_decrement tx cont t d = Inr tx'" if d: "dec = Some d" for d tx
  proof -
    obtain c where "ec_lookup (ec_type2kvs cont t) d = Inr c" "unat c = hdl_count H (c_uuid cont) (ec_field t) d"
      using ecs.get [OF ok(1), of d] ok(2) assms(1) by (auto simp: cont_inv_def)
    moreover from this(2) have "c \<noteq> 0" using assms(1,2) d by (auto simp: cont_inv_def)
    then have "\<not> c - 1 > c" using minus_one_less [of c "c - 1"] by auto
    ultimately show ?thesis by (simp add: ec_decrement_def Let_def)
  qed
  have inc: "\<exists>tx'. ec_increment tx cont t i = Inr tx'" if i: "inc = Some i" for i tx
  proof -
    obtain c where "ec_lookup (ec_type2kvs cont t) i = Inr c" "unat c = hdl_count H (c_uuid cont) (ec_field t) i"
      using ecs.get [OF ok(1), of i] ok(2) assms(1) by (auto simp: cont_inv_def)
    moreover from this(2) have "unat c < 2 ^ 64 - 1" using assms(1,3) i by (auto simp: cont_inv_def)
    then have "\<not> c + 1 < c" by (simp add: word_less_nat_alt unat_word_ariths)
    ultimately show ?thesis by (simp add: ec_increment_def Let_def)
  qed
  note fl = ec_find_lowest_low [OF ok(1) sm] and al = ec_lowest_after_dec_low [OF ok(1) sm]
  show ?thesis
  proof (cases dec)
    case None
    then show ?thesis
    proof (cases inc)
      case (Some i)
      obtain tx' where "ec_increment tx cont t i = Inr tx'" using inc [OF Some] by blast
      then show ?thesis using None Some by (simp add: ec_update_and_find_lowest_def fl split: option.split)
    qed (simp add: ec_update_and_find_lowest_def fl split: option.split)
  next
    case (Some d)
    obtain txd where d: "ec_decrement tx cont t d = Inr txd" using dec [OF Some] by blast
    show ?thesis
    proof (cases inc)
      case (Some i)
      obtain tx' where "ec_increment txd cont t i = Inr tx'" using inc [OF Some] by blast
      then show ?thesis using \<open>dec = Some d\<close> d Some by (simp add: ec_update_and_find_lowest_def al)
    qed (use Some d in \<open>simp add: ec_update_and_find_lowest_def al\<close>)
  qed
qed

lemma update_ghce_total:
  assumes "g \<le> min p (l - 1)"
  shows "\<exists>tx'. update_ghce tx cont \<lparr>ea_ghce = g, ea_ghpce = p, ea_glre = r, ea_glhe = l\<rparr> =
    Inr (tx', \<lparr>ea_ghce = min p (l - 1), ea_ghpce = p, ea_glre = r, ea_glhe = l\<rparr>)"
  using assms by (auto simp: update_ghce_def Let_def min_def split: if_splits)

lemma check_global_ok:
  "l \<noteq> 0 \<Longrightarrow> check_global_epoch_invariant \<lparr>ea_ghce = min p (l - 1), ea_ghpce = p, ea_glre = r, ea_glhe = l\<rparr>"
  using minus_one_less [of l "min p (l - 1)"] by (auto simp: check_global_epoch_invariant_def)

lemma check_ok:
  assumes "ep_inv H c g p" "H u = Some h" "ch_cont h = c"
  shows "check_epoch_invariant \<lparr>ea_ghce = g, ea_ghpce = p, ea_glre = lowm (hdl_count H c ch_lre),
    ea_glhe = lowm (hdl_count H c ch_lhe)\<rparr> h"
proof -
  have "check_global_epoch_invariant \<lparr>ea_ghce = g, ea_ghpce = p, ea_glre = lowm (hdl_count H c ch_lre),
      ea_glhe = lowm (hdl_count H c ch_lhe)\<rparr>"
    using check_global_ok [OF lowm_lhe_pos [OF assms(1)]] assms(1) by (simp add: ep_inv_def)
  then show ?thesis
    using ep_inv_facts(4,5) [OF assms] assms by (auto simp: check_epoch_invariant_def ep_inv_def hdl_ok_def)
qed

definition purge_ok :: "cont_env \<Rightarrow> bool" where
  "purge_ok env \<longleftrightarrow> \<not> ce_implicit_purge env \<or> (\<forall>lo hi. ce_aggregate env lo hi = None)"

lemma purge_ok_None:
  "purge_ok env \<Longrightarrow> (if ce_implicit_purge env then trigger_aggregation env a b d else None) = None"
  by (auto simp: purge_ok_def trigger_aggregation_def)

lemma fini_total:
  assumes inv: "svc_inv svc" "cs_conts svc c = Some cont" "c_ghce cont = Some g" "c_ghpce cont = Some p"
    and hdl: "cs_hdls svc u = Some h" "ch_cont h = c" and "purge_ok env"
  shows "\<exists>tx. ds_cont_epoch_fini_hdl env [] cont h = Inr tx"
proof -
  let ?H = "cs_hdls svc" let ?H' = "?H(u := None)"
  note ci = svc_inv_read(1) [OF inv] and ep = svc_inv_read(2) [OF inv] and rd = svc_inv_read(4) [OF inv]
  note fin = ep_inv_finite [OF ep]
  have pos: "0 < hdl_count ?H c (ec_field t) (ec_field t h)" for t using hdl_count_pos [OF fin] hdl by blast
  obtain tx1 l1 where u1: "ec_update_and_find_lowest [] cont EC_LRE (Some (ec_field EC_LRE h)) None = Inr (tx1, l1)"
    using ec_update_total [OF ci, of "Some (ec_field EC_LRE h)" EC_LRE None "[]"] pos [of EC_LRE] by auto
  obtain tx2 l2 where u2: "ec_update_and_find_lowest tx1 cont EC_LHE (Some (ec_field EC_LHE h)) None = Inr (tx2, l2)"
    using ec_update_total [OF ci, of "Some (ec_field EC_LHE h)" EC_LHE None tx1] pos [of EC_LHE] by auto
  note q1 = ec_del_queued [OF ci u1 queued_Nil [OF inv(2) ci inv(3,4)] refl hdl]
  have l2: "l2 = low (hdl_count ?H' c ch_lhe)"
    using ec_del_queued [OF ci u2 conjunct1 [OF q1] _ hdl] by (simp add: ec_field_eta)
  let ?l = "lowm (hdl_count ?H' c ch_lhe)"
  have "g < ?l" "g \<le> min p (?l - 1)" using ghce_upd [OF ep _ order_refl, of None u] by simp_all
  then have "?l \<noteq> 0" by auto
  obtain tx3 where u3: "update_ghce tx2 cont \<lparr>ea_ghce = g, ea_ghpce = p, ea_glre = lowm (hdl_count ?H' c ch_lre), ea_glhe = ?l\<rparr> =
      Inr (tx3, \<lparr>ea_ghce = min p (?l - 1), ea_ghpce = p, ea_glre = lowm (hdl_count ?H' c ch_lre), ea_glhe = ?l\<rparr>)"
    using update_ghce_total [OF \<open>g \<le> min p (?l - 1)\<close>] by blast
  have l1: "l1 = low (hdl_count ?H' c ch_lre)" using q1 by (simp add: ec_field_eta)
  show ?thesis
    using u1 u2 u3 l1 l2 check_ok [OF ep hdl] check_global_ok [OF \<open>?l \<noteq> 0\<close>] purge_ok_None [OF assms(7)]
    by (simp add: ds_cont_epoch_fini_hdl_def rd Let_def low_or_max)
qed

lemma commit_total:
  assumes inv: "svc_inv svc" "cs_conts svc c = Some cont" "c_ghce cont = Some g" "c_ghpce cont = Some p"
    and hdl: "cs_hdls svc u = Some h" "ch_cont h = c" and "purge_ok env"
    and e: "e < 255" "has_capa (ch_capas h) DAOS_COO_NOSLIP \<or> e \<noteq> ch_lre h" "ch_hce h < e" "ch_lhe h \<le> e"
    and rw: "has_capa (ch_capas h) DAOS_COO_RW"
    and room: "hdl_count (cs_hdls svc) c ch_lhe (e + 1) < 2 ^ 64 - 1" "hdl_count (cs_hdls svc) c ch_lre e < 2 ^ 64 - 1"
  shows "\<exists>tx h' st. ds_cont_epoch_commit env [] cont u h e = Inr (tx, h', st) \<and> ch_hce h' = e \<and> ch_lhe h' = e + 1"
proof -
  let ?H = "cs_hdls svc"
  note ci = svc_inv_read(1) [OF inv] and ep = svc_inv_read(2) [OF inv] and cu = svc_inv_read(3) [OF inv]
    and rd = svc_inv_read(4) [OF inv]
  note f = ep_inv_facts [OF ep] and fin = ep_inv_finite [OF ep]
  define slip where "slip \<longleftrightarrow> \<not> has_capa (ch_capas h) DAOS_COO_NOSLIP"
  define k where "k = commit_hdl h e"
  define p' where "p' = (if e > p then e else p)"
  have ck: "ch_cont k = c" using hdl by (simp add: k_def)
  let ?H' = "?H(u \<mapsto> k)" let ?l = "lowm (hdl_count ?H' c ch_lhe)" let ?r = "lowm (hdl_count ?H' c ch_lre)"
  note new = commit_ep_inv [OF ep hdl e(1,4) p'_def refl, folded k_def]
  have pos: "0 < hdl_count ?H c (ec_field t) (ec_field t h)" for t using hdl_count_pos [OF fin] hdl by blast
  have move: "\<exists>tx' l. ec_update_and_find_lowest tx cont t (Some (ec_field t h)) (Some (ec_field t k)) = Inr (tx', l)"
    if "t = EC_LHE \<or> slip" for t tx
    using ec_update_total [OF ci, of "Some (ec_field t h)" t "Some (ec_field t k)" tx] pos [of t] room that
    by (cases t) (auto simp: k_def slip_def ec_field_eta)
  obtain tx1 glhe where u1: "ec_update_and_find_lowest ([] @ [UPD_HDL u k]) cont EC_LHE (Some (ec_field EC_LHE h)) (Some (ec_field EC_LHE k)) = Inr (tx1, glhe)"
    using move by blast
  obtain tx2 glre where u2: "if slip
      then ec_update_and_find_lowest tx1 cont EC_LRE (Some (ec_field EC_LRE h)) (Some (ec_field EC_LRE k)) = Inr (tx2, glre)
      else tx2 = tx1"
    using move [of EC_LRE tx1] by (cases slip) auto
  have gl: "the glhe = ?l" "slip \<Longrightarrow> the glre = ?r"
    using commit_ec [OF ci hdl ck new(4) _ _ queued_UPD_HDL [OF queued_Nil [OF inv(2) ci inv(3,4)]] u1 u2] e(2)
    by (auto simp: k_def slip_def)
  have same: "\<not> slip \<Longrightarrow> lowm (hdl_count ?H c ch_lre) = ?r"
    using hdl_count_same [OF fin hdl ck, of ch_lre] by (simp add: k_def slip_def)
  have ck2: "check_epoch_invariant \<lparr>ea_ghce = min p' (?l - 1), ea_ghpce = p', ea_glre = ?r, ea_glhe = ?l\<rparr> k"
    using check_ok [OF new(1), of u k] ck by simp
  obtain tx3 where u3: "update_ghce (if e > p then tx2 @ [UPD_GHPCE c e] else tx2) cont
      \<lparr>ea_ghce = g, ea_ghpce = p', ea_glre = ?r, ea_glhe = ?l\<rparr> =
      Inr (tx3, \<lparr>ea_ghce = min p' (?l - 1), ea_ghpce = p', ea_glre = ?r, ea_glhe = ?l\<rparr>)"
    using update_ghce_total [OF new(3)] by blast
  have lo: "\<not> DAOS_EPOCH_MAX \<le> e" "\<not> e \<le> ch_hce h" "\<not> e < ch_lhe h"
    using e(3,4) small_le(2) [OF e(1) order_refl] by (auto simp: not_le)
  have "ds_cont_epoch_commit env [] cont u h e =
      Inr (tx3, k, set_epoch_state \<lparr>ea_ghce = min p' (?l - 1), ea_ghpce = p', ea_glre = ?r, ea_glhe = ?l\<rparr> k)"
    using lo rw u1 u2 u3 gl same ck2 check_ok [OF ep hdl] purge_ok_None [OF assms(7)]
    by (cases slip; cases "e > p")
      (simp_all add: ds_cont_epoch_commit_def rd Let_def cu p'_def k_def commit_hdl_def slip_def)
  then show ?thesis by (simp add: k_def)
qed

end
