(* ===== verification/Cont_Props.thy ===== *)
theory Cont_Props
  imports Cont_Reach
begin

text \<open>
  What the container service promises its clients in every state that it reaches, and the requests for
  which the promises fail.
\<close>

section \<open>Runs of the service\<close>

text \<open>A pool connection that may write, and targets that answer every broadcast.\<close>

definition env0 :: cont_env where
  "env0 = \<lparr>ce_implicit_purge = False, ce_aggregate = (\<lambda>lo hi. None), ce_discard = (\<lambda>u e. None),
    ce_open = (\<lambda>u c. None), ce_close = (\<lambda>r. None), ce_destroy = (\<lambda>u. None), ce_query = None\<rparr>"

definition ph0 :: ds_pool_hdl where
  "ph0 = \<lparr>sph_uuid = [9], sph_capas = DAOS_PC_RW\<rparr>"

fun run_reqs :: "cont_svc \<Rightarrow> cont_req list \<Rightarrow> der option list \<times> cont_svc" where
  "run_reqs svc [] = ([], svc)"
| "run_reqs svc (r # rs) =
     (let (rc, svc') = cont_op_with_svc env0 ph0 svc r; (rcs, svc'') = run_reqs svc' rs in (rc # rcs, svc''))"

text \<open>An executable form of the condition on requests, for runs that destroy nothing.\<close>

fun run_ok :: "cont_svc \<Rightarrow> cont_req \<Rightarrow> bool" where
  "run_ok svc (CONT_DESTROY c force) = False"
| "run_ok svc (CONT_HDL c u req) = (case cs_hdls svc u of None \<Rightarrow> True | Some h \<Rightarrow> ch_cont h = c \<and> hdl_req_ok h req)"
| "run_ok svc req = True"

lemma run_ok_req_ok: "run_ok svc req \<Longrightarrow> req_ok svc req"
  by (cases req) auto

fun reqs_ok :: "cont_svc \<Rightarrow> cont_req list \<Rightarrow> bool" where
  "reqs_ok svc [] = True"
| "reqs_ok svc (r # rs) = (run_ok svc r \<and> reqs_ok (snd (cont_op_with_svc env0 ph0 svc r)) rs)"

lemma run_reqs_reach: "svc_reach svc \<Longrightarrow> reqs_ok svc rs \<Longrightarrow> svc_reach (snd (run_reqs svc rs))"
proof (induction rs arbitrary: svc)
  case (Cons r rs)
  then have "svc_reach (snd (cont_op_with_svc env0 ph0 svc r))"
    using svc_reach.reach_req [OF Cons.prems(1), of r env0 ph0] by (metis prod.collapse reqs_ok.simps(2) run_ok_req_ok)
  then show ?case using Cons by (simp add: Let_def case_prod_beta)
qed simp

text \<open>Two handles of a container, one of which holds the epoch 3 and the other has committed 5.\<close>

definition reqs0 :: "cont_req list" where
  "reqs0 = [CONT_CREATE [1], CONT_OPEN [1] [1] DAOS_COO_RW, CONT_OPEN [1] [2] DAOS_COO_RW,
    CONT_HDL [1] [1] (CONT_EPOCH_HOLD 3), CONT_HDL [1] [2] (CONT_EPOCH_HOLD 5),
    CONT_HDL [1] [2] (CONT_EPOCH_COMMIT 5)]"

definition svc0 :: cont_svc where
  "svc0 = snd (run_reqs svc_empty reqs0)"

definition hdl0 :: container_hdl where
  "hdl0 = \<lparr>ch_pool_hdl = [9], ch_cont = [1], ch_hce = 0, ch_lre = 0, ch_lhe = 3, ch_capas = DAOS_COO_RW\<rparr>"

lemma svc0_reach: "svc_reach svc0"
proof -
  have "reqs_ok svc_empty reqs0" by code_simp
  then show ?thesis unfolding svc0_def by (rule run_reqs_reach [OF reach_empty])
qed

lemma svc0_facts:
  "cs_hdls svc0 [1] = Some hdl0"
  "map_option (\<lambda>c. (c_ghce c, c_ghpce c, ec_lookup (c_lhes c) 5, ec_lookup (c_lres c) 4)) (cs_conts svc0 [1]) =
    Some (Some 2, Some 5, Inr 0, Inr 0)"
  by code_simp+


section \<open>The epochs of a container\<close>





text \<open>
  C2. An epoch that a handle holds is never committed globally: in every reachable state the lowest held
  epoch of every open handle is above the GHCE of its container.
\<close>

theorem cont_held_not_committed:
  assumes "svc_reach svc" "cs_hdls svc u = Some h"
  shows "\<exists>cont g. cs_conts svc (ch_cont h) = Some cont \<and> c_ghce cont = Some g \<and> g < ch_lhe h"
proof -
  have inv: "svc_inv svc" by (rule svc_reach_inv [OF assms(1)])
  then obtain cont where c: "cs_conts svc (ch_cont h) = Some cont" using assms(2) by (fastforce simp: svc_inv_def)
  obtain g p where gp: "c_ghce cont = Some g" "c_ghpce cont = Some p" by (rule svc_inv_epochs [OF inv c])
  show ?thesis using c gp(1) ep_inv_facts(4) [OF svc_inv_read(2) [OF inv c gp] assms(2) refl] by blast
qed

theorem cont_held_not_committed_witness:
  "\<exists>cont g. cs_conts svc0 [1] = Some cont \<and> c_ghce cont = Some g \<and> g < 3"
  using cont_held_not_committed [OF svc0_reach svc0_facts(1)] by (simp add: hdl0_def)



section \<open>Requests that succeed\<close>

lemma counter_room:
  assumes "cont_inv H c cont" "ec_lookup (ec_type2kvs cont t) i \<noteq> Inr DAOS_EPOCH_MAX"
  shows "hdl_count H c (ec_field t) i < 2 ^ 64 - 1"
proof -
  obtain n where n: "ec_lookup (ec_type2kvs cont t) i = Inr n" "unat n = hdl_count H c (ec_field t) i"
    using assms(1) ecs.get [of "ec_type2kvs cont t" i] by (auto simp: cont_inv_def)
  have "unat n \<noteq> unat DAOS_EPOCH_MAX" using n(1) assms(2) by (auto simp flip: word_unat_eq_iff)
  moreover have "unat DAOS_EPOCH_MAX = 2 ^ 64 - 1"
    by (simp add: DAOS_EPOCH_MAX_def unsigned_minus_1_eq_mask mask_eq_exp_minus_1)
  ultimately show ?thesis using n(2) unsigned_less [of n, where 'a = nat] by simp
qed

text \<open>
  C27. Committing makes progress: in a reachable state, a commit on a handle opened for writing of an
  epoch above its HCE, not below its LHE and below 255 succeeds and leaves the handle with the epoch as
  its HCE and the next one as its LHE, provided that the epoch is not the one the handle references
  already (or the handle does not slip), that the counters of the new epochs are not at their maximum, and
  that aggregation, where implicit purging asks for it, succeeds.
\<close>

theorem cont_commit_succeeds:
  assumes "svc_reach svc" "cs_hdls svc u = Some h" "has_capa (ch_capas h) DAOS_COO_RW"
    and "ch_hce h < e" "ch_lhe h \<le> e" "e < 255" "has_capa (ch_capas h) DAOS_COO_NOSLIP \<or> e \<noteq> ch_lre h"
    and "cs_conts svc (ch_cont h) = Some cont" "purge_ok env"
    and "ec_lookup (c_lhes cont) (e + 1) \<noteq> Inr DAOS_EPOCH_MAX" "ec_lookup (c_lres cont) e \<noteq> Inr DAOS_EPOCH_MAX"
  shows "\<exists>svc' h'. cont_op_with_svc env ph svc (CONT_HDL (ch_cont h) u (CONT_EPOCH_COMMIT e)) = (None, svc') \<and>
    cs_hdls svc' = (cs_hdls svc)(u \<mapsto> h') \<and> ch_hce h' = e \<and> ch_lhe h' = e + 1"
proof -
  have inv: "svc_inv svc" by (rule svc_reach_inv [OF assms(1)])
  note c = assms(8)
  obtain g p where gp: "c_ghce cont = Some g" "c_ghpce cont = Some p" by (rule svc_inv_epochs [OF inv c])
  note ci = svc_inv_read(1) [OF inv c gp]
  have room: "hdl_count (cs_hdls svc) (ch_cont h) ch_lhe (e + 1) < 2 ^ 64 - 1"
    "hdl_count (cs_hdls svc) (ch_cont h) ch_lre e < 2 ^ 64 - 1"
    using counter_room [OF ci, of EC_LHE "e + 1"] counter_room [OF ci, of EC_LRE e] assms(10,11)
    by (simp_all add: ec_field_eta)
  obtain tx h' st where t: "ds_cont_epoch_commit env [] cont u h e = Inr (tx, h', st)" "ch_hce h' = e" "ch_lhe h' = e + 1"
    using commit_total [OF inv c gp assms(2) refl assms(9,6,7,4,5,3) room] by blast
  note st = commit_steps [OF inv c gp assms(2) refl assms(6,7) t(1)]
  obtain svc' where "apply_upds svc tx = Inr svc'" "cs_hdls svc' = (cs_hdls svc)(u \<mapsto> h')"
    using steps_to_grow [OF inv c gp conjunct2 [OF st]] conjunct1 [OF st] assms(2) by auto
  then show ?thesis
    using t c assms(2) by (auto simp: cont_op_with_svc_def cont_op_def cont_lookup_def cont_op_with_cont_def)
qed

theorem cont_commit_witness:
  "\<exists>svc' h'. cont_op_with_svc env0 ph0 svc0 (CONT_HDL [1] [1] (CONT_EPOCH_COMMIT 4)) = (None, svc') \<and>
    cs_hdls svc' = (cs_hdls svc0)([1] \<mapsto> h') \<and> ch_hce h' = 4 \<and> ch_lhe h' = 5"
proof -
  obtain cont where c: "cs_conts svc0 [1] = Some cont" "ec_lookup (c_lhes cont) 5 = Inr 0" "ec_lookup (c_lres cont) 4 = Inr 0"
    using svc0_facts(2) by auto
  have "cs_conts svc0 (ch_cont hdl0) = Some cont" using c(1) by (simp add: hdl0_def)
  from cont_commit_succeeds [OF svc0_reach svc0_facts(1) _ _ _ _ _ this, of 4 env0 ph0] c(2,3) show ?thesis
    by (simp add: hdl0_def has_capa_def DAOS_COO_RW_def DAOS_COO_NOSLIP_def purge_ok_def env0_def DAOS_EPOCH_MAX_def)
qed

text \<open>
  C28. Closing makes progress: in a reachable state, closing an open handle succeeds and removes the
  handle and nothing else, provided that the targets close it and that aggregation, where implicit
  purging asks for it, succeeds.
\<close>

theorem cont_close_succeeds:
  assumes "svc_reach svc" "cs_hdls svc u = Some h" "ce_close env [(u, ch_hce h)] = None" "purge_ok env"
  shows "\<exists>svc'. cont_op_with_svc env ph svc (CONT_CLOSE (ch_cont h) u) = (None, svc') \<and>
    cs_hdls svc' = (cs_hdls svc)(u := None)"
proof -
  have inv: "svc_inv svc" by (rule svc_reach_inv [OF assms(1)])
  then obtain cont where c: "cs_conts svc (ch_cont h) = Some cont" using assms(2) by (fastforce simp: svc_inv_def)
  obtain g p where gp: "c_ghce cont = Some g" "c_ghpce cont = Some p" by (rule svc_inv_epochs [OF inv c])
  obtain tx where t: "ds_cont_epoch_fini_hdl env [] cont h = Inr tx"
    using fini_total [OF inv c gp assms(2) refl assms(4)] by blast
  obtain svc' where "apply_upds svc (tx @ [DEL_HDL u]) = Inr svc'" "cs_hdls svc' = (cs_hdls svc)(u := None)"
    using steps_to_grow [OF inv c gp, of "tx @ [DEL_HDL u]" u None] fini_hdl_steps [OF inv c gp assms(2) refl t] assms(2)
    by (metis option.distinct(1) option.sel order_refl)
  then show ?thesis
    using t c assms(2,3)
    by (simp add: cont_op_with_svc_def cont_op_def cont_lookup_def cont_close_def cont_close_one_hdl_def)
qed

theorem cont_close_witness:
  "\<exists>svc'. cont_op_with_svc env0 ph0 svc0 (CONT_CLOSE [1] [1]) = (None, svc') \<and> cs_hdls svc' [1] = None"
  using cont_close_succeeds [OF svc0_reach svc0_facts(1), of env0 ph0] by (auto simp: hdl0_def env0_def purge_ok_def)

section \<open>Closing the handles of pool connections\<close>

lemma shall_close_set: "shall_close p ps \<longleftrightarrow> p \<in> set ps"
  by (induction ps) auto

lemma find_hdls_fold:
  assumes "TCR_SIZE * length (cia_recs arg) \<le> cia_recs_size arg" "TCR_SIZE \<le> cia_recs_size arg"
  shows "cia_recs (fold (\<lambda>(key, hdl). close_iter_cb ps key hdl) hdls arg) =
      cia_recs arg @ map (\<lambda>(u, h). (u, ch_hce h)) (filter (\<lambda>(u, h). ch_pool_hdl h \<in> set ps) hdls) \<and>
    TCR_SIZE * length (cia_recs (fold (\<lambda>(key, hdl). close_iter_cb ps key hdl) hdls arg)) \<le>
      cia_recs_size (fold (\<lambda>(key, hdl). close_iter_cb ps key hdl) hdls arg)"
  using assms
proof (induction hdls arbitrary: arg)
  case (Cons x hdls)
  obtain u h where x: "x = (u, h)" by (cases x)
  let ?arg = "close_iter_cb ps u h arg"
  have "TCR_SIZE * length (cia_recs ?arg) \<le> cia_recs_size ?arg" "TCR_SIZE \<le> cia_recs_size ?arg"
    using Cons.prems by (auto simp: close_iter_cb_def Let_def)
  from Cons.IH [OF this] show ?case by (auto simp: x close_iter_cb_def Let_def shall_close_set)
qed simp

lemma close_one_total:
  assumes inv: "svc_inv svc" and h: "cs_hdls svc u = Some h" and env: "purge_ok env"
  shows "\<exists>tx svc'. cont_close_one_hdl env svc u = Inr tx \<and> apply_upds svc tx = Inr svc' \<and> svc_inv svc' \<and>
    cs_hdls svc' = (cs_hdls svc)(u := None)"
proof -
  obtain cont where c: "cs_conts svc (ch_cont h) = Some cont" using inv h by (fastforce simp: svc_inv_def)
  obtain g p where gp: "c_ghce cont = Some g" "c_ghpce cont = Some p" by (rule svc_inv_epochs [OF inv c])
  obtain tx where t: "ds_cont_epoch_fini_hdl env [] cont h = Inr tx" using fini_total [OF inv c gp h refl env] by blast
  have "\<exists>svc'. apply_upds svc (tx @ [DEL_HDL u]) = Inr svc' \<and> svc_inv svc' \<and> cs_hdls svc' = (cs_hdls svc)(u := None)"
    using steps_to_grow [OF inv c gp, of "tx @ [DEL_HDL u]" u None] fini_hdl_steps [OF inv c gp h refl t] h
    by (metis option.distinct(1) option.sel order_refl)
  then show ?thesis using t c h by (simp add: cont_close_one_hdl_def cont_lookup_def)
qed

lemma close_hdls_loop_total:
  assumes "svc_inv svc" "purge_ok env" "distinct (map fst recs)" "fst ` set recs \<subseteq> dom (cs_hdls svc)"
  shows "\<exists>svc'. close_hdls_loop env svc recs = (None, svc') \<and>
    cs_hdls svc' = (\<lambda>u. if u \<in> fst ` set recs then None else cs_hdls svc u)"
  using assms
proof (induction recs arbitrary: svc)
  case (Cons rec recs)
  then obtain h where "cs_hdls svc (fst rec) = Some h" by auto
  from close_one_total [OF Cons.prems(1) this Cons.prems(2)] obtain tx svc1 where
    t: "cont_close_one_hdl env svc (fst rec) = Inr tx" "apply_upds svc tx = Inr svc1" "svc_inv svc1"
    "cs_hdls svc1 = (cs_hdls svc)(fst rec := None)" by blast
  have "fst rec \<notin> fst ` set recs" using Cons.prems(3) by simp
  moreover have "fst ` set recs \<subseteq> dom (cs_hdls svc)" using Cons.prems(4) by simp
  ultimately have "fst ` set recs \<subseteq> dom (cs_hdls svc1)" unfolding t(4) dom_fun_upd by (simp add: subset_Diff_insert)
  from Cons.IH [OF t(3) Cons.prems(2) _ this] Cons.prems(3) show ?case
    using t by (auto simp: fun_eq_iff)
qed (simp add: fun_eq_iff)

text \<open>
  C29. When pool connections go away, the service closes exactly their container handles: in a reachable
  state, given what an iteration over the handles visits, and with targets that close the handles,
  \<^verbatim>\<open>ds_cont_close_by_pool_hdls\<close> succeeds, and of the handles those remain that belong to other
  connections. Its array of records is never written beyond its size.
\<close>

theorem cont_close_by_pool_hdls_ok:
  assumes "svc_reach svc" "map_of hdls = cs_hdls svc" "distinct (map fst hdls)"
    and "\<forall>recs. ce_close env recs = None" "purge_ok env"
  shows "\<exists>svc'. ds_cont_close_by_pool_hdls env True svc hdls pool_hdls = (None, svc') \<and>
    cs_hdls svc' = (\<lambda>u. case cs_hdls svc u of None \<Rightarrow> None
      | Some h \<Rightarrow> if ch_pool_hdl h \<in> set pool_hdls then None else Some h) \<and>
    TCR_SIZE * length (cia_recs (find_hdls_to_close hdls pool_hdls)) \<le>
      cia_recs_size (find_hdls_to_close hdls pool_hdls)"
proof -
  have inv: "svc_inv svc" by (rule svc_reach_inv [OF assms(1)])
  define found where "found = filter (\<lambda>(u, h). ch_pool_hdl h \<in> set pool_hdls) hdls"
  define recs where "recs = map (\<lambda>(u, h). (u, ch_hce h)) found"
  have f: "cia_recs (find_hdls_to_close hdls pool_hdls) = recs"
    "TCR_SIZE * length (cia_recs (find_hdls_to_close hdls pool_hdls)) \<le> cia_recs_size (find_hdls_to_close hdls pool_hdls)"
    using find_hdls_fold [of "\<lparr>cia_recs = [], cia_recs_size = 4096\<rparr>" pool_hdls hdls, folded find_hdls_to_close_def]
    by (auto simp: recs_def found_def TCR_SIZE_def)
  have fst_recs: "map fst recs = map fst found" by (simp add: recs_def case_prod_beta)
  have "distinct (map fst recs)" unfolding fst_recs found_def using assms(3) by (rule distinct_map_filter)
  moreover have set: "u \<in> fst ` set recs \<longleftrightarrow> (\<exists>h. cs_hdls svc u = Some h \<and> ch_pool_hdl h \<in> set pool_hdls)" for u
  proof -
    have "fst ` set recs = fst ` set found" using fst_recs by (metis list.set_map)
    then show ?thesis using assms(3) by (auto simp: found_def assms(2) [symmetric] image_iff)
  qed
  moreover have "fst ` set recs \<subseteq> dom (cs_hdls svc)" using set by blast
  ultimately obtain svc' where "close_hdls_loop env svc recs = (None, svc')"
    "cs_hdls svc' = (\<lambda>u. if u \<in> fst ` set recs then None else cs_hdls svc u)"
    using close_hdls_loop_total [OF inv assms(5)] by blast
  moreover have "(\<lambda>u. if u \<in> fst ` set recs then None else cs_hdls svc u) =
      (\<lambda>u. case cs_hdls svc u of None \<Rightarrow> None | Some h \<Rightarrow> if ch_pool_hdl h \<in> set pool_hdls then None else Some h)"
    unfolding set by (auto simp: fun_eq_iff split: option.split)
  ultimately show ?thesis
    using f assms(4) by (auto simp: ds_cont_close_by_pool_hdls_def cont_close_hdls_def Let_def)
qed

text \<open>A state with one handle.\<close>

lemma open_adds:
  assumes inv: "svc_inv svc" and new: "cs_hdls svc u = None"
    and run: "cont_op_with_svc env ph svc (CONT_OPEN c u capas) = (None, svc')"
  shows "\<exists>h. cs_hdls svc' = (cs_hdls svc)(u \<mapsto> h)"
proof -
  obtain cont tx where c: "cs_conts svc c = Some cont" and t: "cont_open env ph svc cont u capas = Inr tx" "apply_upds svc tx = Inr svc'"
    using run by (auto simp: cont_op_with_svc_def cont_op_def cont_lookup_def split: sum.splits option.splits)
  obtain g p where gp: "c_ghce cont = Some g" "c_ghpce cont = Some p" by (rule svc_inv_epochs [OF inv c])
  define h where "h = hdl_init\<lparr>ch_pool_hdl := sph_uuid ph, ch_cont := c_uuid cont, ch_capas := capas\<rparr>"
  obtain tx' h' st where "ch_cont h = c" "ds_cont_epoch_init_hdl [] cont h = Inr (tx', h', st)" "tx = tx' @ [UPD_HDL u h']"
    using t(1) new svc_inv_read(3) [OF inv c gp]
    by (auto simp: h_def cont_open_def Let_def split: if_splits option.splits sum.splits)
  note st = init_hdl_steps [OF inv c gp new this(1,2)] and tx = this(3)
  show ?thesis
    using steps_to_grow [OF inv c gp, of tx u "Some h'"] st new tx t(2)
    by (metis Inr_inject option.distinct(1) option.sel order_refl)
qed

definition svc1 :: cont_svc where
  "svc1 = snd (run_reqs svc_empty [CONT_CREATE [1], CONT_OPEN [1] [1] DAOS_COO_RW])"

lemma svc1_facts:
  "svc_reach svc1" "\<exists>h. cs_hdls svc1 = Map.empty([1] \<mapsto> h) \<and> ch_pool_hdl h = [9]"
proof -
  let ?svc = "snd (cont_op_with_svc env0 ph0 svc_empty (CONT_CREATE [1]))"
  have "reqs_ok svc_empty [CONT_CREATE [1], CONT_OPEN [1] [1] DAOS_COO_RW]" by code_simp
  then show "svc_reach svc1" unfolding svc1_def by (rule run_reqs_reach [OF reach_empty])
  have "svc_reach (snd (run_reqs svc_empty [CONT_CREATE [1]]))" by (rule run_reqs_reach [OF reach_empty]) simp
  then have inv: "svc_inv ?svc" using svc_reach_inv by (simp add: Let_def case_prod_beta)
  have h: "cs_hdls ?svc = Map.empty"
    by (simp add: cont_op_with_svc_def cont_op_def cont_create_def svc_empty_def ph0_def has_capa_def DAOS_PC_RW_def)
  have "fst (cont_op_with_svc env0 ph0 ?svc (CONT_OPEN [1] [1] DAOS_COO_RW)) = None" by code_simp
  then have "cont_op_with_svc env0 ph0 ?svc (CONT_OPEN [1] [1] DAOS_COO_RW) = (None, svc1)"
    by (simp add: svc1_def Let_def case_prod_beta prod_eq_iff)
  from open_adds [OF inv _ this] h obtain h' where "cs_hdls svc1 = Map.empty([1] \<mapsto> h')" by auto
  moreover have "map_option ch_pool_hdl (cs_hdls svc1 [1]) = Some [9]" by code_simp
  ultimately show "\<exists>h. cs_hdls svc1 = Map.empty([1] \<mapsto> h) \<and> ch_pool_hdl h = [9]" by auto
qed

theorem cont_close_by_pool_hdls_witness:
  "\<exists>h svc'. ds_cont_close_by_pool_hdls env0 True svc1 [([1], h)] [[9]] = (None, svc') \<and> cs_hdls svc' [1] = None"
proof -
  obtain h where h: "cs_hdls svc1 = Map.empty([1] \<mapsto> h)" "ch_pool_hdl h = [9]" using svc1_facts(2) by blast
  show ?thesis
    using cont_close_by_pool_hdls_ok [OF svc1_facts(1), of "[([1], h)]" env0 "[[9]]"] h
    by (intro exI [of _ h]) (auto simp: env0_def purge_ok_def)
qed

section \<open>Requests that break the promises\<close>



end
