(* ===== verification/Evt.thy ===== *)
theory Evt
  imports Prelude
begin

text \<open>
  The extent version tree (\<^verbatim>\<open>src/vos/evtree.c\<close>, \<^verbatim>\<open>src/vos/evt_iter.c\<close>): a rectangle tree whose rectangles
  are versioned extents, ranges of offsets by ranges of epochs. Definitions only.

  Nodes are values instead of memory: a child is stored where the code stores its address, the data
  pointer of an extent is stored in the leaf, and the address of a rectangle in a leaf is the path of
  positions that leads to it. Memory allocation succeeds. Loops that walk the tree with the trace of a
  context are recursions; the frames of a trace are kept where the code goes back up.
\<close>

section \<open>Rectangles\<close>

record evt_rect =
  rc_off_lo :: u64
  rc_off_hi :: u64
  rc_epc_lo :: u64
  rc_epc_hi :: u64

definition EPOCH_MAX :: u64 where "EPOCH_MAX = - 1"

definition evt_rect_width :: "evt_rect \<Rightarrow> u64" where
  "evt_rect_width rect = rc_off_hi rect - rc_off_lo rect + 1"

datatype rt_overlap =
    RT_OVERLAP_NO
  | RT_OVERLAP_YES
  | RT_OVERLAP_EXPAND
  | RT_OVERLAP_INPLACE
  | RT_OVERLAP_SAME
  | RT_OVERLAP_CAPPING
  | RT_OVERLAP_CAPPED
  | RT_OVERLAP_INCLUDED

definition evt_rect_is_wider :: "evt_rect \<Rightarrow> evt_rect \<Rightarrow> bool" where
  "evt_rect_is_wider rt1 rt2 \<longleftrightarrow> rc_off_lo rt1 \<le> rc_off_lo rt2 \<and> rc_off_hi rt1 \<ge> rc_off_hi rt2"

definition evt_rect_equal_width :: "evt_rect \<Rightarrow> evt_rect \<Rightarrow> bool" where
  "evt_rect_equal_width rt1 rt2 \<longleftrightarrow> rc_off_lo rt1 = rc_off_lo rt2 \<and> rc_off_hi rt1 = rc_off_hi rt2"

definition evt_rect_overlap :: "evt_rect \<Rightarrow> evt_rect \<Rightarrow> bool \<Rightarrow> rt_overlap" where
  "evt_rect_overlap rt1 rt2 leaf =
     (if rc_off_lo rt1 > rc_off_hi rt2 \<or> rc_off_hi rt1 < rc_off_lo rt2 \<or>
         rc_epc_lo rt1 > rc_epc_hi rt2 \<or> rc_epc_hi rt1 < rc_epc_lo rt2
      then RT_OVERLAP_NO
      else if leaf then
        (if rc_epc_lo rt1 = rc_epc_lo rt2 then
           (if evt_rect_equal_width rt1 rt2 then RT_OVERLAP_SAME
            else if evt_rect_is_wider rt1 rt2 then RT_OVERLAP_INPLACE
            else if evt_rect_is_wider rt2 rt1 then RT_OVERLAP_EXPAND
            else RT_OVERLAP_YES)
         else if rc_epc_lo rt1 < rc_epc_lo rt2 then
           (if evt_rect_is_wider rt2 rt1 then RT_OVERLAP_CAPPING else RT_OVERLAP_YES)
         else (if evt_rect_is_wider rt1 rt2 then RT_OVERLAP_CAPPED else RT_OVERLAP_YES))
      else
        (if evt_rect_is_wider rt1 rt2 \<and> rc_epc_lo rt1 \<le> rc_epc_lo rt2 \<and> rc_epc_hi rt1 \<ge> rc_epc_hi rt2
         then RT_OVERLAP_INCLUDED else RT_OVERLAP_YES))"

text \<open>The bounding rectangle, and whether the first one has changed.\<close>

definition evt_rect_merge :: "evt_rect \<Rightarrow> evt_rect \<Rightarrow> evt_rect \<times> bool" where
  "evt_rect_merge rt1 rt2 =
     (let c1 = rc_off_lo rt1 > rc_off_lo rt2; r1 = (if c1 then rt1\<lparr>rc_off_lo := rc_off_lo rt2\<rparr> else rt1);
          c2 = rc_off_hi r1 < rc_off_hi rt2; r2 = (if c2 then r1\<lparr>rc_off_hi := rc_off_hi rt2\<rparr> else r1);
          c3 = rc_epc_lo r2 > rc_epc_lo rt2; r3 = (if c3 then r2\<lparr>rc_epc_lo := rc_epc_lo rt2\<rparr> else r2);
          c4 = rc_epc_hi r3 < rc_epc_hi rt2; r4 = (if c4 then r3\<lparr>rc_epc_hi := rc_epc_hi rt2\<rparr> else r3)
      in (r4, c1 \<or> c2 \<or> c3 \<or> c4))"

section \<open>Weights\<close>

text \<open>The members are signed; words with their signed reading.\<close>

record evt_weight =
  wt_major :: u64
  wt_minor :: u64

definition evt_weight_cmp :: "evt_weight \<Rightarrow> evt_weight \<Rightarrow> int" where
  "evt_weight_cmp wt1 wt2 =
     (if sint (wt_major wt1) < sint (wt_major wt2) then - 1
      else if sint (wt_major wt1) > sint (wt_major wt2) then 1
      else if sint (wt_minor wt1) < sint (wt_minor wt2) then - 1
      else if sint (wt_minor wt1) > sint (wt_minor wt2) then 1
      else 0)"

definition evt_weight_diff :: "evt_weight \<Rightarrow> evt_weight \<Rightarrow> evt_weight" where
  "evt_weight_diff wt1 wt2 = \<lparr>wt_major = wt_major wt1 - wt_major wt2, wt_minor = wt_minor wt1 - wt_minor wt2\<rparr>"

definition evt_ssof_rect_weight :: "evt_rect \<Rightarrow> evt_weight" where
  "evt_ssof_rect_weight rect = \<lparr>wt_major = rc_off_hi rect - rc_off_lo rect, wt_minor = - rc_epc_lo rect\<rparr>"

section \<open>Data pointers\<close>

text \<open>
  A data pointer has an external buffer or holds up to 16 bytes itself. A reference to it is what a leaf
  stores.
\<close>

definition EVT_PTR_PAYLOAD :: nat where "EVT_PTR_PAYLOAD = 16"

record evt_ptr =
  pt_mmid :: "bytes option"
  pt_cookie :: bytes
  pt_inum :: u64
  pt_inob :: u32
  pt_ver :: u32
  pt_payload :: bytes

record evt_ptr_ref =
  pr_ptr :: evt_ptr
  pr_offset :: u64
  pr_inum :: u64

text \<open>
  \<^verbatim>\<open>evt_ptr_create\<close>: the size of the buffer, \<open>idx_nob * idx_num\<close>, is computed in 64 bits. A new buffer has
  any contents; zeros here.
\<close>

definition evt_ptr_create :: "bytes \<Rightarrow> u32 \<Rightarrow> bytes option \<Rightarrow> u32 \<Rightarrow> u64 \<Rightarrow> evt_ptr" where
  "evt_ptr_create cookie pm_ver mmid idx_nob idx_num =
     (let nob = unat (ucast idx_nob * idx_num)
      in \<lparr>pt_mmid = (if mmid = None \<and> nob > EVT_PTR_PAYLOAD then Some (replicate nob 0) else mmid),
          pt_cookie = cookie, pt_inum = idx_num, pt_inob = idx_nob, pt_ver = pm_ver,
          pt_payload = replicate EVT_PTR_PAYLOAD 0\<rparr>)"

text \<open>The data, \<open>None\<close> for a punched extent.\<close>

definition evt_ptr_payload :: "evt_ptr \<Rightarrow> bytes option" where
  "evt_ptr_payload ptr =
     (case pt_mmid ptr of
        Some buf \<Rightarrow> Some buf
      | None \<Rightarrow> if pt_inob ptr = 0 then None else Some (pt_payload ptr))"

text \<open>Writing at the beginning of the data.\<close>

definition set_payload :: "evt_ptr \<Rightarrow> bytes \<Rightarrow> evt_ptr" where
  "set_payload ptr d =
     (case pt_mmid ptr of
        Some buf \<Rightarrow> ptr\<lparr>pt_mmid := Some (d @ drop (length d) buf)\<rparr>
      | None \<Rightarrow> ptr\<lparr>pt_payload := d @ drop (length d) (pt_payload ptr)\<rparr>)"

fun copy_iovs :: "nat \<Rightarrow> bytes \<Rightarrow> bytes list \<Rightarrow> bytes res" where
  "copy_iovs nob d [] = Inr d"
| "copy_iovs nob d (iov # iovs) =
     (if nob = 0 then Inr d
      else if nob < length iov then Inl DER_IO_INVAL
      else copy_iovs (nob - length iov) (d @ iov) iovs)"

definition evt_ptr_copy_sgl :: "evt_ptr \<Rightarrow> bytes list \<Rightarrow> evt_ptr res" where
  "evt_ptr_copy_sgl ptr iovs =
     (if pt_inob ptr = 0 then Inr ptr
      else (case copy_iovs (unat (ucast (pt_inob ptr) * pt_inum ptr)) [] iovs of
              Inl e \<Rightarrow> Inl e
            | Inr d \<Rightarrow> Inr (set_payload ptr d)))"

section \<open>Nodes\<close>

datatype evt_node =
    EvtLeaf evt_rect "(evt_rect \<times> evt_ptr_ref) list"
  | EvtNode evt_rect "(evt_rect \<times> evt_node) list"

fun tn_mbr :: "evt_node \<Rightarrow> evt_rect" where
  "tn_mbr (EvtLeaf mbr recs) = mbr"
| "tn_mbr (EvtNode mbr children) = mbr"

record evt_root =
  tr_node :: "evt_node option"
  tr_depth :: nat
  tr_order :: nat
  tr_feats :: u64

definition EVT_ORDER_MIN :: nat where "EVT_ORDER_MIN = 4"
definition EVT_ORDER_MAX :: nat where "EVT_ORDER_MAX = 128"
definition EVT_FEAT_SORT_SOFF :: u64 where "EVT_FEAT_SORT_SOFF = 1"

text \<open>The rectangles of the entries and the bounding rectangle of them all.\<close>

definition evt_node_mbr_cal :: "(evt_rect \<times> 'a) list \<Rightarrow> evt_rect" where
  "evt_node_mbr_cal ents = fold (\<lambda>x mbr. fst (evt_rect_merge mbr (fst x))) (tl ents) (fst (hd ents))"

definition evt_ssof_cmp_rect :: "evt_rect \<Rightarrow> evt_rect \<Rightarrow> int" where
  "evt_ssof_cmp_rect rt1 rt2 =
     (if rc_off_lo rt1 < rc_off_lo rt2 then - 1
      else if rc_off_lo rt1 > rc_off_lo rt2 then 1
      else if rc_off_hi rt1 < rc_off_hi rt2 then - 1
      else if rc_off_hi rt1 > rc_off_hi rt2 then 1
      else if rc_epc_lo rt1 < rc_epc_lo rt2 then - 1
      else if rc_epc_lo rt1 > rc_epc_lo rt2 then 1
      else 0)"

fun evt_ssof_insert :: "evt_rect \<times> 'a \<Rightarrow> (evt_rect \<times> 'a) list \<Rightarrow> (evt_rect \<times> 'a) list" where
  "evt_ssof_insert ent [] = [ent]"
| "evt_ssof_insert ent (x # xs) =
     (if evt_ssof_cmp_rect (fst x) (fst ent) < 0 then x # evt_ssof_insert ent xs else ent # x # xs)"

definition evt_ssof_split :: "(evt_rect \<times> 'a) list \<Rightarrow> (evt_rect \<times> 'a) list \<times> (evt_rect \<times> 'a) list" where
  "evt_ssof_split ents =
     (let nr = length ents div 2 + (if length ents mod 2 \<noteq> 0 then 1 else 0) in (take nr ents, drop nr ents))"

text \<open>Inserting into a node with the bounding rectangle \<open>mbr\<close>, and whether that has changed.\<close>

definition evt_node_insert ::
  "evt_rect \<Rightarrow> (evt_rect \<times> 'a) list \<Rightarrow> evt_rect \<times> 'a \<Rightarrow> evt_rect \<times> (evt_rect \<times> 'a) list \<times> bool" where
  "evt_node_insert mbr ents ent =
     (let ents' = evt_ssof_insert ent ents in
      if length ents' = 1 then (fst ent, ents', True)
      else (let (mbr', changed) = evt_rect_merge mbr (fst ent) in (mbr', ents', changed)))"

definition evt_node_weight_diff :: "evt_rect \<Rightarrow> evt_rect \<Rightarrow> evt_weight" where
  "evt_node_weight_diff mbr rect =
     (if evt_rect_overlap mbr rect False = RT_OVERLAP_INCLUDED then \<lparr>wt_major = 0, wt_minor = 0\<rparr>
      else evt_weight_diff (evt_ssof_rect_weight (fst (evt_rect_merge mbr rect))) (evt_ssof_rect_weight mbr))"

text \<open>Whether the first of two nodes, given by their bounding rectangles, is selected.\<close>

definition evt_select_node :: "evt_rect \<Rightarrow> evt_rect \<Rightarrow> evt_rect \<Rightarrow> bool" where
  "evt_select_node rect mbr1 mbr2 \<longleftrightarrow>
     evt_weight_cmp (evt_node_weight_diff mbr1 rect) (evt_node_weight_diff mbr2 rect) < 0"

section \<open>Inserting an entry\<close>

text \<open>
  The way down: among the children the last one whose weight grows least. The loop keeps the position
  and the bounding rectangle of the best child so far.
\<close>

fun select_child :: "evt_rect \<Rightarrow> nat \<Rightarrow> evt_rect \<Rightarrow> nat \<Rightarrow> (evt_rect \<times> evt_node) list \<Rightarrow> nat" where
  "select_child rect at dst i [] = at"
| "select_child rect at dst i ((r, c) # cs) =
     (if evt_select_node rect dst (tn_mbr c) then select_child rect at dst (i + 1) cs
      else select_child rect i (tn_mbr c) (i + 1) cs)"

definition child_for :: "evt_rect \<Rightarrow> (evt_rect \<times> evt_node) list \<Rightarrow> nat" where
  "child_for rect cs = select_child rect 0 (tn_mbr (snd (hd cs))) 1 (tl cs)"

text \<open>
  What goes up to the parent: the child, with the same bounding rectangle as before or with a larger one,
  or the child and a new sibling.
\<close>

datatype evt_up = UpDone evt_node | UpMbr evt_node | UpSplit evt_node evt_node

definition up_node :: "bool \<Rightarrow> evt_node \<Rightarrow> evt_up" where
  "up_node changed nd = (if changed then UpMbr nd else UpDone nd)"

text \<open>A node that is full is split, and the entry goes to one of the halves.\<close>

definition evt_node_split_insert ::
  "(evt_rect \<Rightarrow> (evt_rect \<times> 'a) list \<Rightarrow> evt_node) \<Rightarrow> (evt_rect \<times> 'a) list \<Rightarrow> evt_rect \<times> 'a \<Rightarrow> evt_up" where
  "evt_node_split_insert mk ents ent =
     (let (src, dst) = evt_ssof_split ents; m_src = evt_node_mbr_cal src; m_dst = evt_node_mbr_cal dst in
      if evt_select_node (fst ent) m_src m_dst
      then (let (m, es, changed) = evt_node_insert m_src src ent in UpSplit (mk m es) (mk m_dst dst))
      else (let (m, es, changed) = evt_node_insert m_dst dst ent in UpSplit (mk m_src src) (mk m es)))"

text \<open>
  One round of \<^verbatim>\<open>evt_insert_or_split\<close> in an inner node, whose child at \<open>at\<close> is the one that comes up: the
  rectangle of a child that has changed is updated (\<^verbatim>\<open>evt_node_rect_update\<close>), and a new sibling is inserted.
\<close>

definition evt_node_rect_update ::
  "evt_rect \<Rightarrow> (evt_rect \<times> evt_node) list \<Rightarrow> nat \<Rightarrow> evt_node \<Rightarrow> evt_rect \<times> (evt_rect \<times> evt_node) list \<times> bool" where
  "evt_node_rect_update mbr cs at c =
     (let (mbr', changed) = evt_rect_merge mbr (tn_mbr c) in (mbr', cs[at := (tn_mbr c, c)], changed))"

fun evt_up_step :: "nat \<Rightarrow> evt_rect \<Rightarrow> (evt_rect \<times> evt_node) list \<Rightarrow> nat \<Rightarrow> evt_up \<Rightarrow> evt_up" where
  "evt_up_step order mbr cs at (UpDone c) = UpDone (EvtNode mbr (cs[at := (fst (cs ! at), c)]))"
| "evt_up_step order mbr cs at (UpMbr c) =
     (let (mbr', cs', changed) = evt_node_rect_update mbr cs at c in up_node changed (EvtNode mbr' cs'))"
| "evt_up_step order mbr cs at (UpSplit c new) =
     (let (mbr', cs', changed) = evt_node_rect_update mbr cs at c; ent = (tn_mbr new, new) in
      if length cs' \<noteq> order
      then (let (mbr'', cs'', changed') = evt_node_insert mbr' cs' ent in up_node (changed \<or> changed') (EvtNode mbr'' cs''))
      else evt_node_split_insert EvtNode cs' ent)"

text \<open>The whole way down and up; the entry is a rectangle with its data.\<close>

lemma select_child_bound: "at < n \<Longrightarrow> i + length cs \<le> n \<Longrightarrow> select_child rect at dst i cs < n"
  by (induction rect at dst i cs rule: select_child.induct) auto

lemma child_for_bound: "cs \<noteq> [] \<Longrightarrow> child_for rect cs < length cs"
  unfolding child_for_def by (rule select_child_bound) auto

function evt_insert_node :: "nat \<Rightarrow> evt_rect \<times> evt_ptr_ref \<Rightarrow> evt_node \<Rightarrow> evt_up" where
  "evt_insert_node order ent (EvtLeaf mbr recs) =
     (if length recs \<noteq> order
      then (let (mbr', recs', changed) = evt_node_insert mbr recs ent in up_node changed (EvtLeaf mbr' recs'))
      else evt_node_split_insert EvtLeaf recs ent)"
| "evt_insert_node order ent (EvtNode mbr cs) =
     (if cs = [] then UpDone (EvtNode mbr cs)
      else (let at = child_for (fst ent) cs
            in evt_up_step order mbr cs at (evt_insert_node order ent (snd (cs ! at)))))"
  by pat_completeness auto
termination
proof (relation "measure (\<lambda>(order, ent, nd). size nd)", goal_cases)
  case (2 order ent mbr cs at)
  then have "cs ! at \<in> set cs" by (simp add: child_for_bound)
  then have "size_prod (\<lambda>x. 0) size (cs ! at) \<le> size_list (size_prod (\<lambda>x. 0) size) cs"
    by (simp add: size_list_estimation')
  then show ?case by (cases "cs ! at") simp
qed simp

text \<open>At the root, a split makes a new root, into which the new node and then the old root go.\<close>

fun evt_root_up :: "evt_root \<Rightarrow> evt_up \<Rightarrow> evt_root" where
  "evt_root_up root (UpDone nd) = root\<lparr>tr_node := Some nd\<rparr>"
| "evt_root_up root (UpMbr nd) = root\<lparr>tr_node := Some nd\<rparr>"
| "evt_root_up root (UpSplit nd new) =
     (let (m1, es1, c1) = evt_node_insert (tn_mbr new) [] (tn_mbr new, new);
          (m2, es2, c2) = evt_node_insert m1 es1 (tn_mbr nd, nd)
      in root\<lparr>tr_node := Some (EvtNode m2 es2), tr_depth := tr_depth root + 1\<rparr>)"

definition evt_insert_entry :: "evt_root \<Rightarrow> evt_rect \<times> evt_ptr_ref \<Rightarrow> evt_root" where
  "evt_insert_entry root ent =
     (case tr_node root of
        None \<Rightarrow> root
      | Some nd \<Rightarrow> evt_root_up root (evt_insert_node (tr_order root) ent nd))"

section \<open>Searching\<close>

text \<open>
  An entry that a search returns: the extent, clipped to the offsets searched for, its data and where they
  start; the address of an extent in the tree is the path of positions to it.
\<close>

record evt_entry =
  en_rect :: evt_rect
  en_cookie :: bytes
  en_ver :: u32
  en_inob :: u32
  en_offset :: u64
  en_ptr :: evt_ptr
  en_addr :: "(bytes \<times> nat) option"
  en_path :: "nat list"

text \<open>The assertions on the data of an extent, of \<^verbatim>\<open>evt_ptr_payload\<close> and of \<^verbatim>\<open>evt_fill_entry\<close>.\<close>

definition ptr_asserts :: "evt_ptr \<Rightarrow> bool" where
  "ptr_asserts ptr \<longleftrightarrow>
     (case pt_mmid ptr of
        Some buf \<Rightarrow> pt_inob ptr \<noteq> 0
      | None \<Rightarrow> pt_inob ptr = 0 \<or> ucast (pt_inob ptr) * pt_inum ptr \<le> of_nat EVT_PTR_PAYLOAD)"

text \<open>\<^verbatim>\<open>evt_fill_entry\<close>; \<open>None\<close> where an assertion fails.\<close>

definition evt_fill_entry :: "evt_rect option \<Rightarrow> evt_rect \<Rightarrow> evt_ptr_ref \<Rightarrow> nat list \<Rightarrow> evt_entry option" where
  "evt_fill_entry srch rect pref path =
     (let width = evt_rect_width rect;
          offset = (case srch of
                      Some s \<Rightarrow> if rc_off_lo s > rc_off_lo rect then rc_off_lo s - rc_off_lo rect else 0
                    | None \<Rightarrow> 0);
          clip_lo = (case srch of Some s \<Rightarrow> rc_off_lo s > rc_off_lo rect | None \<Rightarrow> False);
          width1 = width - offset;
          clip_hi = (case srch of Some s \<Rightarrow> rc_off_hi s < rc_off_hi rect | None \<Rightarrow> False);
          nr = (case srch of Some s \<Rightarrow> rc_off_hi rect - rc_off_hi s | None \<Rightarrow> 0);
          width2 = (if clip_hi then width1 - nr else width1);
          lo = rc_off_lo rect + offset;
          ptr = pr_ptr pref
      in if clip_lo \<and> \<not> width > offset \<or> clip_hi \<and> \<not> width1 > nr \<or> \<not> ptr_asserts ptr then None
         else Some
           \<lparr>en_rect = rect\<lparr>rc_off_lo := lo, rc_off_hi := lo + width2 - 1\<rparr>, en_cookie = pt_cookie ptr,
            en_ver = pt_ver ptr, en_inob = pt_inob ptr,
            en_offset = (if evt_ptr_payload ptr = None then 0 else pr_offset pref + offset),
            en_ptr = ptr,
            en_addr = (case evt_ptr_payload ptr of
                         None \<Rightarrow> None
                       | Some d \<Rightarrow> Some (d, unat ((pr_offset pref + offset) * ucast (pt_inob ptr)))),
            en_path = path\<rparr>)"

text \<open>
  The list of entries: the counter is only raised for the entries that are embedded in the list.
\<close>

definition ERT_ENT_EMBEDDED :: nat where "ERT_ENT_EMBEDDED = 8"

record evt_entry_list =
  el_list :: "evt_entry list"
  el_ent_nr :: nat

definition evt_ent_list_init :: evt_entry_list where
  "evt_ent_list_init = \<lparr>el_list = [], el_ent_nr = 0\<rparr>"

definition evt_ent_list_alloc :: "evt_entry_list \<Rightarrow> evt_entry \<Rightarrow> evt_entry_list" where
  "evt_ent_list_alloc el ent =
     \<lparr>el_list = el_list el @ [ent],
      el_ent_nr = (if el_ent_nr el < ERT_ENT_EMBEDDED then el_ent_nr el + 1 else el_ent_nr el)\<rparr>"

text \<open>Finalising frees entries from the tail of the list; the entries that are freed are the result.\<close>

fun fini_loop :: "nat \<Rightarrow> evt_entry list \<Rightarrow> evt_entry list" where
  "fini_loop nr ents = (if nr > ERT_ENT_EMBEDDED \<and> ents \<noteq> [] then last ents # fini_loop (nr - 1) (butlast ents) else [])"

declare fini_loop.simps [simp del]

definition evt_ent_list_fini :: "evt_entry_list \<Rightarrow> evt_entry_list \<times> evt_entry list" where
  "evt_ent_list_fini el = (evt_ent_list_init, fini_loop (el_ent_nr el) (el_list el))"

datatype evt_find_opc = EVT_FIND_ALL | EVT_FIND_FIRST | EVT_FIND_CAP | EVT_FIND_SAME

text \<open>
  The state of a search is the rectangle, which \<^verbatim>\<open>EVT_FIND_CAP\<close> changes, and the entries found. It goes on,
  stops at an entry, fails, or violates an assertion.
\<close>

datatype find_rc =
    FindNext evt_rect evt_entry_list
  | FindStop evt_rect evt_entry_list "nat list"
  | FindErr der
  | FindAbort

definition find_rec ::
  "evt_find_opc \<Rightarrow> nat list \<Rightarrow> evt_rect \<Rightarrow> evt_ptr_ref \<Rightarrow> evt_rect \<Rightarrow> evt_entry_list \<Rightarrow> find_rc" where
  "find_rec opc path rtmp pref rect el =
     (let overlap = evt_rect_overlap rtmp rect True;
          add = (case evt_fill_entry (Some rect) rtmp pref path of
                   None \<Rightarrow> FindAbort
                 | Some ent \<Rightarrow>
                     if opc = EVT_FIND_FIRST \<or> opc = EVT_FIND_SAME
                     then FindStop rect (evt_ent_list_alloc el ent) path
                     else FindNext rect (evt_ent_list_alloc el ent))
      in if overlap = RT_OVERLAP_NO then FindNext rect el
         else (case opc of
                 EVT_FIND_CAP \<Rightarrow>
                   if overlap = RT_OVERLAP_CAPPED then FindNext (rect\<lparr>rc_epc_hi := rc_epc_lo rtmp - 1\<rparr>) el
                   else if overlap = RT_OVERLAP_CAPPING \<or> overlap = RT_OVERLAP_SAME then add
                   else FindErr DER_NO_PERM
               | EVT_FIND_SAME \<Rightarrow> if overlap \<noteq> RT_OVERLAP_SAME then FindNext rect el else add
               | _ \<Rightarrow> add))"

fun find_bind :: "find_rc \<Rightarrow> (evt_rect \<Rightarrow> evt_entry_list \<Rightarrow> find_rc) \<Rightarrow> find_rc" where
  "find_bind (FindNext rect el) f = f rect el"
| "find_bind (FindStop rect el path) f = FindStop rect el path"
| "find_bind (FindErr e) f = FindErr e"
| "find_bind FindAbort f = FindAbort"

lemma find_bind_cong [fundef_cong]:
  assumes "r = r'" "\<And>rect el. r' = FindNext rect el \<Longrightarrow> f rect el = g rect el"
  shows "find_bind r f = find_bind r' g"
  using assms by (cases r') auto

fun find_recs ::
  "evt_find_opc \<Rightarrow> nat list \<Rightarrow> nat \<Rightarrow> (evt_rect \<times> evt_ptr_ref) list \<Rightarrow> evt_rect \<Rightarrow> evt_entry_list \<Rightarrow> find_rc" where
  "find_recs opc pre i [] rect el = FindNext rect el"
| "find_recs opc pre i ((r, p) # recs) rect el =
     find_bind (find_rec opc (pre @ [i]) r p rect el) (find_recs opc pre (i + 1) recs)"

fun find_node :: "evt_find_opc \<Rightarrow> nat list \<Rightarrow> evt_node \<Rightarrow> evt_rect \<Rightarrow> evt_entry_list \<Rightarrow> find_rc"
and find_children ::
  "evt_find_opc \<Rightarrow> nat list \<Rightarrow> nat \<Rightarrow> (evt_rect \<times> evt_node) list \<Rightarrow> evt_rect \<Rightarrow> evt_entry_list \<Rightarrow> find_rc" where
  "find_node opc pre (EvtLeaf mbr recs) rect el = find_recs opc pre 0 recs rect el"
| "find_node opc pre (EvtNode mbr cs) rect el = find_children opc pre 0 cs rect el"
| "find_children opc pre i [] rect el = FindNext rect el"
| "find_children opc pre i ((r, c) # cs) rect el =
     (if evt_rect_overlap r rect False = RT_OVERLAP_NO then find_children opc pre (i + 1) cs rect el
      else find_bind (find_node opc (pre @ [i]) c rect el) (find_children opc pre (i + 1) cs))"

definition evt_find_ent_list :: "evt_root \<Rightarrow> evt_find_opc \<Rightarrow> evt_rect \<Rightarrow> find_rc" where
  "evt_find_ent_list root opc rect =
     (case tr_node root of
        None \<Rightarrow> FindNext rect evt_ent_list_init
      | Some nd \<Rightarrow> find_node opc [] nd rect evt_ent_list_init)"

text \<open>\<^verbatim>\<open>evt_find\<close>; \<open>None\<close> where an assertion fails. Sorting the entries is not implemented.\<close>

definition evt_ent_list_sort :: "evt_entry list \<Rightarrow> evt_entry list" where
  "evt_ent_list_sort ents = ents"

definition evt_find :: "evt_root \<Rightarrow> evt_rect \<Rightarrow> evt_entry list res option" where
  "evt_find root rect =
     (case evt_find_ent_list root EVT_FIND_ALL rect of
        FindNext rect' el \<Rightarrow> Some (Inr (evt_ent_list_sort (el_list el)))
      | FindStop rect' el path \<Rightarrow> Some (Inr (evt_ent_list_sort (el_list el)))
      | FindErr e \<Rightarrow> Some (Inl e)
      | FindAbort \<Rightarrow> None)"

section \<open>Clipping\<close>

text \<open>Changing the extent at a path.\<close>

fun evt_upd_at ::
  "nat list \<Rightarrow> (evt_rect \<times> evt_ptr_ref \<Rightarrow> evt_rect \<times> evt_ptr_ref) \<Rightarrow> evt_node \<Rightarrow> evt_node" where
  "evt_upd_at [i] f (EvtLeaf mbr recs) = EvtLeaf mbr (if i < length recs then recs[i := f (recs ! i)] else recs)"
| "evt_upd_at (i # is) f (EvtNode mbr cs) =
     EvtNode mbr (if i < length cs then cs[i := (fst (cs ! i), evt_upd_at is f (snd (cs ! i)))] else cs)"
| "evt_upd_at is f nd = nd"

fun evt_rec_at :: "nat list \<Rightarrow> evt_node \<Rightarrow> (evt_rect \<times> evt_ptr_ref) option" where
  "evt_rec_at [i] (EvtLeaf mbr recs) = (if i < length recs then Some (recs ! i) else None)"
| "evt_rec_at (i # is) (EvtNode mbr cs) = (if i < length cs then evt_rec_at is (snd (cs ! i)) else None)"
| "evt_rec_at is nd = None"

text \<open>
  The loop over the extents found: an older one gets its last epoch, the one of the same epoch gets the
  new data (\<^verbatim>\<open>evt_ptr_copy\<close>). The result is the tree and whether an extent was replaced; \<open>None\<close> where an
  assertion fails.
\<close>

definition evt_ptr_copy :: "evt_ptr_ref \<Rightarrow> evt_ptr \<Rightarrow> evt_ptr_ref" where
  "evt_ptr_copy dst src = dst\<lparr>pr_ptr := src\<rparr>"

fun clip_loop ::
  "evt_rect \<Rightarrow> evt_ptr \<Rightarrow> evt_entry list \<Rightarrow> bool \<Rightarrow> evt_node \<Rightarrow> (evt_node \<times> bool) option" where
  "clip_loop rt2 ptr [] replaced nd = Some (nd, replaced)"
| "clip_loop rt2 ptr (ent # ents) replaced nd =
     (case evt_rec_at (en_path ent) nd of
        None \<Rightarrow> None
      | Some (rt1, pref) \<Rightarrow>
         if \<not> evt_rect_is_wider rt2 rt1 \<or> \<not> rc_epc_lo rt1 \<le> rc_epc_lo rt2 then None
         else if rc_epc_lo rt1 < rc_epc_lo rt2
         then (if \<not> rc_epc_hi rt1 \<ge> rc_epc_lo rt2 then None
               else clip_loop rt2 ptr ents replaced
                      (evt_upd_at (en_path ent) (\<lambda>(r, p). (r\<lparr>rc_epc_hi := rc_epc_lo rt2 - 1\<rparr>, p)) nd))
         else if replaced \<or> \<not> evt_rect_equal_width rt1 rt2 then None
         else clip_loop rt2 ptr ents True (evt_upd_at (en_path ent) (\<lambda>(r, p). (r, evt_ptr_copy p ptr)) nd))"

text \<open>
  \<^verbatim>\<open>evt_clip_entry\<close>: the tree and the entry that is still to be inserted, if any.
\<close>

definition evt_clip_entry :: "evt_root \<Rightarrow> evt_rect \<Rightarrow> evt_ptr \<Rightarrow> (evt_root \<times> evt_rect option) res option" where
  "evt_clip_entry root rect ptr =
     (case evt_find_ent_list root EVT_FIND_CAP rect of
        FindNext rect' el \<Rightarrow>
          (case tr_node root of
             None \<Rightarrow> Some (Inr (root, Some rect'))
           | Some nd \<Rightarrow>
              (case clip_loop rect' ptr (el_list el) False nd of
                 None \<Rightarrow> None
               | Some (nd', replaced) \<Rightarrow>
                   Some (Inr (root\<lparr>tr_node := Some nd'\<rparr>, if replaced then None else Some rect'))))
      | FindStop rect' el path \<Rightarrow> None
      | FindErr e \<Rightarrow> Some (Inl e)
      | FindAbort \<Rightarrow> None)"

section \<open>The operations of a tree\<close>

definition evt_root_activate :: "evt_root \<Rightarrow> evt_root" where
  "evt_root_activate root =
     root\<lparr>tr_node := Some (EvtLeaf \<lparr>rc_off_lo = 0, rc_off_hi = 0, rc_epc_lo = 0, rc_epc_hi = 0\<rparr> []), tr_depth := 1\<rparr>"

definition evt_insert_ptr :: "evt_root \<Rightarrow> evt_rect \<Rightarrow> evt_ptr \<Rightarrow> evt_root res option" where
  "evt_insert_ptr root rect ptr =
     (let root1 = (if tr_depth root = 0 then evt_root_activate root else root);
          rect1 = (if rc_epc_hi rect = 0 then rect\<lparr>rc_epc_hi := EPOCH_MAX\<rparr> else rect)
      in case evt_clip_entry root1 rect1 ptr of
           None \<Rightarrow> None
         | Some (Inl e) \<Rightarrow> Some (Inl e)
         | Some (Inr (root2, None)) \<Rightarrow> Some (Inr root2)
         | Some (Inr (root2, Some rect2)) \<Rightarrow>
             Some (Inr (evt_insert_entry root2
               (rect2, \<lparr>pr_ptr = ptr, pr_offset = 0, pr_inum = evt_rect_width rect2\<rparr>))))"

definition evt_insert :: "evt_root \<Rightarrow> bytes \<Rightarrow> u32 \<Rightarrow> evt_rect \<Rightarrow> u32 \<Rightarrow> bytes option \<Rightarrow> evt_root res option" where
  "evt_insert root cookie pm_ver rect inob mmid =
     evt_insert_ptr root rect (evt_ptr_create cookie pm_ver mmid inob (evt_rect_width rect))"

definition evt_insert_sgl :: "evt_root \<Rightarrow> bytes \<Rightarrow> u32 \<Rightarrow> evt_rect \<Rightarrow> u32 \<Rightarrow> bytes list \<Rightarrow> evt_root res option" where
  "evt_insert_sgl root cookie pm_ver rect inob iovs =
     (case evt_ptr_copy_sgl (evt_ptr_create cookie pm_ver None inob (evt_rect_width rect)) iovs of
        Inl e \<Rightarrow> Some (Inl e)
      | Inr ptr \<Rightarrow> evt_insert_ptr root rect ptr)"

unbundle bit_operations_syntax

definition evt_create :: "u64 \<Rightarrow> nat \<Rightarrow> evt_root res" where
  "evt_create feats order =
     (if feats AND EVT_FEAT_SORT_SOFF = 0 then Inl DER_INVAL
      else if order < EVT_ORDER_MIN \<or> order > EVT_ORDER_MAX then Inl DER_INVAL
      else Inr \<lparr>tr_node = None, tr_depth = 0, tr_order = order, tr_feats = feats\<rparr>)"

text \<open>Destroying a tree: the nodes that are freed, and the data pointers.\<close>

fun evt_node_destroy :: "evt_node \<Rightarrow> nat \<times> evt_ptr list"
and destroy_children :: "(evt_rect \<times> evt_node) list \<Rightarrow> nat \<times> evt_ptr list" where
  "evt_node_destroy (EvtLeaf mbr recs) = (1, map (\<lambda>x. pr_ptr (snd x)) recs)"
| "evt_node_destroy (EvtNode mbr cs) = (let (n, ptrs) = destroy_children cs in (n + 1, ptrs))"
| "destroy_children [] = (0, [])"
| "destroy_children ((r, c) # cs) =
     (let (n, ptrs) = evt_node_destroy c; (n', ptrs') = destroy_children cs in (n + n', ptrs @ ptrs'))"

section \<open>Iteration\<close>

text \<open>
  The trace of an iterator is the path to its extent. Moving it: the next position in the deepest node
  that has one, and from there the first or last extent of the subtree.
\<close>

fun first_path :: "evt_node \<Rightarrow> nat list"
and first_child :: "(evt_rect \<times> evt_node) list \<Rightarrow> nat list" where
  "first_path (EvtLeaf mbr recs) = [0]"
| "first_path (EvtNode mbr cs) = first_child cs"
| "first_child [] = []"
| "first_child ((r, c) # cs) = 0 # first_path c"

fun last_path :: "evt_node \<Rightarrow> nat list"
and last_child :: "nat \<Rightarrow> (evt_rect \<times> evt_node) list \<Rightarrow> nat list" where
  "last_path (EvtLeaf mbr recs) = [length recs - 1]"
| "last_path (EvtNode mbr cs) = last_child 0 cs"
| "last_child i [] = []"
| "last_child i ((r, c) # cs) = (if cs = [] then i # last_path c else last_child (i + 1) cs)"

fun evt_move_trace :: "bool \<Rightarrow> nat list \<Rightarrow> evt_node \<Rightarrow> nat list option" where
  "evt_move_trace forward [i] (EvtLeaf mbr recs) =
     (if forward then (if i = length recs - 1 then None else Some [i + 1])
      else (if i = 0 then None else Some [i - 1]))"
| "evt_move_trace forward (i # is) (EvtNode mbr cs) =
     (if i < length cs
      then (case evt_move_trace forward is (snd (cs ! i)) of
              Some p \<Rightarrow> Some (i # p)
            | None \<Rightarrow>
               if forward then (if i = length cs - 1 then None else Some ((i + 1) # first_path (snd (cs ! (i + 1)))))
               else (if i = 0 then None else Some ((i - 1) # last_path (snd (cs ! (i - 1))))))
      else None)"
| "evt_move_trace forward is nd = None"

datatype evt_iter_state = EVT_ITER_NONE | EVT_ITER_INIT | EVT_ITER_READY | EVT_ITER_FINI

record evt_iterator =
  it_root :: evt_root
  it_state :: evt_iter_state
  it_trace :: "nat list"

definition evt_iter_prepare :: "evt_root \<Rightarrow> evt_iterator res" where
  "evt_iter_prepare root =
     (if tr_feats root = 0 then Inl DER_INVAL
      else Inr \<lparr>it_root = root, it_state = EVT_ITER_INIT, it_trace = []\<rparr>)"

definition evt_iter_finish :: "evt_iterator \<Rightarrow> evt_iterator" where
  "evt_iter_finish iter = iter\<lparr>it_state := EVT_ITER_NONE\<rparr>"

datatype evt_iter_opc = EVT_ITER_FIRST | EVT_ITER_FIND

text \<open>The error, if any, and the iterator; \<open>None\<close> where an assertion fails.\<close>

definition evt_iter_probe ::
  "evt_iterator \<Rightarrow> evt_iter_opc \<Rightarrow> evt_rect option \<Rightarrow> (der option \<times> evt_iterator) option" where
  "evt_iter_probe iter opc rect =
     (if it_state iter = EVT_ITER_NONE then Some (Some DER_NO_HDL, iter)
      else if opc = EVT_ITER_FIND \<and> rect = None then Some (Some DER_INVAL, iter)
      else (let rtmp = (case opc of
                          EVT_ITER_FIRST \<Rightarrow> \<lparr>rc_off_lo = 0, rc_off_hi = - 1, rc_epc_lo = 0, rc_epc_hi = EPOCH_MAX\<rparr>
                        | EVT_ITER_FIND \<Rightarrow>
                            if rc_epc_hi (the rect) = 0 then (the rect)\<lparr>rc_epc_hi := EPOCH_MAX\<rparr> else the rect);
                fopc = (case opc of EVT_ITER_FIRST \<Rightarrow> EVT_FIND_FIRST | EVT_ITER_FIND \<Rightarrow> EVT_FIND_SAME)
            in case evt_find_ent_list (it_root iter) fopc rtmp of
                 FindAbort \<Rightarrow> None
               | FindErr e \<Rightarrow> Some (Some e, iter)
               | FindStop rect' el path \<Rightarrow> Some (None, iter\<lparr>it_state := EVT_ITER_READY, it_trace := path\<rparr>)
               | FindNext rect' el \<Rightarrow>
                   if opc = EVT_ITER_FIND then Some (Some DER_AGAIN, iter)
                   else Some (Some DER_NONEXIST, iter\<lparr>it_state := EVT_ITER_FINI\<rparr>)))"

definition evt_iter_is_ready :: "evt_iterator \<Rightarrow> der option" where
  "evt_iter_is_ready iter =
     (case it_state iter of
        EVT_ITER_NONE \<Rightarrow> Some DER_NO_PERM
      | EVT_ITER_INIT \<Rightarrow> Some DER_NO_PERM
      | EVT_ITER_FINI \<Rightarrow> Some DER_NONEXIST
      | EVT_ITER_READY \<Rightarrow> None)"

definition evt_iter_move :: "evt_iterator \<Rightarrow> bool \<Rightarrow> der option \<times> evt_iterator" where
  "evt_iter_move iter forward =
     (case evt_iter_is_ready iter of
        Some e \<Rightarrow> (Some e, iter)
      | None \<Rightarrow>
         (case tr_node (it_root iter) of
            None \<Rightarrow> (Some DER_NONEXIST, iter\<lparr>it_state := EVT_ITER_FINI\<rparr>)
          | Some nd \<Rightarrow>
             (case evt_move_trace forward (it_trace iter) nd of
                None \<Rightarrow> (Some DER_NONEXIST, iter\<lparr>it_state := EVT_ITER_FINI\<rparr>)
              | Some path \<Rightarrow> (None, iter\<lparr>it_state := EVT_ITER_READY, it_trace := path\<rparr>))))"

definition evt_iter_next :: "evt_iterator \<Rightarrow> der option \<times> evt_iterator" where
  "evt_iter_next iter = evt_iter_move iter True"

text \<open>The entry, and the extent that the anchor holds.\<close>

definition evt_iter_fetch :: "evt_iterator \<Rightarrow> (evt_entry \<times> evt_rect) res option" where
  "evt_iter_fetch iter =
     (case evt_iter_is_ready iter of
        Some e \<Rightarrow> Some (Inl e)
      | None \<Rightarrow>
         (case tr_node (it_root iter) of
            None \<Rightarrow> None
          | Some nd \<Rightarrow>
             (case evt_rec_at (it_trace iter) nd of
                None \<Rightarrow> None
              | Some (rect, pref) \<Rightarrow>
                  if pr_offset pref \<noteq> 0 then None
                  else map_option
                         (\<lambda>ent. Inr (ent, if rc_epc_hi rect = EPOCH_MAX then rect\<lparr>rc_epc_hi := 0\<rparr> else rect))
                         (evt_fill_entry None rect pref (it_trace iter)))))"

section \<open>Fetching the records of an extent\<close>

text \<open>
  The loop of \<^verbatim>\<open>akey_fetch_recx\<close> (\<^verbatim>\<open>src/vos/vos_obj.c\<close>) over the extents found. Its state is the next
  index, the width of the holes seen and not yet skipped, the record size, and what has been handed
  to the I/O buffer: a hole of some bytes, or the bytes at an address. \<open>None\<close> where an assertion fails.
\<close>

datatype iobuf_op = IOBUF_HOLE u64 | IOBUF_DATA "bytes \<times> nat" u64

fun fetch_loop ::
  "evt_entry list \<Rightarrow> u64 \<Rightarrow> u64 \<Rightarrow> u32 \<Rightarrow> iobuf_op list \<Rightarrow> (u64 \<times> u64 \<times> u32 \<times> iobuf_op list) res option" where
  "fetch_loop [] index holes rsize buf = Some (Inr (index, holes, rsize, buf))"
| "fetch_loop (ent # ents) index holes rsize buf =
     (let lo = rc_off_lo (en_rect ent); hi = rc_off_hi (en_rect ent); nr = hi - lo + 1 in
      if \<not> hi \<ge> lo then None
      else if lo \<noteq> index \<and> \<not> lo > index then None
      else (let holes1 = (if lo \<noteq> index then holes + (lo - index) else holes) in
            if en_inob ent = 0 then fetch_loop ents (lo + nr) (holes1 + nr) rsize buf
            else (let rsize1 = (if rsize = 0 then en_inob ent else rsize) in
                  if rsize1 \<noteq> en_inob ent then Some (Inl DER_IO_INVAL)
                  else (let buf1 = (if holes1 \<noteq> 0 then buf @ [IOBUF_HOLE (holes1 * ucast rsize1)] else buf)
                        in fetch_loop ents (lo + nr) 0 rsize1
                             (buf1 @ [IOBUF_DATA (the (en_addr ent)) (nr * ucast rsize1)])))))"

text \<open>The result is the record size and the operations on the buffer, \<open>None\<close> for nothing but holes.\<close>

definition akey_fetch_recx :: "evt_root \<Rightarrow> u64 \<Rightarrow> u64 \<Rightarrow> u64 \<Rightarrow> u64 \<Rightarrow> (u32 \<times> iobuf_op list option) res option" where
  "akey_fetch_recx root epr_lo epr_hi rx_idx rx_nr =
     (let stop = rx_idx + rx_nr;
          rect = \<lparr>rc_off_lo = rx_idx, rc_off_hi = stop - 1, rc_epc_lo = epr_lo, rc_epc_hi = epr_hi\<rparr>
      in case evt_find root rect of
           None \<Rightarrow> None
         | Some (Inl e) \<Rightarrow> Some (Inl e)
         | Some (Inr ents) \<Rightarrow>
            (case fetch_loop ents rx_idx 0 0 [] of
               None \<Rightarrow> None
             | Some (Inl e) \<Rightarrow> Some (Inl e)
             | Some (Inr (index, holes, rsize, buf)) \<Rightarrow>
                 if \<not> index \<le> stop then None
                 else (let holes1 = (if index < stop then holes + (stop - index) else holes) in
                       if holes1 \<noteq> 0
                       then (if rsize = 0 then Some (Inr (rsize, None))
                             else Some (Inr (rsize, Some (buf @ [IOBUF_HOLE (holes1 * ucast rsize)]))))
                       else Some (Inr (rsize, Some buf)))))"

end
