(* ===== verification/Evt_Inv.thy ===== *)
theory Evt_Inv
  imports Evt "HOL-Library.Multiset"
begin

text \<open>
  The invariant of the extent version tree: a node's bounding rectangle covers its rectangles, a child's
  rectangle in its parent is its bounding rectangle, and all leaves have the same depth. Inserting an
  entry keeps it and adds just that entry; searching visits what a scan of all extents would find.
\<close>

section \<open>Rectangles\<close>

definition covers :: "evt_rect \<Rightarrow> evt_rect \<Rightarrow> bool" where
  "covers r q \<longleftrightarrow> rc_off_lo r \<le> rc_off_lo q \<and> rc_off_hi q \<le> rc_off_hi r \<and>
     rc_epc_lo r \<le> rc_epc_lo q \<and> rc_epc_hi q \<le> rc_epc_hi r"

definition meets :: "evt_rect \<Rightarrow> evt_rect \<Rightarrow> bool" where
  "meets r q \<longleftrightarrow> rc_off_lo r \<le> rc_off_hi q \<and> rc_off_lo q \<le> rc_off_hi r \<and>
     rc_epc_lo r \<le> rc_epc_hi q \<and> rc_epc_lo q \<le> rc_epc_hi r"

lemma covers_refl [simp]: "covers r r"
  by (simp add: covers_def)

lemma covers_trans: "covers r q \<Longrightarrow> covers q s \<Longrightarrow> covers r s"
  unfolding covers_def by (meson order_trans)

lemma meets_sym: "meets r q \<longleftrightarrow> meets q r"
  by (auto simp: meets_def)

lemma covers_meets: "covers r q \<Longrightarrow> meets q s \<Longrightarrow> meets r s"
  unfolding covers_def meets_def by (meson order_trans)

lemma overlap_no [simp]: "evt_rect_overlap r q leaf = RT_OVERLAP_NO \<longleftrightarrow> \<not> meets r q"
  by (auto simp: evt_rect_overlap_def meets_def)

lemma merge_covers:
  "covers (fst (evt_rect_merge r q)) r" "covers (fst (evt_rect_merge r q)) q"
  "\<not> snd (evt_rect_merge r q) \<Longrightarrow> fst (evt_rect_merge r q) = r"
  by (auto simp: evt_rect_merge_def covers_def Let_def)

lemma mbr_cal_covers:
  assumes "x \<in> set ents"
  shows "covers (evt_node_mbr_cal ents) (fst x)"
proof -
  have grow: "covers (fold (\<lambda>x m. fst (evt_rect_merge m (fst x))) xs m) m" for xs :: "(evt_rect \<times> 'a) list" and m
    by (induction xs arbitrary: m) (auto intro: covers_trans merge_covers)
  have all: "y \<in> set xs \<Longrightarrow> covers (fold (\<lambda>x m. fst (evt_rect_merge m (fst x))) xs m) (fst y)"
    for xs :: "(evt_rect \<times> 'a) list" and m y
    by (induction xs arbitrary: m) (auto intro: covers_trans [OF grow] merge_covers)
  show ?thesis using assms unfolding evt_node_mbr_cal_def by (cases ents) (auto intro: grow all)
qed

section \<open>The extents of a tree\<close>

fun recs_of :: "evt_node \<Rightarrow> (evt_rect \<times> evt_ptr_ref) list" where
  "recs_of (EvtLeaf mbr recs) = recs"
| "recs_of (EvtNode mbr cs) = concat (map (\<lambda>x. recs_of (snd x)) cs)"

text \<open>The extents with their paths, in the order of a search.\<close>

fun paths :: "evt_node \<Rightarrow> (nat list \<times> evt_rect \<times> evt_ptr_ref) list"
and paths_children :: "nat \<Rightarrow> (evt_rect \<times> evt_node) list \<Rightarrow> (nat list \<times> evt_rect \<times> evt_ptr_ref) list" where
  "paths (EvtLeaf mbr recs) = map (\<lambda>(i, x). ([i], x)) (enumerate 0 recs)"
| "paths (EvtNode mbr cs) = paths_children 0 cs"
| "paths_children i [] = []"
| "paths_children i ((r, c) # cs) = map (apfst (Cons i)) (paths c) @ paths_children (i + 1) cs"

lemma map_snd_paths:
  "map snd (paths nd) = recs_of nd" "map snd (paths_children i cs) = concat (map (\<lambda>x. recs_of (snd x)) cs)"
  by (induction nd and i cs rule: paths_paths_children.induct)
    (auto simp: enumerate_eq_zip comp_def case_prod_beta)

section \<open>The invariant\<close>

fun evt_ok :: "nat \<Rightarrow> nat \<Rightarrow> evt_node \<Rightarrow> bool" where
  "evt_ok order n (EvtLeaf mbr recs) \<longleftrightarrow> n = 1 \<and> recs \<noteq> [] \<and> length recs \<le> order \<and> (\<forall>x \<in> set recs. covers mbr (fst x))"
| "evt_ok order n (EvtNode mbr cs) \<longleftrightarrow> cs \<noteq> [] \<and> length cs \<le> order \<and> 1 < n \<and>
     (\<forall>x \<in> set cs. fst x = tn_mbr (snd x) \<and> covers mbr (fst x) \<and> evt_ok order (n - 1) (snd x))"

lemma evt_ok_covers:
  "evt_ok order n nd \<Longrightarrow> x \<in> set (recs_of nd) \<Longrightarrow> covers (tn_mbr nd) (fst x)"
proof (induction nd arbitrary: n rule: recs_of.induct)
  case (2 mbr cs)
  from 2(3) obtain y where y: "y \<in> set cs" "x \<in> set (recs_of (snd y))" by auto
  with 2(2) have *: "covers mbr (fst y)" "fst y = tn_mbr (snd y)" "evt_ok order (n - 1) (snd y)" by auto
  with 2(1) [OF y(1) _ y(2)] have "covers (tn_mbr (snd y)) (fst x)" by simp
  with * show ?case by (auto intro: covers_trans)
qed auto

section \<open>Inserting an entry\<close>

fun up_recs :: "evt_up \<Rightarrow> (evt_rect \<times> evt_ptr_ref) multiset" where
  "up_recs (UpDone c) = mset (recs_of c)"
| "up_recs (UpMbr c) = mset (recs_of c)"
| "up_recs (UpSplit c d) = mset (recs_of c) + mset (recs_of d)"

text \<open>What comes up keeps the invariant; \<open>m\<close> is the bounding rectangle that the node had.\<close>

fun up_ok :: "nat \<Rightarrow> nat \<Rightarrow> evt_rect \<Rightarrow> evt_up \<Rightarrow> bool" where
  "up_ok order n m (UpDone c) \<longleftrightarrow> evt_ok order n c \<and> tn_mbr c = m"
| "up_ok order n m (UpMbr c) \<longleftrightarrow> evt_ok order n c"
| "up_ok order n m (UpSplit c d) \<longleftrightarrow> evt_ok order n c \<and> evt_ok order n d"

lemma ssof_insert_mset [simp]: "mset (evt_ssof_insert x xs) = add_mset x (mset xs)"
  by (induction x xs rule: evt_ssof_insert.induct) auto

lemma ssof_insert_set [simp]: "set (evt_ssof_insert x xs) = insert x (set xs)"
  by (metis set_mset_add_mset_insert set_mset_mset ssof_insert_mset)

lemma ssof_insert_length [simp]: "length (evt_ssof_insert x xs) = Suc (length xs)"
  by (metis size_add_mset size_mset ssof_insert_mset)

lemma ssof_insert_ne [simp]: "evt_ssof_insert x xs \<noteq> []"
  by (metis length_0_conv nat.distinct(1) ssof_insert_length)

text \<open>Inserting into the entries of a node, for leaves and inner nodes alike.\<close>

lemma node_insert_ok:
  assumes "evt_node_insert mbr ents ent = (mbr', ents', changed)" "\<forall>x \<in> set ents. covers mbr (fst x)"
  shows "mset ents' = add_mset ent (mset ents)" "set ents' = insert ent (set ents)" "length ents' = Suc (length ents)"
    and "\<forall>x \<in> set ents'. covers mbr' (fst x)" "ents \<noteq> [] \<Longrightarrow> covers mbr' mbr" "\<not> changed \<Longrightarrow> mbr' = mbr"
proof -
  have e: "ents' = evt_ssof_insert ent ents" using assms(1) by (auto simp: evt_node_insert_def Let_def split: if_splits prod.splits)
  show "mset ents' = add_mset ent (mset ents)" "set ents' = insert ent (set ents)" "length ents' = Suc (length ents)"
    by (simp_all add: e)
  show "ents \<noteq> [] \<Longrightarrow> covers mbr' mbr" "\<not> changed \<Longrightarrow> mbr' = mbr"
    using assms(1) merge_covers [of mbr "fst ent"] by (auto simp: evt_node_insert_def Let_def split: if_splits prod.splits)
  show "\<forall>x \<in> set ents'. covers mbr' (fst x)"
  proof (cases "ents = []")
    case True
    then show ?thesis using assms(1) by (auto simp: evt_node_insert_def Let_def)
  next
    case False
    then have "mbr' = fst (evt_rect_merge mbr (fst ent))"
      using assms(1) by (auto simp: evt_node_insert_def Let_def split: prod.splits)
    then show ?thesis using assms(2) merge_covers [of mbr "fst ent"] by (auto simp: e intro: covers_trans)
  qed
qed

lemma split_parts:
  assumes "evt_ssof_split ents = (src, dst)" "2 \<le> length ents"
  shows "src @ dst = ents" "src \<noteq> []" "dst \<noteq> []" "length src < length ents" "length dst < length ents"
proof -
  define k where "k = length ents div 2 + (if length ents mod 2 \<noteq> 0 then 1 else 0)"
  have k: "0 < k" "k < length ents" using assms(2) unfolding k_def by presburger+
  have "src = take k ents" "dst = drop k ents" using assms(1) by (auto simp: evt_ssof_split_def Let_def k_def)
  with k show "src @ dst = ents" "src \<noteq> []" "dst \<noteq> []" "length src < length ents" "length dst < length ents" by auto
qed

lemma split_insert_ok:
  assumes "2 \<le> length ents"
  obtains m1 es1 m2 es2 where "evt_node_split_insert mk ents ent = UpSplit (mk m1 es1) (mk m2 es2)"
    and "mset es1 + mset es2 = add_mset ent (mset ents)" "es1 \<noteq> []" "es2 \<noteq> []"
    and "length es1 \<le> length ents" "length es2 \<le> length ents"
    and "\<forall>x \<in> set es1. covers m1 (fst x)" "\<forall>x \<in> set es2. covers m2 (fst x)"
proof -
  obtain src dst where sd: "evt_ssof_split ents = (src, dst)" by fastforce
  note parts = split_parts [OF sd assms]
  define ms md where "ms = evt_node_mbr_cal src" and "md = evt_node_mbr_cal dst"
  have cs: "\<forall>x \<in> set src. covers ms (fst x)" and cd: "\<forall>x \<in> set dst. covers md (fst x)"
    by (auto simp: ms_def md_def mbr_cal_covers)
  have ms: "mset src + mset dst = mset ents" using parts(1) by (metis mset_append)
  obtain m es ch where i1: "evt_node_insert ms src ent = (m, es, ch)" by (metis prod.collapse)
  obtain m' es' ch' where i2: "evt_node_insert md dst ent = (m', es', ch')" by (metis prod.collapse)
  note ok1 = node_insert_ok [OF i1 cs] and ok2 = node_insert_ok [OF i2 cd]
  show ?thesis
  proof (cases "evt_select_node (fst ent) ms md")
    case True
    then have "evt_node_split_insert mk ents ent = UpSplit (mk m es) (mk md dst)"
      by (simp add: evt_node_split_insert_def sd i1 ms_def [symmetric] md_def [symmetric])
    then show ?thesis using parts cd ok1 ms by (intro that [of m es md dst]) (auto simp: Suc_le_eq)
  next
    case False
    then have "evt_node_split_insert mk ents ent = UpSplit (mk ms src) (mk m' es')"
      by (simp add: evt_node_split_insert_def sd i2 ms_def [symmetric] md_def [symmetric])
    then show ?thesis using parts cs ok2 ms by (intro that [of ms src m' es']) (auto simp: Suc_le_eq)
  qed
qed

lemma recs_of_children: "mset (recs_of (EvtNode m cs)) = (\<Sum>x\<in>#mset cs. mset (recs_of (snd x)))"
  by (induction cs) auto

lemma recs_of_update:
  assumes "at < length cs" "C + mset (recs_of c) = mset (recs_of (snd (cs ! at))) + M"
  shows "C + mset (recs_of (EvtNode m (cs[at := (r, c)]))) = mset (recs_of (EvtNode m' cs)) + M"
  using assms
proof (induction cs arbitrary: at)
  case (Cons a cs)
  show ?case
  proof (cases at)
    case 0
    then have "C + mset (recs_of c) = mset (recs_of (snd a)) + M" using Cons.prems by simp
    then show ?thesis using 0 by (simp add: union_assoc [symmetric])
  next
    case (Suc i)
    then show ?thesis using Cons.IH [of i] Cons.prems by (simp add: ac_simps)
  qed
qed simp

text \<open>The children of an inner node after the child at \<open>at\<close> is replaced.\<close>

lemma children_update_ok:
  assumes "\<forall>x \<in> set cs. fst x = tn_mbr (snd x) \<and> covers m (fst x) \<and> evt_ok order n (snd x)"
    and "covers m' m" "covers m' (tn_mbr c)" "evt_ok order n c"
  shows "\<forall>x \<in> set (cs[at := (tn_mbr c, c)]). fst x = tn_mbr (snd x) \<and> covers m' (fst x) \<and> evt_ok order n (snd x)"
proof
  fix x assume "x \<in> set (cs[at := (tn_mbr c, c)])"
  then have "x = (tn_mbr c, c) \<or> x \<in> set cs" using set_update_subset_insert by fastforce
  then show "fst x = tn_mbr (snd x) \<and> covers m' (fst x) \<and> evt_ok order n (snd x)"
    using assms by (auto intro: covers_trans)
qed

text \<open>Inserting a sibling into the children, without and with a split.\<close>

lemma up_insert_ok:
  assumes ok: "\<forall>x \<in> set cs. fst x = tn_mbr (snd x) \<and> covers m (fst x) \<and> evt_ok order (n - 1) (snd x)"
    and d: "evt_ok order (n - 1) d" and len: "length cs < order" and n: "1 < n"
    and ins: "evt_node_insert m cs (tn_mbr d, d) = (m', cs', ch)"
  shows "evt_ok order n (EvtNode m' cs')" "\<not> ch \<Longrightarrow> m' = m"
    and "mset (recs_of (EvtNode m' cs')) = mset (recs_of d) + mset (recs_of (EvtNode m cs))"
proof -
  have "\<forall>x \<in> set cs. covers m (fst x)" using ok by blast
  note io = node_insert_ok [OF ins this]
  show "mset (recs_of (EvtNode m' cs')) = mset (recs_of d) + mset (recs_of (EvtNode m cs))"
    unfolding recs_of_children io(1) by simp
  have "length cs' \<le> order" "cs' \<noteq> []" using io(3) len by auto
  moreover have "\<forall>x \<in> set cs'. fst x = tn_mbr (snd x) \<and> covers m' (fst x) \<and> evt_ok order (n - 1) (snd x)"
    using ok d io(2,4) by auto
  ultimately show "evt_ok order n (EvtNode m' cs')" unfolding evt_ok.simps using n by blast
  show "\<not> ch \<Longrightarrow> m' = m" using io(6) by blast
qed

lemma up_split_ok:
  assumes ok: "\<forall>x \<in> set cs. fst x = tn_mbr (snd x) \<and> covers m (fst x) \<and> evt_ok order (n - 1) (snd x)"
    and d: "evt_ok order (n - 1) d" and len: "2 \<le> length cs" "length cs \<le> order" and n: "1 < n"
  shows "up_ok order n m' (evt_node_split_insert EvtNode cs (tn_mbr d, d))"
    and "up_recs (evt_node_split_insert EvtNode cs (tn_mbr d, d)) = mset (recs_of d) + mset (recs_of (EvtNode m cs))"
proof -
  from len(1) obtain m1 es1 m2 es2
    where sp: "evt_node_split_insert EvtNode cs (tn_mbr d, d) = UpSplit (EvtNode m1 es1) (EvtNode m2 es2)"
      "mset es1 + mset es2 = add_mset (tn_mbr d, d) (mset cs)" "es1 \<noteq> []" "es2 \<noteq> []"
      "length es1 \<le> length cs" "length es2 \<le> length cs"
      "\<forall>x \<in> set es1. covers m1 (fst x)" "\<forall>x \<in> set es2. covers m2 (fst x)" by (rule split_insert_ok)
  have "set es1 \<union> set es2 = insert (tn_mbr d, d) (set cs)"
    using arg_cong [OF sp(2), of set_mset] by simp
  then have c: "\<forall>x \<in> set es1 \<union> set es2. fst x = tn_mbr (snd x) \<and> evt_ok order (n - 1) (snd x)"
    using ok d by auto
  have "\<forall>x \<in> set es1. fst x = tn_mbr (snd x) \<and> covers m1 (fst x) \<and> evt_ok order (n - 1) (snd x)"
    "\<forall>x \<in> set es2. fst x = tn_mbr (snd x) \<and> covers m2 (fst x) \<and> evt_ok order (n - 1) (snd x)"
    using c sp(7,8) by blast+
  then show "up_ok order n m' (evt_node_split_insert EvtNode cs (tn_mbr d, d))"
    unfolding sp(1) up_ok.simps evt_ok.simps using sp(3-6) len(2) n by linarith
  have "(\<Sum>x\<in>#mset es1. mset (recs_of (snd x))) + (\<Sum>x\<in>#mset es2. mset (recs_of (snd x))) =
      (\<Sum>x\<in>#mset es1 + mset es2. mset (recs_of (snd x)))" by simp
  then show "up_recs (evt_node_split_insert EvtNode cs (tn_mbr d, d)) = mset (recs_of d) + mset (recs_of (EvtNode m cs))"
    unfolding sp(1) up_recs.simps recs_of_children sp(2) by simp
qed

lemma up_step_ok:
  assumes cs: "\<forall>x \<in> set cs. fst x = tn_mbr (snd x) \<and> covers m (fst x) \<and> evt_ok order (n - 1) (snd x)"
    and at: "at < length cs" and len: "length cs \<le> order" and n: "1 < n" and order: "2 \<le> order"
    and up: "up_ok order (n - 1) (tn_mbr (snd (cs ! at))) up"
    and recs: "up_recs up = add_mset ent (mset (recs_of (snd (cs ! at))))"
  shows "up_ok order n m (evt_up_step order m cs at up) \<and>
    up_recs (evt_up_step order m cs at up) = add_mset ent (mset (recs_of (EvtNode m cs)))"
proof -
  have ne: "cs \<noteq> []" using at by auto
  have node: "evt_ok order n (EvtNode m' (cs[at := (tn_mbr c, c)]))"
    if "covers m' m" "covers m' (tn_mbr c)" "evt_ok order (n - 1) c" for m' c
    unfolding evt_ok.simps using children_update_ok [OF cs that] ne len n by (metis length_list_update length_0_conv)
  show ?thesis
  proof (cases up)
    case (UpDone c)
    then have c: "evt_ok order (n - 1) c" "fst (cs ! at) = tn_mbr c" using up cs at by auto
    moreover have "covers m (tn_mbr c)" using cs at c(2) by (metis nth_mem)
    moreover have "mset (recs_of (EvtNode m (cs[at := (tn_mbr c, c)]))) = mset (recs_of (EvtNode m cs)) + {#ent#}"
      using recs_of_update [OF at, of "{#}" c "{#ent#}"] recs UpDone by simp
    ultimately show ?thesis using node [of m c] UpDone by (simp del: evt_ok.simps)
  next
    case (UpMbr c)
    obtain m' ch where mg: "evt_rect_merge m (tn_mbr c) = (m', ch)" by fastforce
    have "covers m' m" "covers m' (tn_mbr c)" "\<not> ch \<Longrightarrow> m' = m" using merge_covers [of m "tn_mbr c"] mg by auto
    moreover have "mset (recs_of (EvtNode m' (cs[at := (tn_mbr c, c)]))) = mset (recs_of (EvtNode m cs)) + {#ent#}"
      using recs_of_update [OF at, of "{#}" c "{#ent#}"] recs UpMbr by simp
    ultimately show ?thesis
      using node [of m' c] up UpMbr mg by (auto simp: evt_node_rect_update_def up_node_def simp del: evt_ok.simps)
  next
    case (UpSplit c d)
    obtain m' ch where mg: "evt_rect_merge m (tn_mbr c) = (m', ch)" by fastforce
    define cs' where "cs' = cs[at := (tn_mbr c, c)]"
    have c: "evt_ok order (n - 1) c" and d: "evt_ok order (n - 1) d" using up UpSplit by simp_all
    have m': "covers m' m" "covers m' (tn_mbr c)" "\<not> ch \<Longrightarrow> m' = m" using merge_covers [of m "tn_mbr c"] mg by auto
    note ok = children_update_ok [OF cs m'(1,2) c, of at, folded cs'_def]
    have M: "mset (recs_of d) + mset (recs_of (EvtNode m' cs')) = add_mset ent (mset (recs_of (EvtNode m cs)))"
      using recs_of_update [OF at, of "mset (recs_of d)" c "{#ent#}"] recs UpSplit by (simp add: cs'_def ac_simps)
    obtain m'' cs'' ch' where ins: "evt_node_insert m' cs' (tn_mbr d, d) = (m'', cs'', ch')" by (metis prod.collapse)
    have step: "evt_up_step order m cs at up = (if length cs' \<noteq> order then up_node (ch \<or> ch') (EvtNode m'' cs'')
      else evt_node_split_insert EvtNode cs' (tn_mbr d, d))"
      using ins by (simp add: UpSplit evt_node_rect_update_def mg cs'_def)
    have "length cs' = length cs" by (simp add: cs'_def)
    then show ?thesis
      using up_insert_ok [OF ok d _ n ins] up_split_ok [OF ok d _ _ n] M m'(3) len order
      unfolding step by (auto simp: up_node_def simp del: evt_ok.simps recs_of.simps)
  qed
qed

lemma insert_node_ok:
  assumes "2 \<le> order"
  shows "evt_ok order n nd \<Longrightarrow> up_ok order n (tn_mbr nd) (evt_insert_node order ent nd) \<and>
    up_recs (evt_insert_node order ent nd) = add_mset ent (mset (recs_of nd))"
  using assms
proof (induction order ent nd arbitrary: n rule: evt_insert_node.induct)
  case (1 order ent mbr recs)
  obtain m' recs' ch where ins: "evt_node_insert mbr recs ent = (m', recs', ch)" by (metis prod.collapse)
  have cov: "\<forall>x \<in> set recs. covers mbr (fst x)" using 1 by simp
  show ?case
  proof (cases "length recs = order")
    case False
    then show ?thesis using 1 node_insert_ok [OF ins cov] by (auto simp: ins up_node_def)
  next
    case True
    then have "2 \<le> length recs" using 1 by simp
    then obtain m1 es1 m2 es2 where sp: "evt_node_split_insert EvtLeaf recs ent = UpSplit (EvtLeaf m1 es1) (EvtLeaf m2 es2)"
      "mset es1 + mset es2 = add_mset ent (mset recs)" "es1 \<noteq> []" "es2 \<noteq> []"
      "length es1 \<le> length recs" "length es2 \<le> length recs"
      "\<forall>x \<in> set es1. covers m1 (fst x)" "\<forall>x \<in> set es2. covers m2 (fst x)" by (rule split_insert_ok)
    then show ?thesis using 1 True by simp
  qed
next
  case (2 order ent mbr cs)
  then have cs: "\<forall>x \<in> set cs. fst x = tn_mbr (snd x) \<and> covers mbr (fst x) \<and> evt_ok order (n - 1) (snd x)"
    and ne: "cs \<noteq> []" and len: "length cs \<le> order" and n: "1 < n" unfolding evt_ok.simps by blast+
  define at where "at = child_for (fst ent) cs"
  have at: "at < length cs" using ne by (simp add: at_def child_for_bound)
  then have "evt_ok order (n - 1) (snd (cs ! at))" using cs by (metis nth_mem)
  then have "up_ok order (n - 1) (tn_mbr (snd (cs ! at))) (evt_insert_node order ent (snd (cs ! at))) \<and>
    up_recs (evt_insert_node order ent (snd (cs ! at))) = add_mset ent (mset (recs_of (snd (cs ! at))))"
    using 2(1) [OF ne at_def] 2(3) by blast
  then show ?case using up_step_ok [OF cs at len n 2(3)] ne by (simp add: at_def Let_def)
qed

text \<open>The whole insertion; the tree may be one empty leaf, as it is after its activation.\<close>

definition root_ok :: "evt_root \<Rightarrow> bool" where
  "root_ok root \<longleftrightarrow> EVT_ORDER_MIN \<le> tr_order root \<and>
     (case tr_node root of None \<Rightarrow> tr_depth root = 0 | Some nd \<Rightarrow> evt_ok (tr_order root) (tr_depth root) nd)"

definition root_recs :: "evt_root \<Rightarrow> (evt_rect \<times> evt_ptr_ref) list" where
  "root_recs root = (case tr_node root of None \<Rightarrow> [] | Some nd \<Rightarrow> recs_of nd)"

lemma evt_ok_depth: "evt_ok order n nd \<Longrightarrow> 0 < n"
  by (cases nd) auto

lemma root_up_ok:
  assumes "up_ok (tr_order root) (tr_depth root) m up" "EVT_ORDER_MIN \<le> tr_order root"
  shows "root_ok (evt_root_up root up) \<and> mset (root_recs (evt_root_up root up)) = up_recs up"
proof (cases up)
  case (UpSplit c d)
  have "evt_ok (tr_order root) (tr_depth root) c" "evt_ok (tr_order root) (tr_depth root) d" using assms UpSplit by auto
  moreover have "0 < tr_depth root" using calculation(1) by (rule evt_ok_depth)
  moreover obtain m es ch where ins: "evt_node_insert (tn_mbr d) [(tn_mbr d, d)] (tn_mbr c, c) = (m, es, ch)"
    by (metis prod.collapse)
  moreover have one: "evt_node_insert (tn_mbr d) [] (tn_mbr d, d) = (tn_mbr d, [(tn_mbr d, d)], True)"
    by (simp add: evt_node_insert_def)
  moreover have "mset es = {#(tn_mbr c, c), (tn_mbr d, d)#}" "\<forall>x \<in> set es. covers m (fst x)" "length es = 2"
    using node_insert_ok [OF ins] by simp_all
  moreover have "set es = {(tn_mbr c, c), (tn_mbr d, d)}" using calculation(6)
    by (metis set_mset_add_mset_insert set_mset_empty set_mset_mset)
  moreover have "es \<noteq> []" using calculation(8) by auto
  ultimately show ?thesis using assms(2) UpSplit
    by (auto simp: root_ok_def root_recs_def EVT_ORDER_MIN_def recs_of_children simp del: recs_of.simps(2))
qed (use assms in \<open>auto simp: root_ok_def root_recs_def\<close>)

lemma insert_entry_ok:
  assumes "root_ok root \<and> tr_node root \<noteq> None \<or> EVT_ORDER_MIN \<le> tr_order root \<and> tr_depth root = 1 \<and> tr_node root = Some (EvtLeaf m [])"
  shows "root_ok (evt_insert_entry root ent) \<and> mset (root_recs (evt_insert_entry root ent)) = add_mset ent (mset (root_recs root))"
proof -
  from assms obtain nd where nd: "tr_node root = Some nd" by auto
  have order: "EVT_ORDER_MIN \<le> tr_order root" "2 \<le> tr_order root" using assms by (auto simp: root_ok_def EVT_ORDER_MIN_def)
  have "up_ok (tr_order root) (tr_depth root) (tn_mbr nd) (evt_insert_node (tr_order root) ent nd) \<and>
      up_recs (evt_insert_node (tr_order root) ent nd) = add_mset ent (mset (recs_of nd))"
  proof (cases "nd = EvtLeaf m []")
    case True
    then show ?thesis using assms order nd by (auto simp: evt_node_insert_def up_node_def root_ok_def)
  next
    case False
    then show ?thesis using assms nd by (intro insert_node_ok order) (auto simp: root_ok_def)
  qed
  then show ?thesis using root_up_ok [of root "tn_mbr nd" "evt_insert_node (tr_order root) ent nd"] order nd
    by (simp add: evt_insert_entry_def root_recs_def)
qed

section \<open>Searching is a scan of the extents\<close>

fun scan :: "evt_find_opc \<Rightarrow> (nat list \<times> evt_rect \<times> evt_ptr_ref) list \<Rightarrow> evt_rect \<Rightarrow> evt_entry_list \<Rightarrow> find_rc" where
  "scan opc [] rect el = FindNext rect el"
| "scan opc ((p, r, pref) # xs) rect el = find_bind (find_rec opc p r pref rect el) (scan opc xs)"

lemma find_bind_assoc: "find_bind (find_bind r f) g = find_bind r (\<lambda>rect el. find_bind (f rect el) g)"
  by (cases r) auto

lemma scan_append: "scan opc (xs @ ys) rect el = find_bind (scan opc xs rect el) (scan opc ys)"
  by (induction opc xs rect el rule: scan.induct) (auto simp: find_bind_assoc intro!: find_bind_cong)

lemma scan_disjoint: "\<forall>x \<in> set xs. \<not> meets (fst (snd x)) rect \<Longrightarrow> scan opc xs rect el = FindNext rect el"
  by (induction opc xs rect el rule: scan.induct) (auto simp: find_rec_def)

lemma find_recs_scan:
  "find_recs opc pre i recs rect el = scan opc (map (\<lambda>(i, x). (pre @ [i], x)) (enumerate i recs)) rect el"
  by (induction opc pre i recs rect el rule: find_recs.induct) (auto intro!: find_bind_cong)

lemma find_node_scan:
  "evt_ok order n nd \<Longrightarrow> find_node opc pre nd rect el = scan opc (map (apfst ((@) pre)) (paths nd)) rect el"
  "\<forall>x \<in> set cs. fst x = tn_mbr (snd x) \<and> evt_ok order n (snd x) \<Longrightarrow>
     find_children opc pre i cs rect el = scan opc (map (apfst ((@) pre)) (paths_children i cs)) rect el"
proof (induction opc pre nd rect el and opc pre i cs rect el arbitrary: n and n rule: find_node_find_children.induct)
  case (1 opc pre mbr recs rect el)
  then show ?case by (simp add: find_recs_scan comp_def case_prod_beta')
next
  case (4 opc pre i r c cs rect el)
  have ok: "evt_ok order n c" and r: "r = tn_mbr c" using 4(4) by auto
  have pre: "map (apfst ((@) pre)) (map (apfst ((#) i)) xs) = map (apfst ((@) (pre @ [i]))) xs"
    for xs :: "(nat list \<times> evt_rect \<times> evt_ptr_ref) list" by auto
  have all: "\<forall>x \<in> set cs. fst x = tn_mbr (snd x) \<and> evt_ok order n (snd x)" using 4(4) by simp
  note unf = find_children.simps paths_children.simps map_append scan_append pre overlap_no
  show ?case
  proof (cases "meets r rect")
    case False
    then have "\<forall>x \<in> set (recs_of c). \<not> meets (fst x) rect" using evt_ok_covers [OF ok] r covers_meets by blast
    then have "\<forall>x \<in> set (paths c). \<not> meets (fst (snd x)) rect" unfolding map_snd_paths(1) [symmetric] by simp
    then have "scan opc (map (apfst ((@) (pre @ [i]))) (paths c)) rect el = FindNext rect el"
      by (intro scan_disjoint) auto
    then show ?thesis unfolding unf using 4(1) [OF _ all] False by simp
  next
    case True
    then have "find_node opc (pre @ [i]) c rect el = scan opc (map (apfst ((@) (pre @ [i]))) (paths c)) rect el"
      using 4(2) [OF _ ok] overlap_no by blast
    moreover have "find_children opc pre (i + 1) cs rect' el' = scan opc (map (apfst ((@) pre)) (paths_children (i + 1) cs)) rect' el'"
      if "find_node opc (pre @ [i]) c rect el = FindNext rect' el'" for rect' el'
      using 4(3) [OF _ that all] True by simp
    ultimately show ?thesis unfolding unf using True by (simp cong: find_bind_cong)
  qed
qed auto

section \<open>Reading and changing an extent at a path\<close>

lemma paths_children_keys: "x \<in> set (paths_children k cs) \<Longrightarrow> \<exists>j is. k \<le> j \<and> fst x = j # is"
proof (induction cs arbitrary: k)
  case (Cons a cs)
  then show ?case by (cases a) (fastforce dest: Cons.IH)
qed simp

lemma map_of_cons_keys: "map_of (map (apfst (Cons k)) xs) (i # is) = (if i = k then map_of xs is else None)"
  by (induction xs) (auto simp: apfst_def)

lemma map_of_children:
  "map_of (paths_children k cs) (i # is) =
     (if k \<le> i \<and> i < k + length cs then map_of (paths (snd (cs ! (i - k)))) is else None)"
proof (induction cs arbitrary: k)
  case (Cons a cs)
  obtain r c where a: "a = (r, c)" by fastforce
  show ?case using Cons.IH [of "Suc k"]
    by (auto simp: a map_add_def map_of_cons_keys nth_Cons' Suc_diff_le not_less_eq_eq split: option.splits)
qed auto

lemma map_of_leaf: "map_of (map (\<lambda>(i, x). ([i], x)) (enumerate k xs)) [j] = (if k \<le> j \<and> j < k + length xs then Some (xs ! (j - k)) else None)"
  by (induction xs arbitrary: k) (auto simp: nth_Cons')

lemma map_of_no_key: "(\<And>x. x \<in> set xs \<Longrightarrow> fst x \<noteq> k) \<Longrightarrow> map_of xs k = None"
  by (force simp: map_of_eq_None_iff)

lemma rec_at_map_of: "evt_rec_at p nd = map_of (paths nd) p"
proof (induction p nd rule: evt_rec_at.induct, goal_cases)
  case (1 i mbr recs)
  show ?case using map_of_leaf [of 0 recs i] by simp
next
  case (2 i "is" mbr cs)
  then show ?case using map_of_children [of 0 cs i "is"] by simp
next
  case (3 nd)
  show ?case by (cases nd) (auto intro!: map_of_no_key [symmetric] dest: paths_children_keys)
qed (auto intro!: map_of_no_key [symmetric] dest: paths_children_keys)

lemma paths_distinct:
  "distinct (map fst (paths nd))" "distinct (map fst (paths_children i cs))"
proof (induction nd and i cs rule: paths_paths_children.induct)
  case (1 mbr recs)
  have "map fst (paths (EvtLeaf mbr recs)) = map (\<lambda>i. [i]) [0..<length recs]"
    by (rule nth_equalityI) (auto simp: nth_enumerate_eq)
  then show ?case by (simp add: distinct_map inj_on_def)
next
  case (4 i r c cs)
  have "fst \<circ> apfst ((#) i) = (#) i \<circ> (fst :: nat list \<times> evt_rect \<times> evt_ptr_ref \<Rightarrow> nat list)" by auto
  then have "distinct (map (fst \<circ> apfst ((#) i)) (paths c))"
    using 4(1) by (simp add: distinct_map comp_inj_on_iff [symmetric])
  moreover have "i # is \<notin> fst ` set (paths_children (Suc i) cs)" for "is" by (auto dest!: paths_children_keys)
  ultimately show ?case using 4(2) by (auto simp: image_image)
qed auto

text \<open>Changing one extent changes it in the list of all.\<close>

definition upd_key :: "nat list \<Rightarrow> (evt_rect \<times> evt_ptr_ref \<Rightarrow> evt_rect \<times> evt_ptr_ref) \<Rightarrow>
    nat list \<times> evt_rect \<times> evt_ptr_ref \<Rightarrow> nat list \<times> evt_rect \<times> evt_ptr_ref" where
  "upd_key p f x = (fst x, if fst x = p then f (snd x) else snd x)"

lemma upd_key_other: "(\<And>x. x \<in> set xs \<Longrightarrow> fst x \<noteq> p) \<Longrightarrow> map (upd_key p f) xs = xs"
  by (induction xs) (auto simp: upd_key_def)

lemma paths_children_update:
  assumes "i < length cs" "paths c = map (upd_key is f) (paths (snd (cs ! i)))"
  shows "paths_children k (cs[i := (r, c)]) = map (upd_key ((k + i) # is) f) (paths_children k cs)"
  using assms
proof (induction cs arbitrary: i k)
  case (Cons a cs)
  obtain r' c' where a: "a = (r', c')" by fastforce
  show ?case
  proof (cases i)
    case 0
    have "map (upd_key (k # is) f) (paths_children (Suc k) cs) = paths_children (Suc k) cs"
      by (rule upd_key_other) (auto dest: paths_children_keys)
    moreover have "map (upd_key (k # is) f) (map (apfst ((#) k)) (paths c')) = map (apfst ((#) k)) (map (upd_key is f) (paths c'))"
      by (simp add: upd_key_def)
    ultimately show ?thesis using 0 a Cons.prems by simp
  next
    case (Suc j)
    have "map (upd_key ((k + i) # is) f) (map (apfst ((#) k)) (paths c')) = map (apfst ((#) k)) (paths c')"
      using Suc by (intro upd_key_other) auto
    then show ?thesis using Suc a Cons.prems Cons.IH [of j "Suc k"] by simp
  qed
qed simp

lemma leaf_update: "i < length xs \<Longrightarrow> map (\<lambda>(i, x). ([i], x)) (enumerate k (xs[i := f (xs ! i)])) =
    map (upd_key [k + i] f) (map (\<lambda>(i, x). ([i], x)) (enumerate k xs))"
proof (induction xs arbitrary: i k)
  case (Cons a xs)
  have "map (upd_key [k] f) (map (\<lambda>(i, x). ([i], x)) (enumerate (Suc k) xs)) = map (\<lambda>(i, x). ([i], x)) (enumerate (Suc k) xs)"
    by (rule upd_key_other) (auto simp: in_set_enumerate_eq)
  then show ?case using Cons by (cases i) (auto simp: upd_key_def)
qed simp

lemma paths_upd_at: "evt_rec_at p nd \<noteq> None \<Longrightarrow> paths (evt_upd_at p f nd) = map (upd_key p f) (paths nd)"
proof (induction p f nd rule: evt_upd_at.induct)
  case (1 i f mbr recs)
  then show ?case using leaf_update [of i recs 0 f] by (auto split: if_splits)
next
  case (2 i "is" f mbr cs)
  then show ?case using paths_children_update [of i cs "evt_upd_at is f (snd (cs ! i))" "is" f 0] by (auto split: if_splits)
qed auto

lemma tn_mbr_upd_at [simp]: "tn_mbr (evt_upd_at p f nd) = tn_mbr nd"
  by (induction p f nd rule: evt_upd_at.induct) auto

lemma evt_ok_upd_at:
  "evt_ok order n nd \<Longrightarrow> (\<And>x. evt_rec_at p nd = Some x \<Longrightarrow> covers (fst x) (fst (f x))) \<Longrightarrow> evt_ok order n (evt_upd_at p f nd)"
proof (induction p f nd arbitrary: n rule: evt_upd_at.induct)
  case (1 i f mbr recs)
  have "i < length recs \<Longrightarrow> covers mbr (fst (f (recs ! i)))"
    using 1(2) [of "recs ! i"] 1(1) by (auto intro: covers_trans)
  then have "\<forall>x \<in> set (recs[i := f (recs ! i)]). covers mbr (fst x)" if "i < length recs"
    using that 1(1) set_update_subset_insert [of recs i "f (recs ! i)"] by auto
  then show ?case using 1(1) by simp
next
  case (2 i "is" f mbr cs)
  let ?c = "evt_upd_at is f (snd (cs ! i))"
  have ok: "\<forall>x \<in> set cs. fst x = tn_mbr (snd x) \<and> covers mbr (fst x) \<and> evt_ok order (n - 1) (snd x)"
    using 2(2) unfolding evt_ok.simps by blast
  show ?case
  proof (cases "i < length cs")
    case True
    then have c: "evt_ok order (n - 1) (snd (cs ! i))" "fst (cs ! i) = tn_mbr ?c" "covers mbr (tn_mbr ?c)"
      using ok by (metis nth_mem tn_mbr_upd_at)+
    have "evt_ok order (n - 1) ?c" using 2(1) [OF True c(1)] 2(3) True by simp
    note new = children_update_ok [OF ok covers_refl c(3) this, of i]
    have "length (cs[i := (tn_mbr ?c, ?c)]) \<le> order" "cs[i := (tn_mbr ?c, ?c)] \<noteq> []" "1 < n"
      using 2(2) by auto
    then have "evt_ok order n (EvtNode mbr (cs[i := (tn_mbr ?c, ?c)]))" unfolding evt_ok.simps using new by blast
    then show ?thesis using True c(2) by (simp del: evt_ok.simps)
  next
    case False
    then show ?thesis using 2(2) by (simp del: evt_ok.simps)
  qed
qed auto

end
