(* ===== verification/Evt_Sem.thy ===== *)
theory Evt_Sem
  imports Evt_Inv
begin

text \<open>
  What the extent version tree stores: for an offset and an epoch, the write that is visible there. A search
  returns the extents that meet its rectangle, each clipped to it; clipping for an insertion shortens older
  extents; an insertion makes the new data visible where no write of a higher epoch is.
\<close>

section \<open>Filling an entry\<close>

definition rect_ok :: "evt_rect \<Rightarrow> bool" where
  "rect_ok r \<longleftrightarrow> rc_off_lo r \<le> rc_off_hi r \<and> \<not> (rc_off_lo r = 0 \<and> rc_off_hi r = - 1) \<and> rc_epc_lo r \<le> rc_epc_hi r"

text \<open>An extent of a tree: a rectangle and data, from their beginning on, that keep the assertions.\<close>

definition rec_ok :: "evt_rect \<times> evt_ptr_ref \<Rightarrow> bool" where
  "rec_ok x \<longleftrightarrow> rect_ok (fst x) \<and> ptr_asserts (pr_ptr (snd x)) \<and> pr_offset (snd x) = 0"

definition clipped :: "evt_rect \<Rightarrow> evt_rect \<Rightarrow> evt_rect" where
  "clipped q r = r\<lparr>rc_off_lo := max (rc_off_lo r) (rc_off_lo q), rc_off_hi := min (rc_off_hi r) (rc_off_hi q)\<rparr>"

definition found_entry :: "evt_rect \<Rightarrow> nat list \<times> evt_rect \<times> evt_ptr_ref \<Rightarrow> evt_entry" where
  "found_entry q x =
     (let (p, r, pref) = x; ptr = pr_ptr pref; offset = pr_offset pref + (rc_off_lo (clipped q r) - rc_off_lo r) in
      \<lparr>en_rect = clipped q r, en_cookie = pt_cookie ptr, en_ver = pt_ver ptr, en_inob = pt_inob ptr,
       en_offset = (if evt_ptr_payload ptr = None then 0 else offset), en_ptr = ptr,
       en_addr = map_option (\<lambda>d. (d, unat (offset * ucast (pt_inob ptr)))) (evt_ptr_payload ptr), en_path = p\<rparr>)"

lemma unat_succ:
  fixes h :: u64
  assumes "h \<noteq> - 1"
  shows "unat (h + 1) = unat h + 1"
proof -
  have "1 + h \<noteq> 0" using assms by (simp add: add_eq_0_iff)
  from unatSuc [OF this] show ?thesis by (simp only: add.commute [of h] Suc_eq_plus1)
qed

lemma unat_width:
  fixes a b :: u64
  assumes "a \<le> b" "\<not> (a = 0 \<and> b = - 1)"
  shows "unat (b - a + 1) = unat b - unat a + 1"
proof -
  have "b - a \<noteq> - 1"
  proof
    assume "b - a = - 1"
    then have "unat b - unat a = unat (- 1 :: u64)" using assms(1) by (metis unat_sub)
    then have "unat b = unat (- 1 :: u64) \<and> unat a = 0"
      using word_le_nat_alt [of b "- 1"] unsigned_eq_0_iff [of "- 1 :: u64"] by auto
    then show False using assms(2) by (metis unat_0 word_unat_eq_iff)
  qed
  then show ?thesis using unat_succ [of "b - a"] assms(1) by (simp add: unat_sub)
qed

lemma word_pred:
  fixes a b :: u64
  assumes "a < b"
  shows "b - 1 < b" "a \<le> b - 1" "b = b - 1 + 1"
proof -
  have "b \<noteq> 0" using assms by auto
  then have "unat (b - 1) = unat b - 1" "0 < unat b" using unat_minus_one unsigned_eq_0_iff [of b] by auto
  then show "b - 1 < b" "a \<le> b - 1" using assms by (simp_all add: word_less_nat_alt word_le_nat_alt)
qed simp

lemma fill_entry:
  assumes "rect_ok r" "ptr_asserts (pr_ptr pref)" "rc_off_lo q \<le> rc_off_hi q" "meets r q"
  shows "evt_fill_entry (Some q) r pref p = Some (found_entry q (p, r, pref))"
proof -
  define rl rh ql qh where defs: "rl = rc_off_lo r" "rh = rc_off_hi r" "ql = rc_off_lo q" "qh = rc_off_hi q"
  have le: "rl \<le> rh" "\<not> (rl = 0 \<and> rh = - 1)" "ql \<le> qh" "rl \<le> qh" "ql \<le> rh"
    using assms by (auto simp: rect_ok_def meets_def defs)
  have w: "unat (rh - rl + 1) = unat rh - unat rl + 1" by (rule unat_width [OF le(1,2)])
  have lo: "ql - rl < rh - rl + 1" if "rl < ql"
    using that le w by (simp add: word_less_nat_alt word_le_nat_alt unat_sub)
  have off: "unat (rh - rl + 1 - o') = unat rh - unat rl + 1 - unat o'" if "o' \<le> rh - rl + 1" for o'
    using that w by (simp add: unat_sub)
  have hi1: "rh - qh < rh - rl + 1 - (ql - rl)" if "rl < ql" "qh < rh"
    using that le w off [of "ql - rl"] lo by (simp add: word_less_nat_alt word_le_nat_alt unat_sub)
  have hi2: "rh - qh < rh - rl + 1" if "qh < rh"
    using that le w by (simp add: word_less_nat_alt word_le_nat_alt unat_sub)
  have "evt_rect_width r = rh - rl + 1" by (simp add: evt_rect_width_def defs)
  then show ?thesis using lo hi1 hi2 assms(2)
    by (auto simp: evt_fill_entry_def found_entry_def clipped_def defs [symmetric] Let_def max_def min_def
        not_less split: option.splits)
qed

section \<open>Searching\<close>

lemma scan_all:
  assumes "\<forall>x \<in> set xs. rec_ok (snd x)" "rc_off_lo q \<le> rc_off_hi q"
  shows "\<exists>el'. scan EVT_FIND_ALL xs q el = FindNext q el' \<and>
    el_list el' = el_list el @ map (found_entry q) (filter (\<lambda>x. meets (fst (snd x)) q) xs)"
  using assms(1)
proof (induction xs arbitrary: el)
  case (Cons a xs)
  obtain p r pref where a: "a = (p, r, pref)" by (cases a) auto
  show ?case
  proof (cases "meets r q")
    case True
    then have "find_rec EVT_FIND_ALL p r pref q el = FindNext q (evt_ent_list_alloc el (found_entry q a))"
      using Cons.prems assms(2) by (simp add: find_rec_def fill_entry a rec_ok_def)
    then show ?thesis using Cons True by (simp add: a) (metis Cons.IH evt_ent_list_alloc_def evt_entry_list.select_convs(1) append.assoc append_Cons append_Nil)
  next
    case False
    then show ?thesis using Cons by (simp add: a find_rec_def)
  qed
qed simp

definition root_paths :: "evt_root \<Rightarrow> (nat list \<times> evt_rect \<times> evt_ptr_ref) list" where
  "root_paths root = (case tr_node root of None \<Rightarrow> [] | Some nd \<Rightarrow> paths nd)"

lemma root_paths_recs: "map snd (root_paths root) = root_recs root"
  by (simp add: root_paths_def root_recs_def map_snd_paths split: option.splits)

lemma find_ent_list_scan:
  "root_ok root \<Longrightarrow> evt_find_ent_list root opc rect = scan opc (root_paths root) rect evt_ent_list_init"
proof -
  have "apfst ((@) []) = (id :: nat list \<times> evt_rect \<times> evt_ptr_ref \<Rightarrow> _)" by (auto simp: fun_eq_iff)
  then show "root_ok root \<Longrightarrow> evt_find_ent_list root opc rect = scan opc (root_paths root) rect evt_ent_list_init"
    using find_node_scan(1) [of "tr_order root" "tr_depth root" _ opc "[]"]
    by (auto simp: evt_find_ent_list_def root_paths_def root_ok_def split: option.splits)
qed

lemma evt_find_entries:
  assumes "root_ok root" "\<forall>x \<in> set (root_recs root). rec_ok x" "rc_off_lo q \<le> rc_off_hi q"
  shows "evt_find root q = Some (Inr (map (found_entry q) (filter (\<lambda>x. meets (fst (snd x)) q) (root_paths root))))"
proof -
  have "\<forall>x \<in> set (root_paths root). rec_ok (snd x)" using assms(2) unfolding root_paths_recs [symmetric] by simp
  from scan_all [OF this assms(3), of evt_ent_list_init] show ?thesis
    by (auto simp: evt_find_def find_ent_list_scan [OF assms(1)] evt_ent_list_sort_def evt_ent_list_init_def)
qed

section \<open>Clipping\<close>

text \<open>The extents that the new one caps or replaces.\<close>

definition caps :: "evt_rect \<Rightarrow> evt_rect \<Rightarrow> bool" where
  "caps q r \<longleftrightarrow> rc_epc_lo r < rc_epc_lo q \<and> evt_rect_is_wider q r"

definition same :: "evt_rect \<Rightarrow> evt_rect \<Rightarrow> bool" where
  "same q r \<longleftrightarrow> rc_epc_lo r = rc_epc_lo q \<and> evt_rect_equal_width r q"

text \<open>The new extent ends before the first newer one that hides it.\<close>

definition capped :: "evt_rect \<Rightarrow> evt_rect \<Rightarrow> evt_rect set \<Rightarrow> bool" where
  "capped q q' R \<longleftrightarrow> q' = q\<lparr>rc_epc_hi := rc_epc_hi q'\<rparr> \<and> rc_epc_lo q \<le> rc_epc_hi q' \<and> rc_epc_hi q' \<le> rc_epc_hi q \<and>
     (rc_epc_hi q' = rc_epc_hi q \<or> (\<exists>r \<in> R. evt_rect_is_wider r q \<and> rc_epc_hi q' < rc_epc_lo r \<and> rc_epc_lo r = rc_epc_hi q' + 1))"

lemma capped_hi:
  assumes "q' = q\<lparr>rc_epc_hi := h\<rparr>"
  shows "caps q' r = caps q r" "same q' r = same q r" "evt_rect_is_wider r q' = evt_rect_is_wider r q" "rc_epc_lo q' = rc_epc_lo q"
  using assms by (auto simp: caps_def same_def evt_rect_is_wider_def evt_rect_equal_width_def)

lemma capped_meets:
  assumes "capped q q' R" "rect_ok r" "caps q r \<and> rc_epc_lo q \<le> rc_epc_hi r \<or> same q r"
  shows "meets r q'"
proof -
  define h where "h = rc_epc_hi q'"
  then have q': "q' = q\<lparr>rc_epc_hi := h\<rparr>" "rc_epc_lo q \<le> h" using assms(1) by (auto simp: capped_def)
  show ?thesis unfolding q'(1) using q'(2) assms(2,3)
    by (auto simp: caps_def same_def meets_def rect_ok_def evt_rect_is_wider_def evt_rect_equal_width_def)
qed

lemma capped_meets_mono: "capped q q' R \<Longrightarrow> meets r q' \<Longrightarrow> meets r q"
  unfolding capped_def meets_def by (smt (verit) evt_rect.select_convs evt_rect.surjective evt_rect.update_convs(4) order_trans)

lemma capped_trans:
  assumes "capped q q' R" "capped q' q'' S"
  shows "capped q q'' (R \<union> S)"
proof -
  define h k where "h = rc_epc_hi q'" "k = rc_epc_hi q''"
  have 1: "q' = q\<lparr>rc_epc_hi := h\<rparr>" "q'' = q'\<lparr>rc_epc_hi := k\<rparr>" using assms by (simp_all add: capped_def h_k_def)
  show ?thesis using assms unfolding capped_def 1 by (auto simp: evt_rect_is_wider_def)
qed

lemma capped_refl [simp]: "rc_epc_lo q \<le> rc_epc_hi q \<Longrightarrow> capped q q R"
  by (simp add: capped_def)

lemma capped_mono: "capped q q' R \<Longrightarrow> R \<subseteq> S \<Longrightarrow> capped q q' S"
  unfolding capped_def by blast

text \<open>One extent against the new one.\<close>

lemma overlap_leaf:
  "evt_rect_overlap r q True = RT_OVERLAP_CAPPED \<longleftrightarrow> meets r q \<and> rc_epc_lo q < rc_epc_lo r \<and> evt_rect_is_wider r q"
  "evt_rect_overlap r q True = RT_OVERLAP_CAPPING \<longleftrightarrow> meets r q \<and> caps q r"
  "evt_rect_overlap r q True = RT_OVERLAP_SAME \<longleftrightarrow> meets r q \<and> same q r"
  by (auto simp: evt_rect_overlap_def meets_def caps_def same_def)

lemma find_rec_cap:
  assumes "rec_ok (r, pref)" "rect_ok q"
  shows "(\<not> meets r q \<and> find_rec EVT_FIND_CAP p r pref q el = FindNext q el) \<or>
    (\<exists>q'. find_rec EVT_FIND_CAP p r pref q el = FindNext q' el \<and> capped q q' {r} \<and> \<not> meets r q') \<or>
    (meets r q \<and> (caps q r \<or> same q r) \<and>
      find_rec EVT_FIND_CAP p r pref q el = FindNext q (evt_ent_list_alloc el (found_entry q (p, r, pref)))) \<or>
    find_rec EVT_FIND_CAP p r pref q el = FindErr DER_NO_PERM"
proof (cases "meets r q")
  case False
  then show ?thesis by (simp add: find_rec_def)
next
  case True
  have fill: "evt_fill_entry (Some q) r pref p = Some (found_entry q (p, r, pref))"
    using fill_entry assms True by (simp add: rect_ok_def rec_ok_def)
  consider (capped) "rc_epc_lo q < rc_epc_lo r" "evt_rect_is_wider r q" | (caps) "caps q r" | (same) "same q r"
    | (other) "evt_rect_overlap r q True \<notin> {RT_OVERLAP_NO, RT_OVERLAP_CAPPED, RT_OVERLAP_CAPPING, RT_OVERLAP_SAME}"
    using True overlap_leaf by auto
  then show ?thesis
  proof cases
    case capped
    then have "evt_rect_overlap r q True = RT_OVERLAP_CAPPED" using True by (simp add: overlap_leaf)
    then have "find_rec EVT_FIND_CAP p r pref q el = FindNext (q\<lparr>rc_epc_hi := rc_epc_lo r - 1\<rparr>) el"
      by (simp add: find_rec_def)
    moreover have "rc_epc_lo r - 1 < rc_epc_lo r" "rc_epc_lo q \<le> rc_epc_lo r - 1"
      by (rule word_pred [OF capped(1)])+
    moreover have "rc_epc_lo r - 1 \<le> rc_epc_hi q" using calculation(2) True by (auto simp: meets_def)
    moreover have "\<not> meets r (q\<lparr>rc_epc_hi := rc_epc_lo r - 1\<rparr>)" using calculation(2) leD by (auto simp: meets_def)
    ultimately have "capped q (q\<lparr>rc_epc_hi := rc_epc_lo r - 1\<rparr>) {r}" using capped(2) by (simp add: capped_def)
    with \<open>\<not> meets r _\<close> \<open>find_rec _ _ _ _ _ _ = _\<close> show ?thesis by blast
  next
    case caps
    then have "evt_rect_overlap r q True = RT_OVERLAP_CAPPING" using True by (simp add: overlap_leaf)
    then show ?thesis using caps True fill by (simp add: find_rec_def)
  next
    case same
    then have "evt_rect_overlap r q True = RT_OVERLAP_SAME" using True by (simp add: overlap_leaf)
    then show ?thesis using same True fill by (simp add: find_rec_def)
  next
    case other
    then show ?thesis using True by (simp add: find_rec_def)
  qed
qed

lemma capped_ok: "capped q q' R \<Longrightarrow> rect_ok q \<Longrightarrow> rect_ok q'"
  unfolding capped_def rect_ok_def by (metis evt_rect.ext_inject evt_rect.surjective evt_rect.update_convs(4))

lemma capped_same: "capped q q' R \<Longrightarrow> caps q' r = caps q r \<and> same q' r = same q r"
  using capped_hi unfolding capped_def by blast

text \<open>
  All extents: those found are exactly those that meet the new extent in the end, and each of them is
  capped or replaced.
\<close>

definition cap_found ::
  "(nat list \<times> evt_rect \<times> evt_ptr_ref) list \<Rightarrow> evt_rect \<Rightarrow> evt_rect \<Rightarrow> evt_entry list \<Rightarrow> bool" where
  "cap_found xs q q' ents \<longleftrightarrow> capped q q' ((\<lambda>x. fst (snd x)) ` set xs) \<and>
     map en_path ents = map fst (filter (\<lambda>x. meets (fst (snd x)) q') xs) \<and>
     (\<forall>x \<in> set xs. meets (fst (snd x)) q' \<longrightarrow> caps q (fst (snd x)) \<or> same q (fst (snd x)))"

lemma cap_found_skip:
  assumes "capped q q1 {r}" "\<not> meets r q1" "cap_found xs q1 q' ents"
  shows "cap_found ((p, r, pref) # xs) q q' ents"
proof -
  have c: "capped q1 q' ((\<lambda>x. fst (snd x)) ` set xs)" using assms(3) by (simp add: cap_found_def)
  have "\<not> meets r q'" using capped_meets_mono [OF c] assms(2) by blast
  then show ?thesis using assms(3) capped_trans [OF assms(1) c] capped_same [OF assms(1)] by (simp add: cap_found_def)
qed

lemma cap_found_add:
  assumes "meets r q" "caps q r \<or> same q r" "rect_ok r" "cap_found xs q q' ents" "en_path e = p"
  shows "cap_found ((p, r, pref) # xs) q q' (e # ents)"
proof -
  have c: "capped q q' ((\<lambda>x. fst (snd x)) ` set xs)" using assms(4) by (simp add: cap_found_def)
  have "meets r q'" using assms(1,2) by (intro capped_meets [OF c assms(3)]) (auto simp: meets_def)
  then show ?thesis using assms(2,4,5) capped_mono [OF c] by (auto simp: cap_found_def)
qed

lemma en_path_found [simp]: "en_path (found_entry q x) = fst x"
  by (simp add: found_entry_def Let_def split: prod.split)

lemma scan_cap:
  assumes "\<forall>x \<in> set xs. rec_ok (snd x)" "rect_ok q"
  shows "scan EVT_FIND_CAP xs q el = FindErr DER_NO_PERM \<or>
    (\<exists>q' el' ents. scan EVT_FIND_CAP xs q el = FindNext q' el' \<and> el_list el' = el_list el @ ents \<and> cap_found xs q q' ents)"
  using assms
proof (induction xs arbitrary: q el)
  case Nil
  then show ?case by (auto simp: rect_ok_def cap_found_def)
next
  case (Cons a xs)
  obtain p r pref where a: "a = (p, r, pref)" by (cases a) auto
  have ok: "rec_ok (r, pref)" "rect_ok r" and all: "\<forall>x \<in> set xs. rec_ok (snd x)"
    using Cons.prems a by (simp_all add: rec_ok_def)
  consider (skip) q1 where "find_rec EVT_FIND_CAP p r pref q el = FindNext q1 el" "capped q q1 {r}" "\<not> meets r q1"
    | (found) "meets r q" "caps q r \<or> same q r"
        "find_rec EVT_FIND_CAP p r pref q el = FindNext q (evt_ent_list_alloc el (found_entry q a))"
    | (err) "find_rec EVT_FIND_CAP p r pref q el = FindErr DER_NO_PERM"
    using find_rec_cap [OF ok(1) Cons.prems(2), of p el] capped_refl [of q "{r}"] Cons.prems(2) unfolding a rect_ok_def by blast
  then show ?case
  proof cases
    case skip
    have "rect_ok q1" using capped_ok skip(2) Cons.prems(2) by blast
    from Cons.IH [OF all this, of el] show ?thesis using cap_found_skip [OF skip(2,3)] skip(1) a by fastforce
  next
    case found
    let ?el = "evt_ent_list_alloc el (found_entry q a)"
    have "el_list ?el @ ents = el_list el @ (found_entry q a # ents)" for ents by (simp add: evt_ent_list_alloc_def)
    then show ?thesis using Cons.IH [OF all Cons.prems(2), of ?el] cap_found_add [OF found(1,2) ok(2), of xs _ _ "found_entry q a" p] found(3) a
      by (metis (no_types, lifting) en_path_found find_bind.simps(1) fst_conv scan.simps(2))
  qed (use a in simp)
qed

text \<open>A new extent is accepted if each extent that it meets is hidden by it, or hides it, as a whole.\<close>

definition compatible :: "evt_rect \<Rightarrow> evt_rect \<Rightarrow> bool" where
  "compatible q r \<longleftrightarrow> \<not> meets r q \<or> caps q r \<or> same q r \<or> rc_epc_lo q < rc_epc_lo r \<and> evt_rect_is_wider r q"

lemma compatible_capped: "capped q q' R \<Longrightarrow> compatible q r \<Longrightarrow> compatible q' r"
  using capped_meets_mono [of q q' R r] capped_same [of q q' R r] capped_hi(3,4) [where q' = q' and q = q and h = "rc_epc_hi q'"]
  unfolding compatible_def capped_def by auto

lemma find_rec_compatible: "compatible q r \<Longrightarrow> find_rec EVT_FIND_CAP p r pref q el \<noteq> FindErr e"
  using overlap_leaf [of r q] by (auto simp: find_rec_def compatible_def Let_def split: option.split)

lemma scan_compatible:
  assumes "\<forall>x \<in> set xs. rec_ok (snd x) \<and> compatible q (fst (snd x))" "rect_ok q"
  shows "scan EVT_FIND_CAP xs q el \<noteq> FindErr e"
  using assms
proof (induction xs arbitrary: q el)
  case (Cons a xs)
  obtain p r pref where a: "a = (p, r, pref)" by (cases a) auto
  have r: "rec_ok (r, pref)" "compatible q r" using Cons.prems a by auto
  have "\<exists>q' el'. find_rec EVT_FIND_CAP p r pref q el = FindNext q' el' \<and> capped q q' {r}"
    using find_rec_cap [OF r(1) Cons.prems(2), of p el] find_rec_compatible [OF r(2)] capped_refl [of q] Cons.prems(2)
    unfolding rect_ok_def by blast
  then obtain q' el' where q': "find_rec EVT_FIND_CAP p r pref q el = FindNext q' el'" "capped q q' {r}" by blast
  moreover have "scan EVT_FIND_CAP xs q' el' \<noteq> FindErr e"
    using Cons.prems compatible_capped [OF q'(2)] capped_ok [OF q'(2)] by (intro Cons.IH) auto
  ultimately show ?case by (simp add: a)
qed simp

text \<open>The change to one extent, and the loop that makes it for those found.\<close>

definition clip_rec :: "evt_rect \<Rightarrow> evt_ptr \<Rightarrow> evt_rect \<times> evt_ptr_ref \<Rightarrow> evt_rect \<times> evt_ptr_ref" where
  "clip_rec q ptr x =
     (if meets (fst x) q
      then (if rc_epc_lo (fst x) < rc_epc_lo q then ((fst x)\<lparr>rc_epc_hi := rc_epc_lo q - 1\<rparr>, snd x)
            else (fst x, evt_ptr_copy (snd x) ptr))
      else x)"

lemma map_of_upd_key: "map_of (map (upd_key p f) xs) p' = (if p' = p then map_option f (map_of xs p') else map_of xs p')"
  by (induction xs) (auto simp: upd_key_def)

text \<open>The entries left in the loop, for the tree as it is: extents to be changed, at most one to be replaced.\<close>

definition clip_todo :: "evt_rect \<Rightarrow> bool \<Rightarrow> evt_node \<Rightarrow> nat list list \<Rightarrow> bool" where
  "clip_todo q replaced nd ps \<longleftrightarrow> distinct ps \<and>
     (\<forall>p \<in> set ps. \<exists>x. evt_rec_at p nd = Some x \<and> meets (fst x) q \<and> (caps q (fst x) \<or> same q (fst x))) \<and>
     (\<forall>p \<in> set ps. \<forall>x. evt_rec_at p nd = Some x \<longrightarrow> same q (fst x) \<longrightarrow>
        \<not> replaced \<and> (\<forall>p' \<in> set ps. \<forall>y. evt_rec_at p' nd = Some y \<longrightarrow> same q (fst y) \<longrightarrow> p' = p))"

lemma clip_todo_cong:
  "(\<And>p. p \<in> set ps \<Longrightarrow> evt_rec_at p nd' = evt_rec_at p nd) \<Longrightarrow> clip_todo q replaced nd' ps = clip_todo q replaced nd ps"
  by (simp add: clip_todo_def)

lemma clip_todo_tail:
  assumes "clip_todo q replaced nd (p # ps)" "evt_rec_at p nd = Some x"
  shows "clip_todo q (replaced \<or> same q (fst x)) nd ps"
proof -
  have "p \<notin> set ps" using assms(1) by (simp add: clip_todo_def)
  have "\<not> (replaced \<or> same q (fst x))" if "p' \<in> set ps" "evt_rec_at p' nd = Some y" "same q (fst y)" for p' y
    using assms that \<open>p \<notin> set ps\<close> unfolding clip_todo_def by (metis list.set_intros)
  then show ?thesis using assms(1) unfolding clip_todo_def by simp
qed

lemma clip_step:
  assumes ok: "evt_ok order n nd" and todo: "clip_todo q replaced nd (en_path e # map en_path ents)"
  obtains x f where "evt_rec_at (en_path e) nd = Some x" "f x = clip_rec q ptr x"
    and "clip_loop q ptr (e # ents) replaced nd = clip_loop q ptr ents (replaced \<or> same q (fst x)) (evt_upd_at (en_path e) f nd)"
    and "evt_ok order n (evt_upd_at (en_path e) f nd)"
    and "clip_todo q (replaced \<or> same q (fst x)) (evt_upd_at (en_path e) f nd) (map en_path ents)"
proof -
  let ?p = "en_path e"
  from todo obtain r pref where x: "evt_rec_at ?p nd = Some (r, pref)" "meets r q" "caps q r \<or> same q r"
    by (auto simp: clip_todo_def)
  define f :: "evt_rect \<times> evt_ptr_ref \<Rightarrow> evt_rect \<times> evt_ptr_ref" where
    "f = (if rc_epc_lo r < rc_epc_lo q then (\<lambda>(r', p). (r'\<lparr>rc_epc_hi := rc_epc_lo q - 1\<rparr>, p))
          else (\<lambda>(r', p). (r', evt_ptr_copy p ptr)))"
  have rep: "same q r \<Longrightarrow> \<not> replaced" using todo x(1) by (auto simp: clip_todo_def)
  have step: "clip_loop q ptr (e # ents) replaced nd = clip_loop q ptr ents (replaced \<or> same q r) (evt_upd_at ?p f nd)"
    using x rep less_imp_neq [of "rc_epc_lo r" "rc_epc_lo q"]
    by (auto simp: f_def caps_def same_def meets_def evt_rect_is_wider_def evt_rect_equal_width_def)
  have "rc_epc_lo r < rc_epc_lo q \<Longrightarrow> rc_epc_lo q - 1 \<le> rc_epc_hi r"
    using x(2) word_pred(1) [of "rc_epc_lo r" "rc_epc_lo q"] by (auto simp: meets_def)
  then have "evt_ok order n (evt_upd_at ?p f nd)" using x(1)
    by (intro evt_ok_upd_at [OF ok]) (auto simp: f_def covers_def)
  moreover have "?p \<notin> set (map en_path ents)" using todo by (simp add: clip_todo_def)
  then have "p' \<noteq> ?p" if "p' \<in> set (map en_path ents)" for p' using that by blast
  then have "evt_rec_at p' (evt_upd_at ?p f nd) = evt_rec_at p' nd" if "p' \<in> set (map en_path ents)" for p'
    using that x(1) by (simp add: rec_at_map_of paths_upd_at map_of_upd_key)
  then have "clip_todo q b (evt_upd_at ?p f nd) (map en_path ents) = clip_todo q b nd (map en_path ents)" for b
    by (rule clip_todo_cong)
  then have "clip_todo q (replaced \<or> same q r) (evt_upd_at ?p f nd) (map en_path ents)"
    using clip_todo_tail [OF todo x(1)] by simp
  moreover have "f (r, pref) = clip_rec q ptr (r, pref)" using x(2) by (simp add: f_def clip_rec_def)
  ultimately show ?thesis using that x(1) step by simp
qed

lemma clip_loop_ok:
  assumes "evt_ok order n nd" "clip_todo q replaced nd (map en_path ents)"
  shows "\<exists>nd'. clip_loop q ptr ents replaced nd =
      Some (nd', replaced \<or> (\<exists>e \<in> set ents. \<exists>x. evt_rec_at (en_path e) nd = Some x \<and> same q (fst x))) \<and> evt_ok order n nd' \<and>
    paths nd' = map (\<lambda>x. (fst x, if fst x \<in> en_path ` set ents then clip_rec q ptr (snd x) else snd x)) (paths nd)"
  using assms
proof (induction ents arbitrary: nd replaced)
  case (Cons e ents)
  let ?p = "en_path e"
  have todo: "clip_todo q replaced nd (?p # map en_path ents)" using Cons.prems(2) by simp
  from clip_step [OF Cons.prems(1) todo, where ptr = ptr] obtain x f
    where x: "evt_rec_at ?p nd = Some x" "f x = clip_rec q ptr x"
    and step: "clip_loop q ptr (e # ents) replaced nd = clip_loop q ptr ents (replaced \<or> same q (fst x)) (evt_upd_at ?p f nd)"
    and ok: "evt_ok order n (evt_upd_at ?p f nd)"
    and todo': "clip_todo q (replaced \<or> same q (fst x)) (evt_upd_at ?p f nd) (map en_path ents)" by blast
  define nd1 where "nd1 = evt_upd_at ?p f nd"
  have notin: "?p \<notin> en_path ` set ents" using todo by (simp add: clip_todo_def)
  have other: "evt_rec_at p' nd1 = evt_rec_at p' nd" if "p' \<noteq> ?p" for p'
    using that x(1) by (simp add: nd1_def rec_at_map_of paths_upd_at map_of_upd_key)
  have same: "(\<exists>e' \<in> set ents. \<exists>y. evt_rec_at (en_path e') nd1 = Some y \<and> same q (fst y)) =
      (\<exists>e' \<in> set ents. \<exists>y. evt_rec_at (en_path e') nd = Some y \<and> same q (fst y))"
    using other notin by (metis imageI)
  have P: "paths nd1 = map (upd_key ?p f) (paths nd)" using x(1) paths_upd_at by (simp add: nd1_def)
  have "y \<in> set (paths nd) \<Longrightarrow> fst y = ?p \<Longrightarrow> snd y = x" for y
    using x(1) paths_distinct(1) by (metis rec_at_map_of map_of_is_SomeI option.inject prod.collapse)
  then have eq: "map (\<lambda>x. (fst x, if fst x \<in> en_path ` set ents then clip_rec q ptr (snd x) else snd x)) (paths nd1) =
      map (\<lambda>x. (fst x, if fst x \<in> en_path ` set (e # ents) then clip_rec q ptr (snd x) else snd x)) (paths nd)"
    using notin x(2) by (auto simp: P upd_key_def)
  from Cons.IH [OF ok todo', folded nd1_def] show ?case
    unfolding step nd1_def [symmetric] eq same using x(1) by (cases x) auto
qed simp

text \<open>The extents of a tree: well-formed, disjoint, and each hidden later by a wider one that follows.\<close>

definition recs_key :: "evt_rect \<times> evt_ptr_ref \<Rightarrow> u64 \<times> u64" where
  "recs_key x = (rc_off_lo (fst x), rc_epc_lo (fst x))"

definition recs_inv :: "(evt_rect \<times> evt_ptr_ref) list \<Rightarrow> bool" where
  "recs_inv xs \<longleftrightarrow> (\<forall>x \<in> set xs. rec_ok x) \<and> distinct (map recs_key xs) \<and>
     (\<forall>x \<in> set xs. \<forall>y \<in> set xs. recs_key x \<noteq> recs_key y \<longrightarrow> \<not> meets (fst x) (fst y)) \<and>
     (\<forall>x \<in> set xs. rc_epc_hi (fst x) \<noteq> EPOCH_MAX \<longrightarrow>
        (\<exists>y \<in> set xs. evt_rect_is_wider (fst y) (fst x) \<and> rc_epc_lo (fst y) = rc_epc_hi (fst x) + 1))"

definition evt_inv :: "evt_root \<Rightarrow> bool" where
  "evt_inv root \<longleftrightarrow> root_ok root \<and> recs_inv (root_recs root)"

text \<open>The entries found in a tree are what the loop expects.\<close>

lemma found_todo:
  assumes inv: "recs_inv (recs_of nd)" and found: "cap_found (paths nd) q q' ents"
  shows "clip_todo q' False nd (map en_path ents)"
    and "(\<exists>e \<in> set ents. \<exists>x. evt_rec_at (en_path e) nd = Some x \<and> same q' (fst x)) \<longleftrightarrow> (\<exists>x \<in> set (recs_of nd). same q (fst x))"
    and "map (\<lambda>x. if fst x \<in> en_path ` set ents then clip_rec q' ptr (snd x) else snd x) (paths nd) =
      map (clip_rec q' ptr) (recs_of nd)"
proof -
  let ?xs = "paths nd"
  have c: "capped q q' ((\<lambda>x. fst (snd x)) ` set ?xs)" and ps: "map en_path ents = map fst (filter (\<lambda>x. meets (fst (snd x)) q') ?xs)"
    and all: "\<forall>x \<in> set ?xs. meets (fst (snd x)) q' \<longrightarrow> caps q (fst (snd x)) \<or> same q (fst (snd x))"
    using found by (auto simp: cap_found_def)
  have cs: "caps q' r = caps q r" "same q' r = same q r" for r using capped_same [OF c] by blast+
  have recs: "recs_of nd = map snd ?xs" by (simp add: map_snd_paths)
  have at: "evt_rec_at p nd = Some x \<longleftrightarrow> (p, x) \<in> set ?xs" for p x
    using paths_distinct(1) by (simp add: rec_at_map_of map_of_eq_Some_iff)
  have ents: "p \<in> en_path ` set ents \<longleftrightarrow> (\<exists>x. (p, x) \<in> set ?xs \<and> meets (fst x) q')" for p
  proof -
    have "en_path ` set ents = fst ` {x \<in> set ?xs. meets (fst (snd x)) q'}" using arg_cong [OF ps, of set] by simp
    then show ?thesis by (auto simp: image_iff Bex_def)
  qed
  have uniq: "p = p'" if "(p, x) \<in> set ?xs" "(p', y) \<in> set ?xs" "same q (fst x)" "same q (fst y)" for p p' x y
  proof -
    have "inj_on (recs_key \<circ> snd) (set ?xs)" using inv by (simp add: recs_inv_def recs distinct_map)
    moreover have "recs_key x = recs_key y" using that(3,4) by (auto simp: recs_key_def same_def evt_rect_equal_width_def)
    ultimately have "(p, x) = (p', y)" using that(1,2) by (auto dest: inj_onD [where x = "(p, x)" and y = "(p', y)"])
    then show ?thesis by simp
  qed
  have "distinct (map en_path ents)" unfolding ps using paths_distinct(1) by (simp add: distinct_map_filter)
  moreover have "\<exists>x. (p, x) \<in> set ?xs \<and> meets (fst x) q' \<and> (caps q (fst x) \<or> same q (fst x))" if "p \<in> en_path ` set ents" for p
    using that all ents by (metis fst_conv snd_conv)
  ultimately show "clip_todo q' False nd (map en_path ents)"
    unfolding clip_todo_def cs at set_map using uniq by blast
  have m: "same q (fst x) \<Longrightarrow> (p, x) \<in> set ?xs \<Longrightarrow> meets (fst x) q'" for x p
    using inv by (intro capped_meets [OF c]) (auto simp: recs_inv_def recs rec_ok_def)
  have "(\<exists>p \<in> en_path ` set ents. \<exists>x. (p, x) \<in> set ?xs \<and> same q (fst x)) \<longleftrightarrow> (\<exists>p x. (p, x) \<in> set ?xs \<and> same q (fst x))"
    using m ents by blast
  moreover have "(\<exists>x \<in> set (recs_of nd). same q (fst x)) \<longleftrightarrow> (\<exists>p x. (p, x) \<in> set ?xs \<and> same q (fst x))"
    unfolding recs by force
  ultimately show "(\<exists>e \<in> set ents. \<exists>x. evt_rec_at (en_path e) nd = Some x \<and> same q' (fst x)) \<longleftrightarrow> (\<exists>x \<in> set (recs_of nd). same q (fst x))"
    unfolding cs at by simp
  have "(p, x) \<in> set ?xs \<Longrightarrow> p \<in> en_path ` set ents \<longleftrightarrow> meets (fst x) q'" for p x
    using ents at by (metis option.inject)
  then show "map (\<lambda>x. if fst x \<in> en_path ` set ents then clip_rec q' ptr (snd x) else snd x) ?xs = map (clip_rec q' ptr) (recs_of nd)"
    by (auto simp: recs clip_rec_def)
qed

lemma clip_entry_ok:
  assumes "evt_inv root" "rect_ok q"
  shows "evt_clip_entry root q ptr = Some (Inl DER_NO_PERM) \<or>
    (\<exists>root' q'. capped q q' (fst ` set (root_recs root)) \<and>
      (\<forall>x \<in> set (root_recs root). meets (fst x) q' \<longrightarrow> caps q (fst x) \<or> same q (fst x)) \<and>
      evt_clip_entry root q ptr = Some (Inr (root', if \<exists>x \<in> set (root_recs root). same q (fst x) then None else Some q')) \<and>
      root_ok root' \<and> (tr_node root' = None \<longleftrightarrow> tr_node root = None) \<and>
      root_recs root' = map (clip_rec q' ptr) (root_recs root))"
proof (cases "tr_node root")
  case None
  then show ?thesis using assms
    by (intro disjI2 exI [of _ root] exI [of _ q]) (auto simp: evt_inv_def root_recs_def evt_clip_entry_def evt_find_ent_list_def rect_ok_def)
next
  case (Some nd)
  have inv: "recs_inv (recs_of nd)" and ok: "root_ok root" using assms(1) Some by (auto simp: evt_inv_def root_recs_def)
  have recs: "recs_of nd = map snd (paths nd)" by (simp add: map_snd_paths)
  have scan: "evt_find_ent_list root EVT_FIND_CAP q = scan EVT_FIND_CAP (paths nd) q evt_ent_list_init"
    using find_ent_list_scan [OF ok] Some by (simp add: root_paths_def)
  have "\<forall>x \<in> set (paths nd). rec_ok (snd x)" using inv by (auto simp: recs_inv_def recs)
  from scan_cap [OF this assms(2), of evt_ent_list_init] show ?thesis
  proof (elim disjE exE conjE)
    fix q' el' ents
    assume s: "scan EVT_FIND_CAP (paths nd) q evt_ent_list_init = FindNext q' el'" and el: "el_list el' = el_list evt_ent_list_init @ ents"
      and found: "cap_found (paths nd) q q' ents"
    note todo = found_todo [OF inv found]
    have el: "el_list el' = ents" using el by (simp add: evt_ent_list_init_def)
    have okn: "evt_ok (tr_order root) (tr_depth root) nd" using ok Some by (simp add: root_ok_def)
    from clip_loop_ok [OF okn todo(1), of ptr] obtain nd' where nd':
      "clip_loop q' ptr ents False nd = Some (nd', \<exists>x \<in> set (recs_of nd). same q (fst x))"
      "evt_ok (tr_order root) (tr_depth root) nd'" "map snd (paths nd') = map (clip_rec q' ptr) (recs_of nd)"
      unfolding todo(2) todo(3) [symmetric] by auto
    have "evt_clip_entry root q ptr =
        Some (Inr (root\<lparr>tr_node := Some nd'\<rparr>, if \<exists>x \<in> set (recs_of nd). same q (fst x) then None else Some q'))"
      by (simp add: evt_clip_entry_def scan s Some el nd'(1))
    moreover have "root_ok (root\<lparr>tr_node := Some nd'\<rparr>)" using ok nd'(2) by (simp add: root_ok_def)
    moreover have "root_recs (root\<lparr>tr_node := Some nd'\<rparr>) = map (clip_rec q' ptr) (recs_of nd)"
      using nd'(3) by (simp add: root_recs_def map_snd_paths)
    moreover have "root_recs root = recs_of nd" by (simp add: root_recs_def Some)
    moreover have "capped q q' (fst ` set (recs_of nd))" "\<forall>x \<in> set (recs_of nd). meets (fst x) q' \<longrightarrow> caps q (fst x) \<or> same q (fst x)"
      using found by (auto simp: cap_found_def recs image_image)
    ultimately show ?thesis using Some by auto
  qed (simp add: evt_clip_entry_def scan)
qed

lemma clip_entry_compatible:
  assumes "evt_inv root" "rect_ok q" "\<forall>x \<in> set (root_recs root). compatible q (fst x)"
  shows "evt_clip_entry root q ptr \<noteq> Some (Inl e)"
proof -
  have "\<forall>x \<in> set (root_paths root). rec_ok (snd x) \<and> compatible q (fst (snd x))"
    using assms(1,3) unfolding evt_inv_def recs_inv_def root_paths_recs [symmetric] by auto
  then have "evt_find_ent_list root EVT_FIND_CAP q \<noteq> FindErr e" for e
    using scan_compatible assms(2) find_ent_list_scan assms(1) by (metis evt_inv_def)
  then show ?thesis by (auto simp: evt_clip_entry_def split: find_rc.split option.split)
qed

end
