(* ===== verification/Evt_Visible.thy ===== *)
theory Evt_Visible
  imports Evt_Sem
begin

text \<open>
  The write that is visible at an offset and an epoch, and how an insertion changes it.
\<close>

definition holds_at :: "evt_rect \<Rightarrow> u64 \<Rightarrow> u64 \<Rightarrow> bool" where
  "holds_at r off e \<longleftrightarrow> rc_off_lo r \<le> off \<and> off \<le> rc_off_hi r \<and> rc_epc_lo r \<le> e \<and> e \<le> rc_epc_hi r"

text \<open>The epoch of the write, its data, and the index of the record in them.\<close>

definition rec_value :: "evt_rect \<times> evt_ptr_ref \<Rightarrow> u64 \<Rightarrow> u64 \<times> evt_ptr \<times> u64" where
  "rec_value x off = (rc_epc_lo (fst x), pr_ptr (snd x), pr_offset (snd x) + (off - rc_off_lo (fst x)))"

definition visible :: "(evt_rect \<times> evt_ptr_ref) list \<Rightarrow> u64 \<Rightarrow> u64 \<Rightarrow> (u64 \<times> evt_ptr \<times> u64) option" where
  "visible xs off e = map_option (\<lambda>x. rec_value x off) (find (\<lambda>x. holds_at (fst x) off e) xs)"

lemma holds_meets: "holds_at r off e \<Longrightarrow> holds_at s off e \<Longrightarrow> meets r s"
  unfolding holds_at_def meets_def by (meson order_trans)

lemma holds_covers: "covers r s \<Longrightarrow> holds_at s off e \<Longrightarrow> holds_at r off e"
  unfolding holds_at_def covers_def by (meson order_trans)

lemma rect_ok_holds: "rect_ok r \<Longrightarrow> holds_at r (rc_off_lo r) (rc_epc_lo r)"
  by (simp add: rect_ok_def holds_at_def)

lemma recs_inv_unique:
  assumes "recs_inv xs" "x \<in> set xs" "y \<in> set xs" "meets (fst x) (fst y)"
  shows "x = y"
proof -
  have "recs_key x = recs_key y" using assms unfolding recs_inv_def by blast
  then show ?thesis using assms(1-3) unfolding recs_inv_def distinct_map by (auto dest: inj_onD)
qed

lemma visible_some:
  assumes "recs_inv xs" "x \<in> set xs" "holds_at (fst x) off e"
  shows "visible xs off e = Some (rec_value x off)"
proof -
  obtain y where y: "find (\<lambda>x. holds_at (fst x) off e) xs = Some y" using assms(2,3) by (metis find_None_iff not_Some_eq)
  then have "y \<in> set xs" "holds_at (fst y) off e" by (auto simp: find_Some_iff)
  then have "x = y" using recs_inv_unique [OF assms(1,2)] holds_meets assms(3) by blast
  then show ?thesis using y by (simp add: visible_def)
qed

lemma visible_none: "visible xs off e = None \<longleftrightarrow> (\<forall>x \<in> set xs. \<not> holds_at (fst x) off e)"
  by (auto simp: visible_def find_None_iff)

lemma visible_some_iff:
  assumes "recs_inv xs"
  shows "visible xs off e = Some v \<longleftrightarrow> (\<exists>x \<in> set xs. holds_at (fst x) off e \<and> v = rec_value x off)"
proof (cases "visible xs off e")
  case None
  then show ?thesis using visible_none by (metis option.distinct(1))
next
  case (Some w)
  then obtain x where "x \<in> set xs" "holds_at (fst x) off e" by (metis visible_none option.distinct(1))
  then show ?thesis using visible_some [OF assms] by (metis option.inject)
qed

text \<open>An extent that has ended is followed by newer ones, up to any later epoch.\<close>

lemma later_extent:
  assumes inv: "recs_inv xs"
  shows "x \<in> set xs \<Longrightarrow> rc_off_lo (fst x) \<le> off \<Longrightarrow> off \<le> rc_off_hi (fst x) \<Longrightarrow> rc_epc_lo (fst x) \<le> e \<Longrightarrow>
    \<exists>y \<in> set xs. holds_at (fst y) off e \<and> rc_epc_lo (fst x) \<le> rc_epc_lo (fst y)"
proof (induction "unat e - unat (rc_epc_hi (fst x))" arbitrary: x rule: less_induct)
  case less
  show ?case
  proof (cases "e \<le> rc_epc_hi (fst x)")
    case True
    then show ?thesis using less.prems by (auto simp: holds_at_def)
  next
    case False
    then have "rc_epc_hi (fst x) \<noteq> EPOCH_MAX" by (auto simp: EPOCH_MAX_def)
    then obtain y where y: "y \<in> set xs" "evt_rect_is_wider (fst y) (fst x)" "rc_epc_lo (fst y) = rc_epc_hi (fst x) + 1"
      using inv less.prems(1) unfolding recs_inv_def by blast
    have ok: "rc_epc_lo (fst y) \<le> rc_epc_hi (fst y)" "rc_epc_lo (fst x) \<le> rc_epc_hi (fst x)"
      using inv y(1) less.prems(1) by (auto simp: recs_inv_def rec_ok_def rect_ok_def)
    have "unat (rc_epc_hi (fst x)) < unat e" using False by (simp add: word_le_nat_alt not_le)
    moreover have u: "unat (rc_epc_lo (fst y)) = unat (rc_epc_hi (fst x)) + 1"
      unfolding y(3) by (rule unat_succ) (use \<open>rc_epc_hi (fst x) \<noteq> EPOCH_MAX\<close> in \<open>simp add: EPOCH_MAX_def\<close>)
    ultimately have "unat e - unat (rc_epc_hi (fst y)) < unat e - unat (rc_epc_hi (fst x))" "rc_epc_lo (fst y) \<le> e"
      using ok by (auto simp: word_le_nat_alt)
    moreover have "rc_off_lo (fst y) \<le> off" "off \<le> rc_off_hi (fst y)" using y(2) less.prems by (auto simp: evt_rect_is_wider_def)
    ultimately obtain z where "z \<in> set xs" "holds_at (fst z) off e" "rc_epc_lo (fst y) \<le> rc_epc_lo (fst z)"
      using less.hyps y(1) by blast
    moreover have "rc_epc_lo (fst x) \<le> rc_epc_lo (fst y)" using ok(2) u by (simp add: word_le_nat_alt)
    ultimately show ?thesis using order_trans by blast
  qed
qed

section \<open>Extents after clipping\<close>

lemma clip_key [simp]:
  "recs_key (clip_rec q ptr x) = recs_key x" "rc_off_lo (fst (clip_rec q ptr x)) = rc_off_lo (fst x)"
  "rc_off_hi (fst (clip_rec q ptr x)) = rc_off_hi (fst x)" "rc_epc_lo (fst (clip_rec q ptr x)) = rc_epc_lo (fst x)"
  "pr_offset (snd (clip_rec q ptr x)) = pr_offset (snd x)"
  by (auto simp: clip_rec_def recs_key_def evt_ptr_copy_def)

lemma clip_covers: "covers (fst x) (fst (clip_rec q ptr x))"
proof (cases "meets (fst x) q \<and> rc_epc_lo (fst x) < rc_epc_lo q")
  case True
  then have "rc_epc_lo q - 1 \<le> rc_epc_hi (fst x)" using word_pred(1) [of "rc_epc_lo (fst x)" "rc_epc_lo q"] by (auto simp: meets_def)
  then show ?thesis using True by (simp add: clip_rec_def covers_def)
qed (auto simp: clip_rec_def)

lemma clip_rect_ok: "rect_ok (fst x) \<Longrightarrow> rect_ok (fst (clip_rec q ptr x))"
  using word_pred(2) [of "rc_epc_lo (fst x)" "rc_epc_lo q"] by (auto simp: rect_ok_def clip_rec_def)

lemma clip_rec_ok: "rec_ok x \<Longrightarrow> ptr_asserts ptr \<Longrightarrow> rec_ok (clip_rec q ptr x)"
  using clip_rect_ok [of x q ptr] by (auto simp: rec_ok_def clip_rec_def evt_ptr_copy_def)

lemma clip_wider [simp]:
  "evt_rect_is_wider (fst (clip_rec q ptr x)) r = evt_rect_is_wider (fst x) r"
  "evt_rect_is_wider r (fst (clip_rec q ptr x)) = evt_rect_is_wider r (fst x)"
  by (simp_all add: evt_rect_is_wider_def)

lemma recs_inv_perm: "recs_inv xs \<Longrightarrow> mset xs = mset ys \<Longrightarrow> recs_inv ys"
proof -
  assume "recs_inv xs" "mset xs = mset ys"
  moreover have "set xs = set ys" using calculation(2) by (rule mset_eq_setD)
  moreover have "distinct (map recs_key xs) = distinct (map recs_key ys)"
    using calculation(2) by (metis mset_eq_imp_distinct_iff mset_map)
  ultimately show "recs_inv ys" by (simp add: recs_inv_def)
qed

section \<open>Inserting a write\<close>

text \<open>What a write makes visible: its data, unless a write of a higher epoch is visible there.\<close>

definition write_visible ::
  "(u64 \<Rightarrow> u64 \<Rightarrow> (u64 \<times> evt_ptr \<times> u64) option) \<Rightarrow> evt_rect \<Rightarrow> evt_ptr \<Rightarrow> u64 \<Rightarrow> u64 \<Rightarrow> (u64 \<times> evt_ptr \<times> u64) option" where
  "write_visible vis q ptr off e =
     (if rc_off_lo q \<le> off \<and> off \<le> rc_off_hi q \<and> rc_epc_lo q \<le> e \<and>
         (case vis off e of Some (v, _) \<Rightarrow> v \<le> rc_epc_lo q | None \<Rightarrow> True)
      then Some (rc_epc_lo q, ptr, off - rc_off_lo q) else vis off e)"

text \<open>The extents of a tree after clipping for \<open>q\<close>, and the new extent if there is none of the same epoch.\<close>

definition clip_ok :: "(evt_rect \<times> evt_ptr_ref) list \<Rightarrow> evt_rect \<Rightarrow> evt_rect \<Rightarrow> bool" where
  "clip_ok xs q q' \<longleftrightarrow> recs_inv xs \<and> rect_ok q \<and> rc_epc_hi q = EPOCH_MAX \<and> capped q q' (fst ` set xs) \<and>
     (\<forall>x \<in> set xs. meets (fst x) q' \<longrightarrow> caps q (fst x) \<or> same q (fst x))"

definition clip_recs :: "(evt_rect \<times> evt_ptr_ref) list \<Rightarrow> evt_rect \<Rightarrow> evt_rect \<Rightarrow> evt_ptr \<Rightarrow> (evt_rect \<times> evt_ptr_ref) list" where
  "clip_recs xs q q' ptr =
     (if \<exists>x \<in> set xs. same q (fst x) then []
      else [(q', \<lparr>pr_ptr = ptr, pr_offset = 0, pr_inum = evt_rect_width q'\<rparr>)]) @ map (clip_rec q' ptr) xs"

lemma clip_ok_hi:
  assumes "clip_ok xs q q'"
  obtains h where "q' = q\<lparr>rc_epc_hi := h\<rparr>" "rc_epc_lo q \<le> h"
    and "h \<noteq> EPOCH_MAX \<Longrightarrow> \<exists>x \<in> set xs. evt_rect_is_wider (fst x) q \<and> h < rc_epc_lo (fst x) \<and> rc_epc_lo (fst x) = h + 1"
  using assms that [of "rc_epc_hi q'"] unfolding clip_ok_def capped_def by auto

text \<open>An extent of the same epoch and offsets: no other one is met.\<close>

lemma clip_same:
  assumes "clip_ok xs q q'" "x \<in> set xs" "same q (fst x)" "y \<in> set xs" "meets (fst y) q'"
  shows "y = x"
proof (rule recs_inv_unique)
  show "recs_inv xs" using assms(1) by (simp add: clip_ok_def)
  obtain h where h: "q' = q\<lparr>rc_epc_hi := h\<rparr>" using assms(1) by (rule clip_ok_hi)
  have "rc_epc_lo (fst y) \<le> rc_epc_lo q" using assms(1,4,5) by (auto simp: clip_ok_def caps_def same_def)
  moreover have "rc_epc_lo (fst x) \<le> rc_epc_hi (fst x)" using assms(1,2) by (auto simp: clip_ok_def recs_inv_def rec_ok_def rect_ok_def)
  ultimately show "meets (fst y) (fst x)" using assms(3,5) unfolding h meets_def same_def evt_rect_equal_width_def by auto
qed (use assms in auto)

lemma clip_chain:
  assumes ok: "clip_ok xs q q'" and x: "x \<in> set (clip_recs xs q q' ptr)" "rc_epc_hi (fst x) \<noteq> EPOCH_MAX"
  shows "\<exists>y \<in> set (clip_recs xs q q' ptr). evt_rect_is_wider (fst y) (fst x) \<and> rc_epc_lo (fst y) = rc_epc_hi (fst x) + 1"
proof -
  obtain h where h: "q' = q\<lparr>rc_epc_hi := h\<rparr>" "rc_epc_lo q \<le> h"
    and hi: "h \<noteq> EPOCH_MAX \<longrightarrow> (\<exists>x \<in> set xs. evt_rect_is_wider (fst x) q \<and> h < rc_epc_lo (fst x) \<and> rc_epc_lo (fst x) = h + 1)"
    using clip_ok_hi [OF ok] by metis
  have old: "y \<in> set xs \<Longrightarrow> clip_rec q' ptr y \<in> set (clip_recs xs q q' ptr)" for y by (simp add: clip_recs_def)
  from x(1) consider "fst x = q'" | y where "y \<in> set xs" "x = clip_rec q' ptr y" by (auto simp: clip_recs_def split: if_splits)
  then show ?thesis
  proof cases
    case 1
    then have "h \<noteq> EPOCH_MAX" using x(2) h by simp
    then obtain y where "y \<in> set xs" "evt_rect_is_wider (fst y) q" "rc_epc_lo (fst y) = h + 1" using hi by blast
    then show ?thesis using 1 h old [of y] by (intro bexI [OF _ old [of y]]) (auto simp: evt_rect_is_wider_def)
  next
    case (2 y)
    show ?thesis
    proof (cases "meets (fst y) q' \<and> caps q (fst y)")
      case True
      then have "\<not> same q (fst z)" if "z \<in> set xs" for z
        using clip_same [OF ok that _ 2(1)] by (auto simp: caps_def same_def)
      then have "(q', \<lparr>pr_ptr = ptr, pr_offset = 0, pr_inum = evt_rect_width q'\<rparr>) \<in> set (clip_recs xs q q' ptr)"
        by (simp add: clip_recs_def)
      then show ?thesis using True 2 h by (intro bexI) (auto simp: clip_rec_def caps_def evt_rect_is_wider_def)
    next
      case False
      then have "fst x = fst y" using 2 ok h by (auto simp: clip_rec_def clip_ok_def caps_def same_def)
      then obtain z where "z \<in> set xs" "evt_rect_is_wider (fst z) (fst y)" "rc_epc_lo (fst z) = rc_epc_hi (fst y) + 1"
        using ok 2(1) x(2) unfolding clip_ok_def recs_inv_def by metis
      then show ?thesis using \<open>fst x = fst y\<close> by (intro bexI [OF _ old [of z]]) simp_all
    qed
  qed
qed

lemma recs_inv_Cons:
  assumes "\<forall>x \<in> set ys. rec_ok x" "distinct (map recs_key ys)"
    and "\<forall>x \<in> set ys. \<forall>y \<in> set ys. recs_key x \<noteq> recs_key y \<longrightarrow> \<not> meets (fst x) (fst y)"
    and "rec_ok a" "\<forall>y \<in> set ys. \<not> meets (fst a) (fst y)"
    and "\<forall>x \<in> set (a # ys). rc_epc_hi (fst x) \<noteq> EPOCH_MAX \<longrightarrow>
        (\<exists>y \<in> set (a # ys). evt_rect_is_wider (fst y) (fst x) \<and> rc_epc_lo (fst y) = rc_epc_hi (fst x) + 1)"
  shows "recs_inv (a # ys)"
proof -
  have "recs_key y \<noteq> recs_key a" if "y \<in> set ys" for y
  proof
    assume "recs_key y = recs_key a"
    then have "holds_at (fst y) (rc_off_lo (fst a)) (rc_epc_lo (fst a))"
      using assms(1) that rect_ok_holds [of "fst y"] by (auto simp: recs_key_def rec_ok_def)
    moreover have "holds_at (fst a) (rc_off_lo (fst a)) (rc_epc_lo (fst a))"
      using assms(4) rect_ok_holds by (simp add: rec_ok_def)
    ultimately show False using assms(5) that holds_meets by blast
  qed
  then have "distinct (map recs_key (a # ys))" using assms(2) by (auto simp: image_iff) metis
  moreover have "\<forall>x \<in> set (a # ys). \<forall>y \<in> set (a # ys). recs_key x \<noteq> recs_key y \<longrightarrow> \<not> meets (fst x) (fst y)"
    using assms(3,5) meets_sym by (metis set_ConsD)
  ultimately show ?thesis unfolding recs_inv_def using assms(1,4,6) by (metis set_ConsD)
qed

lemma clip_recs_inv:
  assumes ok: "clip_ok xs q q'" and ptr: "ptr_asserts ptr"
  shows "recs_inv (clip_recs xs q q' ptr)"
proof -
  let ?ys = "map (clip_rec q' ptr) xs"
  obtain h where h: "q' = q\<lparr>rc_epc_hi := h\<rparr>" "rc_epc_lo q \<le> h" using clip_ok_hi [OF ok] by blast
  have inv: "recs_inv xs" and q: "rect_ok q" and met: "\<And>x. x \<in> set xs \<Longrightarrow> meets (fst x) q' \<Longrightarrow> caps q (fst x) \<or> same q (fst x)"
    using ok by (auto simp: clip_ok_def)
  have q': "rect_ok q'" using q h by (auto simp: rect_ok_def)
  have old: "\<forall>x \<in> set ?ys. rec_ok x" "distinct (map recs_key ?ys)"
    using inv clip_rec_ok ptr by (auto simp: recs_inv_def comp_def)
  have disj: "\<not> meets (fst x) (fst y)" if "x \<in> set ?ys" "y \<in> set ?ys" "recs_key x \<noteq> recs_key y" for x y
    using that inv clip_covers covers_meets meets_sym unfolding recs_inv_def by (smt (verit) clip_key(1) image_iff list.set_map)
  have chain: "\<forall>x \<in> set (clip_recs xs q q' ptr). rc_epc_hi (fst x) \<noteq> EPOCH_MAX \<longrightarrow>
      (\<exists>y \<in> set (clip_recs xs q q' ptr). evt_rect_is_wider (fst y) (fst x) \<and> rc_epc_lo (fst y) = rc_epc_hi (fst x) + 1)"
    using clip_chain [OF ok] by blast
  show ?thesis
  proof (cases "\<exists>x \<in> set xs. same q (fst x)")
    case True
    then show ?thesis using old disj chain by (simp add: recs_inv_def clip_recs_def)
  next
    case False
    have new: "\<not> meets q' (fst y)" if y: "y \<in> set ?ys" for y
    proof -
      obtain x where x: "x \<in> set xs" "y = clip_rec q' ptr x" using y by auto
      show ?thesis
      proof (cases "meets (fst x) q'")
        case True
        then have "rc_epc_lo (fst x) < rc_epc_lo q" using met [OF x(1)] False x(1) by (auto simp: caps_def)
        then show ?thesis using True x(2) h word_pred(1) [of "rc_epc_lo (fst x)" "rc_epc_lo q"] leD
          by (auto simp: clip_rec_def meets_def)
      qed (use x in \<open>simp add: clip_rec_def meets_sym\<close>)
    qed
    define a where "a = (q', \<lparr>pr_ptr = ptr, pr_offset = 0, pr_inum = evt_rect_width q'\<rparr>)"
    have eq: "clip_recs xs q q' ptr = a # ?ys" using False by (simp add: clip_recs_def a_def)
    show ?thesis unfolding eq
      by (rule recs_inv_Cons [OF old]) (use disj new q' chain [unfolded eq] ptr in \<open>blast | simp add: a_def rec_ok_def\<close>)+
  qed
qed

text \<open>Where the new extent is not: an extent keeps its value.\<close>

lemma clip_keeps:
  assumes ok: "clip_ok xs q q'" and x: "x \<in> set xs" "holds_at (fst x) off e"
    and out: "\<not> (rc_off_lo q \<le> off \<and> off \<le> rc_off_hi q \<and> rc_epc_lo q \<le> e) \<or> rc_epc_lo q < rc_epc_lo (fst x)"
  shows "holds_at (fst (clip_rec q' ptr x)) off e" "rec_value (clip_rec q' ptr x) off = rec_value x off"
proof -
  obtain h where h: "q' = q\<lparr>rc_epc_hi := h\<rparr>" using clip_ok_hi [OF ok] by blast
  have met: "meets (fst x) q' \<Longrightarrow> caps q (fst x) \<or> same q (fst x)" using ok x(1) by (auto simp: clip_ok_def)
  have "\<not> same q (fst x) \<or> \<not> meets (fst x) q'"
    using out x(2) by (auto simp: same_def evt_rect_equal_width_def holds_at_def)
  moreover have "e \<le> rc_epc_lo q - 1" if "caps q (fst x)"
  proof -
    have "e < rc_epc_lo q" using that out x(2) by (auto simp: caps_def evt_rect_is_wider_def holds_at_def not_le)
    then show ?thesis by (rule word_pred(2))
  qed
  ultimately show "holds_at (fst (clip_rec q' ptr x)) off e" "rec_value (clip_rec q' ptr x) off = rec_value x off"
    using met x(2) h by (auto simp: clip_rec_def holds_at_def rec_value_def caps_def)
qed

text \<open>Where the new extent is: some extent has the new data there.\<close>

lemma clip_new:
  assumes ok: "clip_ok xs q q'" and rng: "rc_off_lo q \<le> off" "off \<le> rc_off_hi q" "rc_epc_lo q \<le> e"
    and none: "\<And>x. x \<in> set xs \<Longrightarrow> holds_at (fst x) off e \<Longrightarrow> rc_epc_lo (fst x) \<le> rc_epc_lo q"
  shows "\<exists>y \<in> set (clip_recs xs q q' ptr). holds_at (fst y) off e \<and> rec_value y off = (rc_epc_lo q, ptr, off - rc_off_lo q)"
proof -
  obtain h where h: "q' = q\<lparr>rc_epc_hi := h\<rparr>" "rc_epc_lo q \<le> h"
    and hi: "h \<noteq> EPOCH_MAX \<longrightarrow> (\<exists>x \<in> set xs. evt_rect_is_wider (fst x) q \<and> h < rc_epc_lo (fst x) \<and> rc_epc_lo (fst x) = h + 1)"
    using clip_ok_hi [OF ok] by metis
  have inv: "recs_inv xs" using ok by (simp add: clip_ok_def)
  show ?thesis
  proof (cases "\<exists>x \<in> set xs. same q (fst x)")
    case True
    then obtain x where x: "x \<in> set xs" "same q (fst x)" by blast
    then obtain y where y: "y \<in> set xs" "holds_at (fst y) off e" "rc_epc_lo (fst x) \<le> rc_epc_lo (fst y)"
      using later_extent [OF inv x(1), of off e] rng by (auto simp: same_def evt_rect_equal_width_def)
    then have "rc_epc_lo (fst y) = rc_epc_lo q" using none [OF y(1,2)] x(2) by (simp add: same_def)
    moreover have "rc_epc_lo (fst x) \<le> rc_epc_hi (fst x)" using inv x(1) by (auto simp: recs_inv_def rec_ok_def rect_ok_def)
    ultimately have "meets (fst x) (fst y)" using x(2) y(2) rng
      by (auto simp: meets_def same_def holds_at_def evt_rect_equal_width_def)
    then have "x = y" using recs_inv_unique [OF inv x(1) y(1)] by blast
    moreover have "meets (fst x) q'" using x(2) h inv x(1)
      by (auto simp: meets_def same_def evt_rect_equal_width_def recs_inv_def rec_ok_def rect_ok_def)
    moreover have "pr_offset (snd x) = 0" using inv x(1) by (simp add: recs_inv_def rec_ok_def)
    ultimately show ?thesis using x y True h
      by (intro bexI [of _ "clip_rec q' ptr x"])
        (auto simp: clip_recs_def clip_rec_def rec_value_def same_def evt_rect_equal_width_def evt_ptr_copy_def)
  next
    case False
    have "e \<le> h"
    proof (rule ccontr)
      assume "\<not> e \<le> h"
      then have "h \<noteq> EPOCH_MAX" by (auto simp: EPOCH_MAX_def)
      then obtain x where x: "x \<in> set xs" "evt_rect_is_wider (fst x) q" "h < rc_epc_lo (fst x)" "rc_epc_lo (fst x) = h + 1"
        using hi by blast
      have "rc_epc_lo (fst x) \<le> e" unfolding x(4) using \<open>\<not> e \<le> h\<close> by (simp add: inc_le not_le)
      moreover have "rc_off_lo (fst x) \<le> off" "off \<le> rc_off_hi (fst x)" using x(2) rng by (auto simp: evt_rect_is_wider_def)
      ultimately obtain y where y: "y \<in> set xs" "holds_at (fst y) off e" "rc_epc_lo (fst x) \<le> rc_epc_lo (fst y)"
        using later_extent [OF inv x(1)] by blast
      then show False using none [OF y(1,2)] x(3) h(2) by (meson leD le_less_trans less_le_trans order_trans)
    qed
    then show ?thesis using False rng h by (auto simp: clip_recs_def holds_at_def rec_value_def)
  qed
qed

lemma clip_visible:
  assumes ok: "clip_ok xs q q'" and ptr: "ptr_asserts ptr"
  shows "visible (clip_recs xs q q' ptr) off e = write_visible (visible xs) q ptr off e"
proof -
  let ?ys = "clip_recs xs q q' ptr"
  have inv: "recs_inv xs" using ok by (simp add: clip_ok_def)
  note inv' = clip_recs_inv [OF ok ptr]
  have old: "clip_rec q' ptr x \<in> set ?ys" if "x \<in> set xs" for x using that by (simp add: clip_recs_def)
  have keep: "visible ?ys off e = visible xs off e"
    if "x \<in> set xs" "holds_at (fst x) off e"
      "\<not> (rc_off_lo q \<le> off \<and> off \<le> rc_off_hi q \<and> rc_epc_lo q \<le> e) \<or> rc_epc_lo q < rc_epc_lo (fst x)" for x
    using visible_some [OF inv' old [OF that(1)] clip_keeps(1) [OF ok that]] clip_keeps(2) [OF ok that] visible_some [OF inv that(1,2)]
    by simp
  show ?thesis
  proof (cases "rc_off_lo q \<le> off \<and> off \<le> rc_off_hi q \<and> rc_epc_lo q \<le> e")
    case True
    show ?thesis
    proof (cases "\<exists>x \<in> set xs. holds_at (fst x) off e \<and> rc_epc_lo q < rc_epc_lo (fst x)")
      case newer: True
      then obtain x where x: "x \<in> set xs" "holds_at (fst x) off e" "rc_epc_lo q < rc_epc_lo (fst x)" by blast
      then show ?thesis using keep [OF x(1,2)] visible_some [OF inv x(1,2)] leD by (auto simp: write_visible_def rec_value_def)
    next
      case False
      then have "case visible xs off e of Some (v, _) \<Rightarrow> v \<le> rc_epc_lo q | None \<Rightarrow> True"
        using visible_some_iff [OF inv] by (auto simp: rec_value_def not_less split: option.split)
      moreover obtain y where y: "y \<in> set ?ys" "holds_at (fst y) off e" "rec_value y off = (rc_epc_lo q, ptr, off - rc_off_lo q)"
        using clip_new [OF ok, of off e ptr] True False by (auto simp: not_less)
      ultimately show ?thesis using visible_some [OF inv' y(1,2)] True by (auto simp: write_visible_def)
    qed
  next
    case False
    have "visible ?ys off e = visible xs off e"
    proof (cases "visible xs off e")
      case None
      obtain h where h: "q' = q\<lparr>rc_epc_hi := h\<rparr>" using clip_ok_hi [OF ok] by blast
      have "\<not> holds_at q' off e" using False h by (auto simp: holds_at_def)
      moreover have "\<not> holds_at (fst (clip_rec q' ptr x)) off e" if "x \<in> set xs" for x
        using None that holds_covers [OF clip_covers [of x q' ptr]] by (auto simp: visible_none)
      ultimately have "\<not> holds_at (fst y) off e" if "y \<in> set ?ys" for y
        using that by (auto simp: clip_recs_def split: if_splits)
      then have "visible ?ys off e = None" unfolding visible_none by blast
      then show ?thesis using None by simp
    next
      case (Some v)
      then show ?thesis using keep False visible_some_iff [OF inv] by blast
    qed
    then show ?thesis using False by (auto simp: write_visible_def)
  qed
qed

lemma visible_perm:
  assumes "recs_inv xs" "mset xs = mset ys"
  shows "visible ys off e = visible xs off e"
proof -
  have "set xs = set ys" using assms(2) by (rule mset_eq_setD)
  then show ?thesis using visible_some_iff [OF assms(1)] visible_some_iff [OF recs_inv_perm [OF assms]] visible_none
    by (metis option.exhaust)
qed

section \<open>The operations\<close>

definition root_visible :: "evt_root \<Rightarrow> u64 \<Rightarrow> u64 \<Rightarrow> (u64 \<times> evt_ptr \<times> u64) option" where
  "root_visible root = visible (root_recs root)"

text \<open>A write is a rectangle of offsets, open at its end, with data that keep the assertions.\<close>

definition write_ok :: "evt_rect \<Rightarrow> evt_ptr \<Rightarrow> bool" where
  "write_ok rect ptr \<longleftrightarrow> rect_ok (rect\<lparr>rc_epc_hi := EPOCH_MAX\<rparr>) \<and> rc_epc_hi rect \<in> {0, EPOCH_MAX} \<and> ptr_asserts ptr"

lemma insert_ptr_ok:
  assumes inv: "evt_inv root" and w: "write_ok rect ptr"
  shows "evt_insert_ptr root rect ptr = Some (Inl DER_NO_PERM) \<or>
    (\<exists>root'. evt_insert_ptr root rect ptr = Some (Inr root') \<and> evt_inv root' \<and>
      root_visible root' = write_visible (root_visible root) rect ptr)"
proof -
  define q where "q = rect\<lparr>rc_epc_hi := EPOCH_MAX\<rparr>"
  have q: "rect_ok q" "rc_epc_hi q = EPOCH_MAX" and ptr: "ptr_asserts ptr" using w by (auto simp: write_ok_def q_def)
  have rect1: "(if rc_epc_hi rect = 0 then rect\<lparr>rc_epc_hi := EPOCH_MAX\<rparr> else rect) = q"
    using w by (auto simp: write_ok_def q_def)
  have wv: "write_visible vis q ptr = write_visible vis rect ptr" for vis
    by (intro ext) (auto simp: write_visible_def q_def split: option.split)
  have fin: "evt_inv root' \<and> root_visible root' = write_visible (root_visible root) rect ptr"
    if "root_ok root'" "clip_ok (root_recs root) q q'" "mset (root_recs root') = mset (clip_recs (root_recs root) q q' ptr)" for root' q'
    using that recs_inv_perm [OF clip_recs_inv [OF that(2) ptr]] visible_perm [OF clip_recs_inv [OF that(2) ptr]] clip_visible [OF that(2) ptr] wv
    by (simp add: evt_inv_def root_visible_def fun_eq_iff)
  show ?thesis
  proof (cases "tr_depth root = 0")
    case True
    then have none: "tr_node root = None" using inv evt_ok_depth by (fastforce simp: evt_inv_def root_ok_def split: option.splits)
    have "clip_ok (root_recs root) q q" using q none by (simp add: clip_ok_def root_recs_def recs_inv_def rect_ok_def)
    moreover have "EVT_ORDER_MIN \<le> tr_order root" using inv by (simp add: evt_inv_def root_ok_def)
    moreover define root' where "root' = evt_insert_entry (evt_root_activate root) (q, \<lparr>pr_ptr = ptr, pr_offset = 0, pr_inum = evt_rect_width q\<rparr>)"
    moreover have "evt_insert_ptr root rect ptr = Some (Inr root')"
      using True by (cases root) (simp add: evt_insert_ptr_def rect1 evt_clip_entry_def evt_find_ent_list_def
        evt_root_activate_def evt_ent_list_init_def root'_def)
    ultimately show ?thesis
      using fin [of root' q] insert_entry_ok [of "evt_root_activate root"] none
      by (auto simp: evt_root_activate_def root_recs_def clip_recs_def)
  next
    case False
    then have some: "tr_node root \<noteq> None" using inv by (auto simp: evt_inv_def root_ok_def split: option.splits)
    from clip_entry_ok [OF inv q(1), of ptr] show ?thesis
    proof (elim disjE exE conjE)
      fix root2 q'
      assume c: "capped q q' (fst ` set (root_recs root))"
          "\<forall>x \<in> set (root_recs root). meets (fst x) q' \<longrightarrow> caps q (fst x) \<or> same q (fst x)"
        and r: "evt_clip_entry root q ptr = Some (Inr (root2, if \<exists>x \<in> set (root_recs root). same q (fst x) then None else Some q'))"
        and ok: "root_ok root2" "(tr_node root2 = None) = (tr_node root = None)"
        and recs: "root_recs root2 = map (clip_rec q' ptr) (root_recs root)"
      have cok: "clip_ok (root_recs root) q q'" using c q inv by (simp add: clip_ok_def evt_inv_def)
      show ?thesis
      proof (cases "\<exists>x \<in> set (root_recs root). same q (fst x)")
        case True
        then show ?thesis using fin [OF ok(1) cok] False r recs by (simp add: evt_insert_ptr_def rect1 clip_recs_def)
      next
        case new: False
        let ?ent = "(q', \<lparr>pr_ptr = ptr, pr_offset = 0, pr_inum = evt_rect_width q'\<rparr>)"
        have i: "root_ok (evt_insert_entry root2 ?ent) \<and> mset (root_recs (evt_insert_entry root2 ?ent)) = add_mset ?ent (mset (root_recs root2))"
          by (rule insert_entry_ok) (use ok some in simp)
        moreover have "mset (clip_recs (root_recs root) q q' ptr) = add_mset ?ent (mset (root_recs root2))"
          using new recs by (simp add: clip_recs_def)
        ultimately show ?thesis using fin [OF _ cok, of "evt_insert_entry root2 ?ent"] False r new
          by (simp add: evt_insert_ptr_def rect1)
      qed
    qed (simp add: evt_insert_ptr_def False rect1)
  qed
qed

end
