(* ===== verification/Evt_Iter.thy ===== *)
theory Evt_Iter
  imports Evt_Sem
begin

text \<open>
  Iterating over an extent version tree visits all extents, in the order of the leaves.
\<close>

section \<open>The successor in a list\<close>

fun next_key :: "'a list \<Rightarrow> 'a \<Rightarrow> 'a option" where
  "next_key (a # b # xs) p = (if a = p then Some b else next_key (b # xs) p)"
| "next_key xs p = None"

lemma next_key_append_in:
  "p \<in> set xs \<Longrightarrow> distinct (xs @ ys) \<Longrightarrow>
   next_key (xs @ ys) p = (case next_key xs p of Some v \<Rightarrow> Some v | None \<Rightarrow> if ys = [] then None else Some (hd ys))"
  by (induction xs p rule: next_key.induct) (cases ys; auto split: option.splits)+

lemma next_key_append_out: "p \<notin> set xs \<Longrightarrow> next_key (xs @ ys) p = next_key ys p"
  by (induction xs p rule: next_key.induct) (cases ys; auto)+

lemma next_key_map: "inj f \<Longrightarrow> next_key (map f xs) (f p) = map_option f (next_key xs p)"
  by (induction xs p rule: next_key.induct) (auto dest: injD)

lemma next_key_nth: "distinct xs \<Longrightarrow> i < length xs \<Longrightarrow> next_key xs (xs ! i) = (if Suc i < length xs then Some (xs ! Suc i) else None)"
proof (induction xs "xs ! i" arbitrary: i rule: next_key.induct)
  case (1 a b xs)
  show ?case
  proof (cases i)
    case (Suc j)
    then have "(b # xs) ! j \<noteq> a" using 1 by (metis Suc_less_eq distinct.simps(2) length_Cons nth_mem)
    then show ?thesis using 1 Suc by (auto split: if_splits)
  qed simp
qed auto

section \<open>Moving the trace\<close>

abbreviation keys :: "evt_node \<Rightarrow> nat list list" where
  "keys nd \<equiv> map fst (paths nd)"

lemma keys_children: "map fst (paths_children k ((r, c) # cs)) = map ((#) k) (keys c) @ map fst (paths_children (Suc k) cs)"
  by simp

lemma paths_nonempty: "evt_ok order n nd \<Longrightarrow> paths nd \<noteq> []"
proof (induction nd arbitrary: n rule: recs_of.induct)
  case (1 mbr recs)
  then show ?case by (cases recs) auto
next
  case (2 mbr cs)
  then obtain r c cs' where "cs = (r, c) # cs'" by (cases cs) auto
  then show ?case using 2 by fastforce
qed

lemma first_path_hd: "evt_ok order n nd \<Longrightarrow> first_path nd = hd (keys nd)"
proof (induction nd arbitrary: n rule: recs_of.induct)
  case (1 mbr recs)
  then show ?case by (cases recs) auto
next
  case (2 mbr cs)
  then obtain r c cs' where cs: "cs = (r, c) # cs'" by (cases cs) auto
  then have "evt_ok order (n - 1) c" using 2(2) by auto
  then show ?case using 2(1) [of "(r, c)" "n - 1"] cs paths_nonempty by (auto simp: hd_map hd_append)
qed

lemma next_key_children:
  assumes "\<forall>x \<in> set cs. evt_ok order n (snd x)" "i < length cs" "is \<in> set (keys (snd (cs ! i)))"
  shows "next_key (map fst (paths_children k cs)) ((k + i) # is) =
    (case next_key (keys (snd (cs ! i))) is of
       Some p \<Rightarrow> Some ((k + i) # p)
     | None \<Rightarrow> if Suc i < length cs then Some ((k + Suc i) # first_path (snd (cs ! Suc i))) else None)"
  using assms
proof (induction cs arbitrary: i k)
  case (Cons a cs)
  obtain r c where a: "a = (r, c)" by fastforce
  have d: "distinct (map ((#) k) (keys c) @ map fst (paths_children (Suc k) cs))"
    using paths_distinct(2) [of k "a # cs"] by (simp only: a keys_children)
  show ?case
  proof (cases i)
    case 0
    have "hd (map fst (paths_children (Suc k) cs)) = Suc k # first_path (snd (hd cs))" if ne: "cs \<noteq> []"
    proof -
      obtain r' c' cs' where "cs = (r', c') # cs'" using ne by (cases cs) auto
      moreover have "evt_ok order n c'" using Cons.prems(1) calculation by simp
      ultimately show ?thesis using first_path_hd paths_nonempty by (auto simp: hd_append hd_map)
    qed
    moreover have "paths_children (Suc k) cs = [] \<longleftrightarrow> cs = []"
      using Cons.prems(1) paths_nonempty by (cases cs) auto
    moreover have "next_key (map ((#) k) (keys c)) (k # is) = map_option ((#) k) (next_key (keys c) is)"
      by (rule next_key_map) (simp add: inj_def)
    moreover have "k # is \<in> set (map ((#) k) (keys c))" using Cons.prems(3) 0 a by auto
    note next_key_append_in [OF this d]
    ultimately show ?thesis using 0 by (cases cs) (auto simp: a keys_children simp del: paths_children.simps map_map split: option.splits)
  next
    case (Suc j)
    have "next_key (map fst (paths_children k (a # cs))) ((k + i) # is) = next_key (map fst (paths_children (Suc k) cs)) ((Suc k + j) # is)"
      unfolding a keys_children using Suc by (subst next_key_append_out) auto
    then show ?thesis using Cons.IH [of j "Suc k"] Cons.prems Suc by (simp del: paths_children.simps split: option.split)
  qed
qed simp

lemma leaf_keys: "keys (EvtLeaf mbr recs) = map (\<lambda>i. [i]) [0..<length recs]"
  by (rule nth_equalityI) (auto simp: nth_enumerate_eq)

lemma children_keys: "p \<in> set (map fst (paths_children k cs)) \<Longrightarrow> \<exists>i is. i < length cs \<and> p = (k + i) # is \<and> is \<in> set (keys (snd (cs ! i)))"
proof (induction cs arbitrary: k)
  case (Cons a cs)
  obtain r c where a: "a = (r, c)" by fastforce
  from Cons.prems consider "is" where "p = k # is" "is \<in> set (keys c)" | "p \<in> set (map fst (paths_children (Suc k) cs))"
    unfolding a keys_children by auto
  then show ?case
  proof cases
    case 1
    then show ?thesis using a by (intro exI [of _ 0]) auto
  next
    case 2
    then obtain i "is" where "i < length cs" "p = (Suc k + i) # is" "is \<in> set (keys (snd (cs ! i)))" using Cons.IH by blast
    then show ?thesis by (intro exI [of _ "Suc i"]) auto
  qed
qed simp

lemma move_trace_next:
  "evt_ok order n nd \<Longrightarrow> p \<in> set (keys nd) \<Longrightarrow> evt_move_trace True p nd = next_key (keys nd) p"
proof (induction nd arbitrary: n p rule: recs_of.induct)
  case (1 mbr recs)
  then obtain i where i: "i < length recs" "p = [i]" unfolding leaf_keys by auto
  have "next_key (map (\<lambda>i. [i]) [0..<length recs]) [i] = map_option (\<lambda>i. [i]) (next_key [0..<length recs] i)"
    by (rule next_key_map) (simp add: inj_def)
  moreover have "next_key [0..<length recs] i = (if Suc i < length recs then Some (Suc i) else None)"
    using next_key_nth [of "[0..<length recs]" i] i by (auto split: if_splits)
  ultimately show ?case unfolding leaf_keys using i by auto
next
  case (2 mbr cs)
  from 2(3) obtain i "is" where i: "i < length cs" "p = i # is" "is \<in> set (keys (snd (cs ! i)))"
    using children_keys [of p 0 cs] by auto
  have ok: "\<forall>x \<in> set cs. evt_ok order (n - 1) (snd x)" using 2(2) by auto
  then have "evt_move_trace True is (snd (cs ! i)) = next_key (keys (snd (cs ! i))) is"
    using 2(1) [of "cs ! i" "n - 1" "is"] i by simp
  moreover have "i = length cs - 1 \<longleftrightarrow> \<not> Suc i < length cs" using i(1) by auto
  ultimately show ?case using next_key_children [OF ok i(1,3), of 0] i by (auto split: option.splits)
qed

section \<open>A whole iteration\<close>

text \<open>
  Fetching and moving on until there is no next extent, at most \<open>n\<close> times: the extents and the error at the
  end, \<open>None\<close> where an assertion fails or there are more.
\<close>

fun evt_iterate :: "nat \<Rightarrow> evt_iterator \<Rightarrow> (evt_rect list \<times> der) option" where
  "evt_iterate 0 iter = None"
| "evt_iterate (Suc n) iter =
     (case evt_iter_fetch iter of
        Some (Inr (ent, anchor)) \<Rightarrow>
          (case evt_iter_next iter of
             (None, iter') \<Rightarrow> map_option (\<lambda>(rs, e). (en_rect ent # rs, e)) (evt_iterate n iter')
           | (Some e, iter') \<Rightarrow> Some ([en_rect ent], e))
      | _ \<Rightarrow> None)"

lemma fill_whole: "ptr_asserts (pr_ptr pref) \<Longrightarrow> \<exists>ent. evt_fill_entry None r pref p = Some ent \<and> en_rect ent = r"
  by (simp add: evt_fill_entry_def evt_rect_width_def Let_def)

lemma iter_step:
  assumes "evt_inv root" "tr_node root = Some nd" "i < length (paths nd)" "iter = \<lparr>it_root = root, it_state = EVT_ITER_READY, it_trace = keys nd ! i\<rparr>"
  shows "\<exists>ent anchor. evt_iter_fetch iter = Some (Inr (ent, anchor)) \<and> en_rect ent = fst (recs_of nd ! i)"
    and "evt_iter_next iter = (if Suc i < length (paths nd) then (None, iter\<lparr>it_trace := keys nd ! Suc i\<rparr>)
      else (Some DER_NONEXIST, iter\<lparr>it_state := EVT_ITER_FINI\<rparr>))"
proof -
  have ok: "evt_ok (tr_order root) (tr_depth root) nd" using assms(1,2) by (simp add: evt_inv_def root_ok_def)
  have len: "i < length (keys nd)" using assms(3) by simp
  have "evt_move_trace True (keys nd ! i) nd = (if Suc i < length (paths nd) then Some (keys nd ! Suc i) else None)"
    using move_trace_next [OF ok nth_mem [OF len]] next_key_nth [OF paths_distinct(1) len] by simp
  then show "evt_iter_next iter = (if Suc i < length (paths nd) then (None, iter\<lparr>it_trace := keys nd ! Suc i\<rparr>)
      else (Some DER_NONEXIST, iter\<lparr>it_state := EVT_ITER_FINI\<rparr>))"
    using assms(2,4) by (simp add: evt_iter_next_def evt_iter_move_def evt_iter_is_ready_def)
  obtain r pref where x: "snd (paths nd ! i) = (r, pref)" by fastforce
  have rec: "recs_of nd ! i = (r, pref)" using x assms(3) map_snd_paths(1) [of nd] by (metis nth_map)
  have "evt_rec_at (keys nd ! i) nd = Some (r, pref)"
    using paths_distinct(1) assms(3) x by (simp add: rec_at_map_of map_of_eq_Some_iff) (metis nth_mem prod.collapse)
  moreover have "rec_ok (r, pref)"
    using assms(1-3) rec map_snd_paths(1) [of nd] by (auto simp: evt_inv_def recs_inv_def root_recs_def) (metis length_map nth_mem)
  ultimately show "\<exists>ent anchor. evt_iter_fetch iter = Some (Inr (ent, anchor)) \<and> en_rect ent = fst (recs_of nd ! i)"
    using assms(2,4) rec fill_whole [of pref r "keys nd ! i"] by (auto simp: evt_iter_fetch_def evt_iter_is_ready_def rec_ok_def)
qed

lemma iterate_from:
  assumes "evt_inv root" "tr_node root = Some nd"
  shows "i < length (paths nd) \<Longrightarrow> length (paths nd) \<le> n + i \<Longrightarrow>
    evt_iterate n \<lparr>it_root = root, it_state = EVT_ITER_READY, it_trace = keys nd ! i\<rparr> =
      Some (map fst (drop i (recs_of nd)), DER_NONEXIST)"
proof (induction n arbitrary: i)
  case (Suc n)
  have len: "length (recs_of nd) = length (paths nd)" using map_snd_paths(1) [of nd] by (metis length_map)
  have "drop i (recs_of nd) = recs_of nd ! i # drop (Suc i) (recs_of nd)" using Suc.prems(1) len by (simp add: Cons_nth_drop_Suc)
  then show ?case using iter_step [OF assms Suc.prems(1) refl] Suc.IH [of "Suc i"] Suc.prems len
    by (cases "Suc i < length (paths nd)") auto
qed simp

lemma probe_first:
  assumes "evt_inv root" "tr_node root = Some nd" "it_root iter = root" "it_state iter \<noteq> EVT_ITER_NONE"
  shows "evt_iter_probe iter EVT_ITER_FIRST None = Some (None, \<lparr>it_root = root, it_state = EVT_ITER_READY, it_trace = keys nd ! 0\<rparr>)"
proof -
  let ?q = "\<lparr>rc_off_lo = 0, rc_off_hi = - 1, rc_epc_lo = 0, rc_epc_hi = EPOCH_MAX\<rparr>"
  have ok: "evt_ok (tr_order root) (tr_depth root) nd" "root_ok root" using assms(1,2) by (simp_all add: evt_inv_def root_ok_def)
  obtain p r pref xs where xs: "paths nd = (p, r, pref) # xs" using paths_nonempty [OF ok(1)] by (metis list.exhaust prod.exhaust)
  have "rec_ok (r, pref)" using assms(1,2) xs map_snd_paths(1) [of nd]
    by (auto simp: evt_inv_def recs_inv_def root_recs_def) (metis list.set_intros(1))
  moreover have "meets r ?q" by (simp add: meets_def EPOCH_MAX_def)
  ultimately have "scan EVT_FIND_FIRST (paths nd) ?q evt_ent_list_init = FindStop ?q (evt_ent_list_alloc evt_ent_list_init (found_entry ?q (p, r, pref))) p"
    by (simp add: xs find_rec_def fill_entry rec_ok_def)
  then show ?thesis using assms find_ent_list_scan [OF ok(2)] xs
    by (cases iter) (simp add: evt_iter_probe_def root_paths_def)
qed

end
