(* ===== verification/Evt_Props.thy ===== *)
theory Evt_Props
  imports Evt_Visible Evt_Iter
begin

text \<open>
  What the extent version tree promises: reads return the latest write, iteration visits every extent; and
  the inputs for which a read or a list of entries goes wrong.
\<close>

section \<open>Runs of insertions\<close>

text \<open>
  Insertions one after the other, from the tree that \<^const>\<open>evt_create\<close> makes: the tree and the writes that
  were accepted; \<open>None\<close> where an assertion fails.
\<close>

fun evt_run :: "evt_root \<Rightarrow> (evt_rect \<times> evt_ptr) list \<Rightarrow> (evt_root \<times> (evt_rect \<times> evt_ptr) list) option" where
  "evt_run root [] = Some (root, [])"
| "evt_run root ((rect, ptr) # reqs) =
     (case evt_insert_ptr root rect ptr of
        None \<Rightarrow> None
      | Some (Inl e) \<Rightarrow> evt_run root reqs
      | Some (Inr root') \<Rightarrow> map_option (\<lambda>(r, log). (r, (rect, ptr) # log)) (evt_run root' reqs))"

text \<open>
  The write to be seen at an offset and an epoch: of those to the offset, up to the epoch, one with the
  highest epoch, and of these the last one.
\<close>

definition writes_to :: "(evt_rect \<times> evt_ptr) list \<Rightarrow> u64 \<Rightarrow> u64 \<Rightarrow> (evt_rect \<times> evt_ptr) list" where
  "writes_to log off e =
     filter (\<lambda>(q, ptr). rc_off_lo q \<le> off \<and> off \<le> rc_off_hi q \<and> rc_epc_lo q \<le> e) log"

definition later :: "evt_rect \<times> evt_ptr \<Rightarrow> evt_rect \<times> evt_ptr \<Rightarrow> evt_rect \<times> evt_ptr" where
  "later x y = (if rc_epc_lo (fst y) \<le> rc_epc_lo (fst x) then x else y)"

definition latest_write :: "(evt_rect \<times> evt_ptr) list \<Rightarrow> u64 \<Rightarrow> u64 \<Rightarrow> (evt_rect \<times> evt_ptr) option" where
  "latest_write log off e = (case writes_to log off e of [] \<Rightarrow> None | w # ws \<Rightarrow> Some (fold later ws w))"

definition write_value :: "evt_rect \<times> evt_ptr \<Rightarrow> u64 \<Rightarrow> u64 \<times> evt_ptr \<times> u64" where
  "write_value x off = (rc_epc_lo (fst x), snd x, off - rc_off_lo (fst x))"

lemma latest_write_snoc:
  "map_option (\<lambda>x. write_value x off) (latest_write (log @ [(q, ptr)]) off e) =
     write_visible (\<lambda>off e. map_option (\<lambda>x. write_value x off) (latest_write log off e)) q ptr off e"
  by (auto simp: latest_write_def writes_to_def write_visible_def write_value_def later_def split: list.splits)

lemma run_visible:
  assumes "evt_inv root" "\<forall>x \<in> set reqs. write_ok (fst x) (snd x)"
    and "root_visible root = (\<lambda>off e. map_option (\<lambda>x. write_value x off) (latest_write log0 off e))"
  shows "\<exists>root' log. evt_run root reqs = Some (root', log) \<and> evt_inv root' \<and>
    root_visible root' = (\<lambda>off e. map_option (\<lambda>x. write_value x off) (latest_write (log0 @ log) off e))"
  using assms
proof (induction reqs arbitrary: root log0)
  case (Cons a reqs)
  obtain q ptr where a: "a = (q, ptr)" by fastforce
  have w: "write_ok q ptr" using Cons.prems(2) a by simp
  from insert_ptr_ok [OF Cons.prems(1) w] show ?case
  proof (elim disjE exE conjE)
    fix root'
    assume r: "evt_insert_ptr root q ptr = Some (Inr root')" "evt_inv root'"
      and v: "root_visible root' = write_visible (root_visible root) q ptr"
    have "root_visible root' = (\<lambda>off e. map_option (\<lambda>x. write_value x off) (latest_write (log0 @ [(q, ptr)]) off e))"
      unfolding v Cons.prems(3) by (intro ext) (simp only: latest_write_snoc)
    from Cons.IH [OF r(2) _ this] Cons.prems(2) show ?thesis using r(1) a by auto
  qed (use Cons a in auto)
qed auto

lemma created_inv:
  assumes "evt_create feats order = Inr root"
  shows "evt_inv root" "root_visible root = (\<lambda>off e. map_option (\<lambda>x. write_value x off) (latest_write [] off e))"
  using assms by (auto simp: evt_create_def evt_inv_def root_ok_def recs_inv_def root_recs_def root_visible_def visible_def
      latest_write_def writes_to_def fun_eq_iff split: if_splits)

section \<open>Reading\<close>








section \<open>Properties\<close>

text \<open>A tree with three writes to the offsets 0 to 9, and their data.\<close>

definition ptr0 :: "u8 \<Rightarrow> evt_ptr" where
  "ptr0 b = set_payload (evt_ptr_create [] 0 None 1 1) [b]"

definition rect0 :: "u64 \<Rightarrow> u64 \<Rightarrow> u64 \<Rightarrow> evt_rect" where
  "rect0 lo hi e = \<lparr>rc_off_lo = lo, rc_off_hi = hi, rc_epc_lo = e, rc_epc_hi = 0\<rparr>"

definition reqs_evt :: "(evt_rect \<times> evt_ptr) list" where
  "reqs_evt = [(rect0 2 5 3, ptr0 1), (rect0 0 9 7, ptr0 2), (rect0 3 4 5, ptr0 3)]"

definition root_new :: evt_root where
  "root_new = \<lparr>tr_node = None, tr_depth = 0, tr_order = 4, tr_feats = 1\<rparr>"

definition root_evt :: evt_root where
  "root_evt = fst (the (evt_run root_new reqs_evt))"

lemma create_new: "evt_create 1 4 = Inr root_new"
  by code_simp

lemma root_evt_inv: "evt_inv root_evt"
proof -
  have "\<forall>x \<in> set reqs_evt. write_ok (fst x) (snd x)" by code_simp
  from run_visible [OF created_inv(1) [OF create_new] this created_inv(2) [OF create_new]] show ?thesis
    by (auto simp: root_evt_def)
qed



text \<open>
  C4. An insertion succeeds whenever each extent that it meets is hidden by it or hides it as a whole, or
  has the same epoch and offsets. It keeps the invariant of the tree, and then its data are visible at its
  offsets, from its epoch on, wherever no write of a higher epoch is; all else stays as it was.
\<close>

theorem evt_insert_accepts:
  assumes "evt_inv root" "write_ok rect ptr"
    and "\<forall>x \<in> set (root_recs root). compatible (rect\<lparr>rc_epc_hi := EPOCH_MAX\<rparr>) (fst x)"
  shows "\<exists>root'. evt_insert_ptr root rect ptr = Some (Inr root') \<and> evt_inv root' \<and>
    root_visible root' = write_visible (root_visible root) rect ptr"
proof -
  have q: "(if rc_epc_hi rect = 0 then rect\<lparr>rc_epc_hi := EPOCH_MAX\<rparr> else rect) = rect\<lparr>rc_epc_hi := EPOCH_MAX\<rparr>"
    "rect_ok (rect\<lparr>rc_epc_hi := EPOCH_MAX\<rparr>)" using assms(2) by (auto simp: write_ok_def)
  have "evt_insert_ptr root rect ptr \<noteq> Some (Inl DER_NO_PERM)"
  proof (cases "tr_depth root = 0")
    case True
    then show ?thesis by (simp add: evt_insert_ptr_def q evt_clip_entry_def evt_find_ent_list_def evt_root_activate_def evt_ent_list_init_def Let_def)
  next
    case False
    then show ?thesis using clip_entry_compatible [OF assms(1) q(2) assms(3), of ptr]
      by (auto simp: evt_insert_ptr_def q split: option.splits sum.splits)
  qed
  then show ?thesis using insert_ptr_ok [OF assms(1,2)] by blast
qed

theorem evt_insert_accepts_witness:
  "\<exists>root'. evt_insert_ptr root_evt (rect0 0 9 8) (ptr0 4) = Some (Inr root') \<and> evt_inv root' \<and>
    root_visible root' = write_visible (root_visible root_evt) (rect0 0 9 8) (ptr0 4)"
proof (rule evt_insert_accepts [OF root_evt_inv])
  show "write_ok (rect0 0 9 8) (ptr0 4)" by code_simp
  show "\<forall>x \<in> set (root_recs root_evt). compatible ((rect0 0 9 8)\<lparr>rc_epc_hi := EPOCH_MAX\<rparr>) (fst x)" by code_simp
qed

text \<open>
  C5. Iterating over a tree from the first extent visits every extent just once, in the order of the
  leaves, and then ends with -DER_NONEXIST; no assertion fails.
\<close>

theorem evt_iterate_all:
  assumes "evt_inv root" "tr_node root \<noteq> None" "evt_iter_prepare root = Inr iter" "length (root_recs root) \<le> n"
  shows "\<exists>iter'. evt_iter_probe iter EVT_ITER_FIRST None = Some (None, iter') \<and>
    evt_iterate n iter' = Some (map fst (root_recs root), DER_NONEXIST)"
proof -
  obtain nd where nd: "tr_node root = Some nd" using assms(2) by auto
  have iter: "it_root iter = root" "it_state iter \<noteq> EVT_ITER_NONE"
    using assms(3) by (auto simp: evt_iter_prepare_def split: if_splits)
  have len: "length (recs_of nd) = length (paths nd)" using map_snd_paths(1) [of nd] by (metis length_map)
  have "0 < length (paths nd)" using paths_nonempty assms(1) nd by (auto simp: evt_inv_def root_ok_def)
  then show ?thesis
    using probe_first [OF assms(1) nd iter] iterate_from [OF assms(1) nd, of 0 n] assms(4) len nd by (simp add: root_recs_def)
qed

theorem evt_iterate_all_witness:
  "\<exists>iter'. evt_iter_probe \<lparr>it_root = root_evt, it_state = EVT_ITER_INIT, it_trace = []\<rparr> EVT_ITER_FIRST None = Some (None, iter') \<and>
    evt_iterate 5 iter' = Some (map fst (root_recs root_evt), DER_NONEXIST)"
proof (rule evt_iterate_all [OF root_evt_inv])
  show "tr_node root_evt \<noteq> None" by code_simp
  show "evt_iter_prepare root_evt = Inr \<lparr>it_root = root_evt, it_state = EVT_ITER_INIT, it_trace = []\<rparr>"
    by (simp add: evt_iter_prepare_def) code_simp
  show "length (root_recs root_evt) \<le> 5" by code_simp
qed


lemma alloc_nr: "el_ent_nr el \<le> ERT_ENT_EMBEDDED \<Longrightarrow>
    el_ent_nr (fold (\<lambda>ent el. evt_ent_list_alloc el ent) ents el) \<le> ERT_ENT_EMBEDDED"
  by (induction ents arbitrary: el) (auto simp: evt_ent_list_alloc_def)

text \<open>
  The memory of the entries beyond the eight that are embedded in a list is never freed: the counter
  of entries stops at eight, so that finalising a list frees none, however many entries were added.
\<close>

theorem evt_ent_list_leak:
  "snd (evt_ent_list_fini (fold (\<lambda>ent el. evt_ent_list_alloc el ent) ents evt_ent_list_init)) = []"
  using alloc_nr [of evt_ent_list_init ents]
  by (subst evt_ent_list_fini_def) (simp add: fini_loop.simps evt_ent_list_init_def)

end
