(* ===== verification/Tse.thy ===== *)
theory Tse
  imports Prelude "HOL-Library.Monad_Syntax"
begin

text \<open>
  The task scheduler engine (\<^verbatim>\<open>src/common/tse.c\<close>, \<^verbatim>\<open>src/common/tse_internal.h\<close>): tasks with dependencies,
  callbacks and reference counts, and the scheduler that runs them. Definitions only.

  A task is named by its address. The state is the scheduler with the memory of its tasks: a task that
  is freed is gone. Every operation is a function from state to state; its result is \<open>None\<close> where an
  assertion fails or freed memory is accessed, or where a loop does not end. Task functions and
  callbacks are code of the caller: they are parameters, and as they may call the scheduler they are
  functions on its state; \<open>user\<close> is memory of the caller that they may write. A callback is named by the
  address of the record that was registered. The operations run one at a time; the lock that makes them
  so is left out, counters are integers and allocation succeeds. A task is scheduled once.
\<close>

unbundle bit_operations_syntax

type_synonym tid = nat

record tse_task =
  dt_result :: int
  dtp_refcnt :: int
  dtp_func :: "nat option"
  dtp_dep_list :: "tid list"
  dtp_prep_cb_list :: "nat list"
  dtp_comp_cb_list :: "nat list"
  dtp_ret_list :: "tid list"
  dtp_complete :: bool
  dtp_running :: bool
  dtp_dep_cnt :: int
  dtp_sched :: nat

record tse_sched =
  ds_result :: int
  ds_udata :: "nat option"
  ds_tasks :: "tid \<Rightarrow> tse_task option"
  dsp_init_list :: "tid list"
  dsp_running_list :: "tid list"
  dsp_complete_list :: "tid list"
  dsp_comp_cb_list :: "nat list"
  dsp_refcount :: int
  dsp_inflight :: int
  dsp_cancelling :: bool
  dsp_completing :: bool
  user :: "nat list"

text \<open>
  The functions of the caller: task functions, callbacks of tasks, which get the task, and callbacks
  of the scheduler, which get its result. A callback returns an error code.
\<close>

type_synonym task_cbs = "nat \<Rightarrow> tid \<Rightarrow> tse_sched \<Rightarrow> (int \<times> tse_sched) option"

record tse_env =
  te_func :: "nat \<Rightarrow> tid \<Rightarrow> tse_sched \<Rightarrow> tse_sched option"
  te_cb :: task_cbs
  te_sched_cb :: "nat \<Rightarrow> int \<Rightarrow> tse_sched \<Rightarrow> (int \<times> tse_sched) option"

definition upd_task :: "tse_sched \<Rightarrow> tid \<Rightarrow> (tse_task \<Rightarrow> tse_task) \<Rightarrow> tse_sched option" where
  "upd_task s t f =
     (case ds_tasks s t of None \<Rightarrow> None | Some k \<Rightarrow> Some (s\<lparr>ds_tasks := (ds_tasks s)(t \<mapsto> f k)\<rparr>))"

section \<open>Reference counts\<close>

definition tse_task_addref_locked :: "tse_sched \<Rightarrow> tid \<Rightarrow> tse_sched option" where
  "tse_task_addref_locked s t = upd_task s t (\<lambda>k. k\<lparr>dtp_refcnt := dtp_refcnt k + 1\<rparr>)"

definition tse_task_decref_locked :: "tse_sched \<Rightarrow> tid \<Rightarrow> (bool \<times> tse_sched) option" where
  "tse_task_decref_locked s t =
     do {
       k \<leftarrow> ds_tasks s t;
       if \<not> dtp_refcnt k > 0 then None
       else do {
         s1 \<leftarrow> upd_task s t (\<lambda>k. k\<lparr>dtp_refcnt := dtp_refcnt k - 1\<rparr>);
         Some (dtp_refcnt k - 1 = 0, s1)
       }
     }"

text \<open>
  \<^verbatim>\<open>tse_task_decref\<close>, which calls itself for the tasks whose results a freed task holds: the references that
  are still to be dropped are a list.
\<close>

partial_function (option) decref_loop :: "tid list \<Rightarrow> tse_sched \<Rightarrow> tse_sched option" where
  "decref_loop ts s =
     (case ts of
        [] \<Rightarrow> Some s
      | t # ts' \<Rightarrow>
          do {
            (zombie, s1) \<leftarrow> tse_task_decref_locked s t;
            if \<not> zombie then decref_loop ts' s1
            else do {
              k \<leftarrow> ds_tasks s1 t;
              if dtp_dep_list k \<noteq> [] then None
              else decref_loop (dtp_ret_list k @ ts') (s1\<lparr>ds_tasks := (ds_tasks s1)(t := None)\<rparr>)
            }
          })"

declare decref_loop.simps [code]

definition tse_task_decref :: "tse_sched \<Rightarrow> tid \<Rightarrow> tse_sched option" where
  "tse_task_decref s t = decref_loop [t] s"

definition tse_sched_fini :: "tse_sched \<Rightarrow> tse_sched option" where
  "tse_sched_fini s =
     (if dsp_inflight s = 0 \<and> dsp_init_list s = [] \<and> dsp_running_list s = [] \<and> dsp_complete_list s = []
      then Some s else None)"

definition tse_sched_addref_locked :: "tse_sched \<Rightarrow> tse_sched" where
  "tse_sched_addref_locked s = s\<lparr>dsp_refcount := dsp_refcount s + 1\<rparr>"

definition tse_sched_decref :: "tse_sched \<Rightarrow> tse_sched option" where
  "tse_sched_decref s =
     (if \<not> dsp_refcount s > 0 then None
      else (let s1 = s\<lparr>dsp_refcount := dsp_refcount s - 1\<rparr> in
            if dsp_refcount s1 = 0 then tse_sched_fini s1 else Some s1))"

section \<open>Callbacks\<close>

definition tse_sched_register_comp_cb :: "tse_sched \<Rightarrow> nat \<Rightarrow> tse_sched" where
  "tse_sched_register_comp_cb s cb = s\<lparr>dsp_comp_cb_list := cb # dsp_comp_cb_list s\<rparr>"

definition tse_sched_init :: "nat option \<Rightarrow> nat option \<Rightarrow> tse_sched" where
  "tse_sched_init comp_cb udata =
     (let s = \<lparr>ds_result = 0, ds_udata = None, ds_tasks = (\<lambda>t. None), dsp_init_list = [], dsp_running_list = [],
               dsp_complete_list = [], dsp_comp_cb_list = [], dsp_refcount = 1, dsp_inflight = 0,
               dsp_cancelling = False, dsp_completing = False, user = []\<rparr>;
          s1 = (case comp_cb of Some cb \<Rightarrow> tse_sched_register_comp_cb s cb | None \<Rightarrow> s)
      in s1\<lparr>ds_udata := udata, ds_result := 0\<rparr>)"

text \<open>
  A loop over a list that saves the next entry before it handles one. An entry that is gone when its
  turn comes has been freed.
\<close>

definition list_next :: "nat list \<Rightarrow> nat \<Rightarrow> nat option" where
  "list_next xs x = (case dropWhile (\<lambda>y. y \<noteq> x) xs of _ # y # _ \<Rightarrow> Some y | _ \<Rightarrow> None)"

definition list_first :: "nat list \<Rightarrow> nat option" where
  "list_first xs = (case xs of [] \<Rightarrow> None | x # _ \<Rightarrow> Some x)"

partial_function (option) sched_cbs :: "tse_env \<Rightarrow> nat option \<Rightarrow> tse_sched \<Rightarrow> tse_sched option" where
  "sched_cbs env cur s =
     (case cur of
        None \<Rightarrow> Some s
      | Some cb \<Rightarrow>
          if cb \<notin> set (dsp_comp_cb_list s) then None
          else do {
            (rc, s1) \<leftarrow> te_sched_cb env cb (ds_result s)
                        (s\<lparr>dsp_comp_cb_list := remove1 cb (dsp_comp_cb_list s)\<rparr>);
            sched_cbs env (list_next (dsp_comp_cb_list s) cb) (if ds_result s1 = 0 then s1\<lparr>ds_result := rc\<rparr> else s1)
          })"

declare sched_cbs.simps [code]

definition tse_sched_complete_cb :: "tse_env \<Rightarrow> tse_sched \<Rightarrow> tse_sched option" where
  "tse_sched_complete_cb env s = sched_cbs env (list_first (dsp_comp_cb_list s)) s"

text \<open>Marking a task complete. A list link is in one list at a time; here it leaves the running list.\<close>

definition tse_task_complete_locked :: "tse_sched \<Rightarrow> tid \<Rightarrow> tse_sched option" where
  "tse_task_complete_locked s t =
     do {
       k \<leftarrow> ds_tasks s t;
       if dtp_complete k then Some s
       else if \<not> dtp_running k then None
       else do {
         s1 \<leftarrow> upd_task s t (\<lambda>k. k\<lparr>dtp_running := False, dtp_complete := True\<rparr>);
         Some (s1\<lparr>dsp_running_list := remove1 t (dsp_running_list s1), dsp_complete_list := dsp_complete_list s1 @ [t]\<rparr>)
       }
     }"

definition register_cb :: "tse_sched \<Rightarrow> tid \<Rightarrow> bool \<Rightarrow> bool \<Rightarrow> nat \<Rightarrow> (der option \<times> tse_sched) option" where
  "register_cb s t is_comp on_top cb =
     do {
       k \<leftarrow> ds_tasks s t;
       if dtp_complete k then Some (Some DER_NO_PERM, s)
       else if \<not> is_comp \<and> on_top then None
       else do {
         s1 \<leftarrow> upd_task s t (\<lambda>k.
           if is_comp
           then k\<lparr>dtp_comp_cb_list := (if on_top then cb # dtp_comp_cb_list k else dtp_comp_cb_list k @ [cb])\<rparr>
           else k\<lparr>dtp_prep_cb_list := dtp_prep_cb_list k @ [cb]\<rparr>);
         Some (None, s1)
       }
     }"

text \<open>The result of \<^verbatim>\<open>register_cb\<close> is not used.\<close>

definition tse_task_register_comp_cb :: "tse_sched \<Rightarrow> tid \<Rightarrow> nat option \<Rightarrow> tse_sched option" where
  "tse_task_register_comp_cb s t comp_cb =
     (case comp_cb of None \<Rightarrow> Some s | Some cb \<Rightarrow> map_option snd (register_cb s t True True cb))"

definition tse_task_register_cbs :: "tse_sched \<Rightarrow> tid \<Rightarrow> nat option \<Rightarrow> nat option \<Rightarrow> tse_sched option" where
  "tse_task_register_cbs s t prep_cb comp_cb =
     do {
       s1 \<leftarrow> (case prep_cb of None \<Rightarrow> Some s | Some cb \<Rightarrow> map_option snd (register_cb s t False False cb));
       case comp_cb of None \<Rightarrow> Some s1 | Some cb \<Rightarrow> map_option snd (register_cb s1 t True True cb)
     }"

text \<open>
  The callbacks of a task are taken off their list as they are called. The result is false if a
  callback has reinitialised the task.
\<close>

definition set_result :: "tse_sched \<Rightarrow> tid \<Rightarrow> int \<Rightarrow> tse_sched option" where
  "set_result s t rc = upd_task s t (\<lambda>k. if dt_result k = 0 then k\<lparr>dt_result := rc\<rparr> else k)"

partial_function (option) prep_cbs :: "task_cbs \<Rightarrow> tid \<Rightarrow> nat option \<Rightarrow> tse_sched \<Rightarrow> (bool \<times> tse_sched) option" where
  "prep_cbs cbs t cur s =
     (case cur of
        None \<Rightarrow> Some (True, s)
      | Some cb \<Rightarrow>
          do {
            k \<leftarrow> ds_tasks s t;
            if cb \<notin> set (dtp_prep_cb_list k) then None
            else do {
              s1 \<leftarrow> upd_task s t (\<lambda>k. k\<lparr>dtp_prep_cb_list := remove1 cb (dtp_prep_cb_list k)\<rparr>);
              s3 \<leftarrow> (if dtp_complete k then Some s1
                    else do { (rc, s2) \<leftarrow> cbs cb t s1; set_result s2 t rc });
              k3 \<leftarrow> ds_tasks s3 t;
              if \<not> dtp_running k3 \<and> \<not> dtp_complete k3 then Some (False, s3)
              else prep_cbs cbs t (list_next (dtp_prep_cb_list k) cb) s3
            }
          })"

declare prep_cbs.simps [code]

definition tse_task_prep_callback :: "task_cbs \<Rightarrow> tse_sched \<Rightarrow> tid \<Rightarrow> (bool \<times> tse_sched) option" where
  "tse_task_prep_callback cbs s t = do { k \<leftarrow> ds_tasks s t; prep_cbs cbs t (list_first (dtp_prep_cb_list k)) s }"

partial_function (option) comp_cbs :: "task_cbs \<Rightarrow> tid \<Rightarrow> nat option \<Rightarrow> tse_sched \<Rightarrow> (bool \<times> tse_sched) option" where
  "comp_cbs cbs t cur s =
     (case cur of
        None \<Rightarrow> Some (True, s)
      | Some cb \<Rightarrow>
          do {
            k \<leftarrow> ds_tasks s t;
            if cb \<notin> set (dtp_comp_cb_list k) then None
            else do {
              s1 \<leftarrow> upd_task s t (\<lambda>k. k\<lparr>dtp_comp_cb_list := remove1 cb (dtp_comp_cb_list k)\<rparr>);
              (ret, s2) \<leftarrow> cbs cb t s1;
              s3 \<leftarrow> set_result s2 t ret;
              k3 \<leftarrow> ds_tasks s3 t;
              if \<not> dtp_running k3 \<and> \<not> dtp_complete k3 then Some (False, s3)
              else comp_cbs cbs t (list_next (dtp_comp_cb_list k) cb) s3
            }
          })"

declare comp_cbs.simps [code]

definition tse_task_complete_callback :: "task_cbs \<Rightarrow> tse_sched \<Rightarrow> tid \<Rightarrow> (bool \<times> tse_sched) option" where
  "tse_task_complete_callback cbs s t = do { k \<leftarrow> ds_tasks s t; comp_cbs cbs t (list_first (dtp_comp_cb_list k)) s }"

text \<open>The tasks whose results a task holds, each passed to a callback.\<close>

fun result_loop :: "task_cbs \<Rightarrow> nat \<Rightarrow> tid list \<Rightarrow> tse_sched \<Rightarrow> tse_sched option" where
  "result_loop cbs callback [] s = Some s"
| "result_loop cbs callback (r # rs) s = do { (rc, s1) \<leftarrow> cbs callback r s; result_loop cbs callback rs s1 }"

definition tse_task_result_process :: "task_cbs \<Rightarrow> tse_sched \<Rightarrow> tid \<Rightarrow> nat \<Rightarrow> tse_sched option" where
  "tse_task_result_process cbs s t callback = do { k \<leftarrow> ds_tasks s t; result_loop cbs callback (dtp_ret_list k) s }"

section \<open>Running tasks\<close>

text \<open>
  The tasks taken off the list of new tasks; the result is how many were processed. They are handled
  until the list is empty, which a task that is complete never leaves.
\<close>

fun init_loop :: "tse_env \<Rightarrow> tid list \<Rightarrow> nat \<Rightarrow> tse_sched \<Rightarrow> (nat \<times> tse_sched) option" where
  "init_loop env [] processed s = Some (processed, s)"
| "init_loop env (t # ts) processed s =
     (if dsp_cancelling s
      then do {
        k \<leftarrow> ds_tasks s t;
        if dtp_complete k then None
        else do { s1 \<leftarrow> tse_task_complete_locked s t; init_loop env ts (processed + 1) s1 }
      }
      else do {
        s1 \<leftarrow> upd_task s t (\<lambda>k. k\<lparr>dtp_running := True\<rparr>);
        s2 \<leftarrow> tse_task_addref_locked (s1\<lparr>dsp_running_list := dsp_running_list s1 @ [t]\<rparr>) t;
        (ok, s3) \<leftarrow> tse_task_prep_callback (te_cb env) s2 t;
        if \<not> ok then do { s4 \<leftarrow> tse_task_decref s3 t; init_loop env ts processed s4 }
        else do {
          k \<leftarrow> ds_tasks s3 t;
          s4 \<leftarrow> (case dtp_func k of
                  None \<Rightarrow> None
                | Some f \<Rightarrow> if dtp_complete k then Some s3 else te_func env f t s3);
          s5 \<leftarrow> tse_task_decref s4 t;
          init_loop env ts (processed + 1) s5
        }
      })"

definition tse_sched_process_init :: "tse_env \<Rightarrow> tse_sched \<Rightarrow> (nat \<times> tse_sched) option" where
  "tse_sched_process_init env s =
     (if \<exists>t \<in> set (dsp_init_list s). ds_tasks s t = None then None
      else (let pick = (\<lambda>t. dtp_dep_cnt (the (ds_tasks s t)) = 0 \<or> dsp_cancelling s);
                ts = filter pick (dsp_init_list s)
            in init_loop env ts 0
                 (s\<lparr>dsp_init_list := filter (\<lambda>t. \<not> pick t) (dsp_init_list s),
                    dsp_inflight := dsp_inflight s + int (length ts)\<rparr>)))"

text \<open>
  The tasks that depend on a completed task \<open>t\<close>: each one loses a dependency. If that was its last one and
  its function has run already, it is completed.
\<close>

definition dep_done :: "task_cbs \<Rightarrow> tse_sched \<Rightarrow> tid \<Rightarrow> (bool \<times> tse_sched) option" where
  "dep_done cbs s d =
     do {
       k \<leftarrow> ds_tasks s d;
       if dtp_dep_cnt k = 0 \<and> \<not> dsp_cancelling s \<and> dtp_running k
       then do {
         (done', s1) \<leftarrow> tse_task_complete_callback cbs s d;
         if \<not> done' then Some (False, s1) else do { s2 \<leftarrow> tse_task_complete_locked s1 d; Some (True, s2) }
       }
       else Some (True, s)
     }"

partial_function (option) post_loop :: "task_cbs \<Rightarrow> tid \<Rightarrow> tse_sched \<Rightarrow> tse_sched option" where
  "post_loop cbs t s =
     do {
       k \<leftarrow> ds_tasks s t;
       case dtp_dep_list k of
         [] \<Rightarrow> Some s
       | d # ds \<Rightarrow>
           do {
             s1 \<leftarrow> upd_task s t (\<lambda>k. k\<lparr>dtp_dep_list := ds\<rparr>);
             kd \<leftarrow> ds_tasks s1 d;
             if \<not> dtp_dep_cnt kd > 0 then None
             else do {
               s2 \<leftarrow> upd_task s1 d (\<lambda>k. k\<lparr>dtp_dep_cnt := dtp_dep_cnt k - 1\<rparr>);
               (done', s3) \<leftarrow> dep_done cbs s2 d;
               s5 \<leftarrow> (if done' \<and> \<not> dsp_cancelling s3
                     then do {
                       s4 \<leftarrow> tse_task_addref_locked s3 t;
                       upd_task s4 d (\<lambda>k. k\<lparr>dtp_ret_list := dtp_ret_list k @ [t]\<rparr>)
                     }
                     else Some s3);
               (z, s6) \<leftarrow> tse_task_decref_locked s5 d;
               post_loop cbs t s6
             }
           }
     }"

declare post_loop.simps [code]

definition tse_task_post_process :: "task_cbs \<Rightarrow> tse_sched \<Rightarrow> tid \<Rightarrow> tse_sched option" where
  "tse_task_post_process cbs s t =
     do {
       k \<leftarrow> ds_tasks s t;
       if \<not> dtp_complete k then None
       else do {
         s1 \<leftarrow> post_loop cbs t (if ds_result s = 0 then s\<lparr>ds_result := dt_result k\<rparr> else s);
         if \<not> dsp_inflight s1 > 0 then None else Some (s1\<lparr>dsp_inflight := dsp_inflight s1 - 1\<rparr>)
       }
     }"

fun complete_loop :: "task_cbs \<Rightarrow> tid list \<Rightarrow> tse_sched \<Rightarrow> tse_sched option" where
  "complete_loop cbs [] s = Some s"
| "complete_loop cbs (t # ts) s =
     do {
       s1 \<leftarrow> tse_task_post_process cbs s t;
       s2 \<leftarrow> tse_task_decref s1 t;
       complete_loop cbs ts s2
     }"

definition tse_sched_process_complete :: "task_cbs \<Rightarrow> tse_sched \<Rightarrow> (nat \<times> tse_sched) option" where
  "tse_sched_process_complete cbs s =
     (let comp_list = dsp_complete_list s
      in map_option (\<lambda>s1. (length comp_list, s1)) (complete_loop cbs comp_list (s\<lparr>dsp_complete_list := []\<rparr>)))"

definition tse_sched_check_complete :: "tse_sched \<Rightarrow> bool" where
  "tse_sched_check_complete s \<longleftrightarrow> dsp_init_list s = [] \<and> dsp_inflight s = 0"

partial_function (option) run_loop :: "tse_env \<Rightarrow> tse_sched \<Rightarrow> tse_sched option" where
  "run_loop env s =
     do {
       (n1, s1) \<leftarrow> tse_sched_process_init env s;
       (n2, s2) \<leftarrow> tse_sched_process_complete (te_cb env) s1;
       if tse_sched_check_complete s2 \<or> n1 + n2 = 0 then Some s2 else run_loop env s2
     }"

declare run_loop.simps [code]

definition tse_sched_run :: "tse_env \<Rightarrow> tse_sched \<Rightarrow> tse_sched option" where
  "tse_sched_run env s = do { s1 \<leftarrow> run_loop env s; tse_sched_decref s1 }"

definition tse_sched_progress :: "tse_env \<Rightarrow> tse_sched \<Rightarrow> tse_sched option" where
  "tse_sched_progress env s =
     (if dsp_cancelling s then Some s else tse_sched_run env (tse_sched_addref_locked s))"

section \<open>Completing the scheduler\<close>

fun inflight_loop :: "tid list \<Rightarrow> tse_sched \<Rightarrow> tse_sched option" where
  "inflight_loop [] s = Some s"
| "inflight_loop (t # ts) s =
     do {
       k \<leftarrow> ds_tasks s t;
       s1 \<leftarrow> (if dtp_dep_cnt k = 0
             then tse_task_complete_locked (s\<lparr>dsp_running_list := remove1 t (dsp_running_list s)\<rparr>) t
             else Some s);
       inflight_loop ts s1
     }"

definition tse_sched_complete_inflight :: "tse_sched \<Rightarrow> tse_sched option" where
  "tse_sched_complete_inflight s = inflight_loop (dsp_running_list s) s"

partial_function (option) wait_loop :: "tse_env \<Rightarrow> tse_sched \<Rightarrow> tse_sched option" where
  "wait_loop env s =
     do {
       s1 \<leftarrow> tse_sched_run env s;
       if dsp_inflight s1 = 0 then Some s1
       else do {
         s2 \<leftarrow> (if dsp_cancelling s1 then tse_sched_complete_inflight s1 else Some s1);
         wait_loop env s2
       }
     }"

declare wait_loop.simps [code]

definition tse_sched_complete :: "tse_env \<Rightarrow> tse_sched \<Rightarrow> int \<Rightarrow> bool \<Rightarrow> tse_sched option" where
  "tse_sched_complete env s ret cancel =
     (let s1 = (if ds_result s = 0 then s\<lparr>ds_result := ret\<rparr> else s) in
      if dsp_cancelling s1 \<or> dsp_completing s1 then Some s1
      else (let s2 = (if cancel then s1\<lparr>dsp_cancelling := True\<rparr> else s1\<lparr>dsp_completing := True\<rparr>)
            in do {
              s3 \<leftarrow> wait_loop env (tse_sched_addref_locked s2);
              s4 \<leftarrow> tse_sched_complete_cb env s3;
              tse_sched_decref (s4\<lparr>ds_udata := None\<rparr>)
            }))"

section \<open>Operations on tasks\<close>

definition tse_task_complete :: "task_cbs \<Rightarrow> tse_sched \<Rightarrow> tid \<Rightarrow> int \<Rightarrow> tse_sched option" where
  "tse_task_complete cbs s t ret =
     do {
       k \<leftarrow> ds_tasks s t;
       if \<not> dtp_running k \<or> dtp_complete k then Some s
       else do {
         s1 \<leftarrow> set_result s t ret;
         (done', s2) \<leftarrow> tse_task_complete_callback cbs s1 t;
         s3 \<leftarrow> (if \<not> dsp_cancelling s2
               then (let s' = tse_sched_addref_locked s2
                     in if done' then tse_task_complete_locked s' t else Some s')
               else map_option snd (tse_task_decref_locked s2 t));
         s4 \<leftarrow> (if \<not> dsp_cancelling s3 then map_option snd (tse_sched_process_complete cbs s3) else Some s3);
         if done' then tse_sched_decref s4 else Some s4
       }
     }"

definition tse_task_add_dependent :: "tse_sched \<Rightarrow> tid \<Rightarrow> tid \<Rightarrow> (der option \<times> tse_sched) option" where
  "tse_task_add_dependent s t dep =
     do {
       k \<leftarrow> ds_tasks s t;
       kd \<leftarrow> ds_tasks s dep;
       if dtp_sched k \<noteq> dtp_sched kd then Some (Some DER_NO_PERM, s)
       else if dtp_complete k then Some (Some DER_NO_PERM, s)
       else if dtp_complete kd then Some (None, s)
       else do {
         s1 \<leftarrow> tse_task_addref_locked s t;
         s2 \<leftarrow> upd_task s1 dep (\<lambda>k. k\<lparr>dtp_dep_list := dtp_dep_list k @ [t]\<rparr>);
         s3 \<leftarrow> upd_task s2 t (\<lambda>k. k\<lparr>dtp_dep_cnt := dtp_dep_cnt k + 1\<rparr>);
         Some (None, s3)
       }
     }"

fun tse_task_register_deps :: "tse_sched \<Rightarrow> tid \<Rightarrow> tid list \<Rightarrow> tse_sched option" where
  "tse_task_register_deps s t [] = Some s"
| "tse_task_register_deps s t (dep # deps) =
     do { (rc, s1) \<leftarrow> tse_task_add_dependent s t dep; tse_task_register_deps s1 t deps }"

text \<open>The space for arguments in a task. Sizes are positive.\<close>

definition tse_task_buf_size :: "u32 \<Rightarrow> u32" where
  "tse_task_buf_size sz = (sz + 7) AND NOT 7"

definition tse_task_buf_get :: "u32 \<Rightarrow> unit option" where
  "tse_task_buf_get sz = (if tse_task_buf_size sz < 200 then Some () else None)"

text \<open>A new task at an address that is free; \<open>arg\<close> is the size of the arguments, if there are any.\<close>

definition tse_task_init :: "tse_sched \<Rightarrow> nat \<Rightarrow> nat option \<Rightarrow> u32 option \<Rightarrow> tid \<Rightarrow> tse_sched option" where
  "tse_task_init s sched func arg t =
     do {
       _ \<leftarrow> (case arg of None \<Rightarrow> Some () | Some sz \<Rightarrow> tse_task_buf_get sz);
       Some (s\<lparr>ds_tasks := (ds_tasks s)(t \<mapsto>
         \<lparr>dt_result = 0, dtp_refcnt = 1, dtp_func = func, dtp_dep_list = [], dtp_prep_cb_list = [],
          dtp_comp_cb_list = [], dtp_ret_list = [], dtp_complete = False, dtp_running = False, dtp_dep_cnt = 0,
          dtp_sched = sched\<rparr>)\<rparr>)
     }"

text \<open>The result is an error, or the result of the task if it has run and is complete.\<close>

definition tse_task_schedule :: "tse_env \<Rightarrow> tse_sched \<Rightarrow> tid \<Rightarrow> bool \<Rightarrow> (int res \<times> tse_sched) option" where
  "tse_task_schedule env s t ready =
     do {
       k \<leftarrow> ds_tasks s t;
       if ready \<and> dtp_func k = None then Some (Inl DER_INVAL, s)
       else do {
         s1 \<leftarrow> (if dtp_func k = None \<or> ready
               then do {
                 s' \<leftarrow> upd_task (s\<lparr>dsp_inflight := dsp_inflight s + 1\<rparr>) t (\<lambda>k. k\<lparr>dtp_running := True\<rparr>);
                 let s'' = s'\<lparr>dsp_running_list := dsp_running_list s' @ [t]\<rparr>;
                 if ready then tse_task_addref_locked s'' t else Some s''
               }
               else Some (s\<lparr>dsp_init_list := dsp_init_list s @ [t]\<rparr>));
         let s2 = tse_sched_addref_locked s1;
         if \<not> ready then Some (Inr 0, s2)
         else do {
           s3 \<leftarrow> te_func env (the (dtp_func k)) t s2;
           k3 \<leftarrow> ds_tasks s3 t;
           s4 \<leftarrow> tse_task_decref s3 t;
           Some (Inr (if dtp_complete k3 then dt_result k3 else 0), s4)
         }
       }
     }"

definition tse_task_reinit :: "tse_sched \<Rightarrow> tid \<Rightarrow> (der option \<times> tse_sched) option" where
  "tse_task_reinit s t =
     do {
       k \<leftarrow> ds_tasks s t;
       if dsp_cancelling s then Some (Some DER_NO_PERM, s)
       else if dtp_complete k then Some (Some DER_NO_PERM, s)
       else if \<not> dtp_running k then Some (Some DER_NO_PERM, s)
       else if dtp_func k = None then Some (Some DER_INVAL, s)
       else do {
         s1 \<leftarrow> upd_task s t (\<lambda>k. k\<lparr>dtp_running := False, dtp_complete := False\<rparr>);
         Some (None, s1\<lparr>dsp_inflight := dsp_inflight s1 - 1, dsp_running_list := remove1 t (dsp_running_list s1),
           dsp_init_list := dsp_init_list s1 @ [t]\<rparr>)
       }
     }"

end
