(* ===== verification/Tse_Ref.thy ===== *)
theory Tse_Ref
  imports Tse
begin

text \<open>
  Reference counting of tasks. A reference to a task is held by the tasks that keep its result, or from
  outside. Dropping references frees exactly the tasks that nothing refers to any more, and it ends.
\<close>

type_synonym tasks = "tid \<Rightarrow> tse_task option"

definition held :: "tasks \<Rightarrow> tid \<Rightarrow> nat" where
  "held M t = (\<Sum>u\<in>dom M. count_list (dtp_ret_list (the (M u))) t)"

definition refs_ok :: "tasks \<Rightarrow> tid list \<Rightarrow> (tid \<Rightarrow> nat) \<Rightarrow> bool" where
  "refs_ok M W E \<longleftrightarrow>
     finite (dom M) \<and>
     (\<forall>t k. M t = Some k \<longrightarrow>
        dtp_refcnt k = int (E t + count_list W t + held M t) \<and> dtp_refcnt k > 0 \<and> (dtp_dep_list k \<noteq> [] \<longrightarrow> E t > 0)) \<and>
     (\<forall>t. E t + count_list W t + held M t > 0 \<longrightarrow> t \<in> dom M)"

text \<open>The tasks that are left, with other reference counts.\<close>

definition shrunk :: "tasks \<Rightarrow> tasks \<Rightarrow> bool" where
  "shrunk M M' \<longleftrightarrow> (\<forall>t k'. M' t = Some k' \<longrightarrow> (\<exists>k r. M t = Some k \<and> k' = k\<lparr>dtp_refcnt := r\<rparr>))"

lemma same_refcnt: "\<exists>r. k = k\<lparr>dtp_refcnt := r\<rparr>"
  by (rule exI[of _ "dtp_refcnt k"]) simp

lemma shrunk_refl [simp]: "shrunk M M"
  using same_refcnt by (auto simp: shrunk_def)

lemma shrunk_trans: "\<lbrakk>shrunk M M'; shrunk M' M''\<rbrakk> \<Longrightarrow> shrunk M M''"
  unfolding shrunk_def by fastforce

lemma upd_task_some [simp]: "ds_tasks s t = Some k \<Longrightarrow> upd_task s t f = Some (s\<lparr>ds_tasks := (ds_tasks s)(t \<mapsto> f k)\<rparr>)"
  by (simp add: upd_task_def)

lemma held_split: "\<lbrakk>M t = Some k; finite (dom M)\<rbrakk> \<Longrightarrow>
    held M u = count_list (dtp_ret_list k) u + (\<Sum>v\<in>dom M - {t}. count_list (dtp_ret_list (the (M v))) u)"
  unfolding held_def by (subst sum.remove[of _ t]) auto

lemma held_delete:
  assumes "M t = Some k" "finite (dom M)"
  shows "held (M(t := None)) u + count_list (dtp_ret_list k) u = held M u"
proof -
  have "held (M(t := None)) u = (\<Sum>v\<in>dom M - {t}. count_list (dtp_ret_list (the (M v))) u)"
    unfolding held_def by (rule sum.cong) auto
  then show ?thesis using held_split[OF assms, of u] by simp
qed

lemma held_update:
  assumes "M t = Some k" "finite (dom M)"
  shows "held (M(t \<mapsto> k')) u + count_list (dtp_ret_list k) u = held M u + count_list (dtp_ret_list k') u"
  using held_delete[OF assms, of u] held_delete[of "M(t \<mapsto> k')" t k' u] assms(2) by simp

lemma held_same:
  assumes "M t = Some k" "finite (dom M)" "dtp_ret_list k' = dtp_ret_list k"
  shows "held (M(t \<mapsto> k')) u = held M u"
  using held_update[OF assms(1,2), of k' u] assms(3) by simp

lemma refs_ok_live: "\<lbrakk>refs_ok M W E; E t + count_list W t + held M t > 0\<rbrakk> \<Longrightarrow> t \<in> dom M"
  unfolding refs_ok_def by (elim conjE) (erule allE, erule (1) mp)

lemma refs_ok_task:
  assumes "refs_ok M W E" "M t = Some k"
  shows "dtp_refcnt k = int (E t + count_list W t + held M t)" "dtp_refcnt k > 0" "dtp_dep_list k \<noteq> [] \<Longrightarrow> E t > 0"
  using assms unfolding refs_ok_def by blast+

lemma refs_ok_finite: "refs_ok M W E \<Longrightarrow> finite (dom M)"
  by (simp add: refs_ok_def)

lemma refs_ok_drop:
  assumes "refs_ok M (t # W) E" "M t = Some k" "dtp_refcnt k > 1"
  shows "refs_ok (M(t \<mapsto> k\<lparr>dtp_refcnt := dtp_refcnt k - 1\<rparr>)) W E"
proof -
  have fin: "finite (dom M)"
    using assms(1) by (simp add: refs_ok_def)
  have h: "held (M(t \<mapsto> k\<lparr>dtp_refcnt := dtp_refcnt k - 1\<rparr>)) u = held M u" for u
    by (rule held_same[OF assms(2) fin]) simp
  show ?thesis
    using assms unfolding refs_ok_def h by (auto split: if_splits)
qed

lemma refs_ok_free:
  assumes "refs_ok M (t # W) E" "M t = Some k" "dtp_refcnt k = 1"
  shows "refs_ok (M(t := None)) (dtp_ret_list k @ W) E" "dtp_dep_list k = []"
proof -
  have fin: "finite (dom M)"
    using assms(1) by (simp add: refs_ok_def)
  have z: "E t = 0" "count_list W t = 0" "held M t = 0"
    using assms by (auto simp: refs_ok_def)
  note h = held_delete[OF assms(2) fin]
  have r: "count_list (dtp_ret_list k) t = 0" "held (M(t := None)) t = 0"
    using h[of t] z by auto
  have c: "E u + count_list (dtp_ret_list k @ W) u + held (M(t := None)) u = E u + count_list (t # W) u + held M u"
    if "u \<noteq> t" for u
    using h[of u] that by simp
  show "refs_ok (M(t := None)) (dtp_ret_list k @ W) E"
    unfolding refs_ok_def
  proof (intro conjI allI impI, goal_cases)
    case 1
    then show ?case using fin by simp
  next
    case (2 u ku)
    then have "u \<noteq> t" "M u = Some ku" by (auto split: if_splits)
    then show ?case using assms(1) c[of u] unfolding refs_ok_def by simp
  next
    case (3 u ku)
    then show ?case using assms(1) by (auto simp: refs_ok_def split: if_splits)
  next
    case (4 u ku)
    then show ?case using assms(1) by (auto simp: refs_ok_def split: if_splits)
  next
    case (5 u)
    then have "u \<noteq> t" using z r by auto
    then have "E u + count_list (t # W) u + held M u > 0" using 5 c[of u] by linarith
    then have "u \<in> dom M" by (rule refs_ok_live[OF assms(1)])
    then show ?case using \<open>u \<noteq> t\<close> by auto
  qed
  show "dtp_dep_list k = []"
    using refs_ok_task(3)[OF assms(1,2)] z(1) by auto
qed

theorem decref_loop_ok:
  assumes "refs_ok (ds_tasks s) W E"
  shows "\<exists>M. decref_loop W s = Some (s\<lparr>ds_tasks := M\<rparr>) \<and> refs_ok M [] E \<and> shrunk (ds_tasks s) M"
  using assms
proof (induction "(card (dom (ds_tasks s)), length W)" arbitrary: W s
    rule: wf_induct_rule[OF wf_lex_prod[OF wf_less_than wf_less_than]])
  case (1 W s)
  show ?case
  proof (cases W)
    case Nil
    have "s\<lparr>ds_tasks := ds_tasks s\<rparr> = s" by simp
    then show ?thesis using 1(2) Nil by (intro exI[of _ "ds_tasks s"]) (simp add: decref_loop.simps)
  next
    case (Cons t W')
    let ?M = "ds_tasks s"
    have ok: "refs_ok ?M (t # W') E" using 1(2) Cons by simp
    then have fin: "finite (dom ?M)" by (simp add: refs_ok_def)
    have "t \<in> dom ?M" using ok unfolding refs_ok_def by (metis add_gr_0 count_list.simps(2) zero_less_one)
    then obtain k where k: "?M t = Some k" by auto
    then have pos: "dtp_refcnt k > 0" using ok by (auto simp: refs_ok_def)
    show ?thesis
    proof (cases "dtp_refcnt k = 1")
      case True
      let ?s = "s\<lparr>ds_tasks := ?M(t := None)\<rparr>"
      note f = refs_ok_free[OF ok k True]
      have "card (dom (ds_tasks ?s)) < card (dom ?M)"
        using fin k by (auto intro!: psubset_card_mono)
      then obtain M where M: "decref_loop (dtp_ret_list k @ W') ?s = Some (?s\<lparr>ds_tasks := M\<rparr>)" "refs_ok M [] E"
        "shrunk (ds_tasks ?s) M"
        using 1(1)[of "?s" "dtp_ret_list k @ W'"] f(1) by auto
      have "shrunk ?M (ds_tasks ?s)"
        using same_refcnt by (auto simp: shrunk_def split: if_splits)
      then have "shrunk ?M M" using M(3) shrunk_trans by blast
      then show ?thesis
        using Cons k pos True M(1,2) f(2) by (auto simp: decref_loop.simps[of "t # W'"] tse_task_decref_locked_def)
    next
      case False
      let ?s = "s\<lparr>ds_tasks := ?M(t \<mapsto> k\<lparr>dtp_refcnt := dtp_refcnt k - 1\<rparr>)\<rparr>"
      have f: "refs_ok (ds_tasks ?s) W' E" using refs_ok_drop[OF ok k] False pos by simp
      have "dom (ds_tasks ?s) = dom ?M" using k by auto
      then obtain M where M: "decref_loop W' ?s = Some (?s\<lparr>ds_tasks := M\<rparr>)" "refs_ok M [] E" "shrunk (ds_tasks ?s) M"
        using 1(1)[of "?s" W'] f Cons by auto
      have "shrunk ?M (ds_tasks ?s)"
        using same_refcnt k by (auto simp: shrunk_def split: if_splits)
      then have "shrunk ?M M" using M(3) shrunk_trans by blast
      then show ?thesis
        using Cons k pos False M(1,2) by (auto simp: decref_loop.simps[of "t # W'"] tse_task_decref_locked_def)
    qed
  qed
qed

end
