(* ===== verification/Tse_Run.thy ===== *)
theory Tse_Run
  imports Tse_Ref
begin

text \<open>
  One task whose function completes it at once, from the list of new tasks to its release. The tasks
  that depend on it each lose a dependency and keep its result.
\<close>

section \<open>The tasks that depend on a completed task\<close>

definition settled :: "tid \<Rightarrow> tid list \<Rightarrow> tasks \<Rightarrow> tasks" where
  "settled t ds M = (\<lambda>u. map_option (\<lambda>k.
     if u = t then k\<lparr>dtp_dep_list := [], dtp_refcnt := dtp_refcnt k + int (length ds)\<rparr>
     else k\<lparr>dtp_ret_list := dtp_ret_list k @ replicate (count_list ds u) t,
            dtp_refcnt := dtp_refcnt k - int (count_list ds u), dtp_dep_cnt := dtp_dep_cnt k - int (count_list ds u)\<rparr>) (M u))"

lemma settled_Nil: "\<lbrakk>M t = Some k; dtp_dep_list k = []\<rbrakk> \<Longrightarrow> settled t [] M = M"
  by (rule ext, rename_tac u, case_tac "M u") (auto simp: settled_def)

lemma settled_Cons:
  assumes "M t = Some k" "M d = Some kd" "d \<noteq> t"
  shows "settled t ds (M(t \<mapsto> k\<lparr>dtp_dep_list := ds, dtp_refcnt := dtp_refcnt k + 1\<rparr>,
      d \<mapsto> kd\<lparr>dtp_dep_cnt := dtp_dep_cnt kd - 1, dtp_ret_list := dtp_ret_list kd @ [t], dtp_refcnt := dtp_refcnt kd - 1\<rparr>))
    = settled t (d # ds) M"
  using assms by (intro ext, cases k, cases kd) (auto simp: settled_def)

lemma post_loop_settled:
  assumes "ds_tasks s t = Some k" "dtp_dep_list k = ds" "\<not> dsp_cancelling s"
    and "\<And>d. d \<in> set ds \<Longrightarrow> d \<noteq> t \<and> (\<exists>kd. ds_tasks s d = Some kd \<and> \<not> dtp_running kd \<and>
        dtp_dep_cnt kd \<ge> int (count_list ds d) \<and> dtp_refcnt kd \<ge> int (count_list ds d))"
  shows "post_loop env t s = Some (s\<lparr>ds_tasks := settled t ds (ds_tasks s)\<rparr>)"
  using assms
proof (induction ds arbitrary: s k)
  case Nil
  then show ?case by (simp add: post_loop.simps settled_Nil)
next
  case (Cons d ds)
  let ?M = "ds_tasks s"
  obtain kd where kd: "d \<noteq> t" "?M d = Some kd" "\<not> dtp_running kd" "dtp_dep_cnt kd \<ge> int (count_list (d # ds) d)"
    "dtp_refcnt kd \<ge> int (count_list (d # ds) d)"
    using Cons.prems(4)[of d] by auto
  define M' where "M' = ?M(t \<mapsto> k\<lparr>dtp_dep_list := ds, dtp_refcnt := dtp_refcnt k + 1\<rparr>,
      d \<mapsto> kd\<lparr>dtp_dep_cnt := dtp_dep_cnt kd - 1, dtp_ret_list := dtp_ret_list kd @ [t], dtp_refcnt := dtp_refcnt kd - 1\<rparr>)"
  have upd: "f(d \<mapsto> x, t \<mapsto> y, d \<mapsto> z) = f(t \<mapsto> y, d \<mapsto> z)" "f(t \<mapsto> x, d \<mapsto> w, t \<mapsto> y, d \<mapsto> z) = f(t \<mapsto> y, d \<mapsto> z)"
    for f :: tasks and x y z w
    using kd(1) by (auto simp: fun_upd_twist)
  have "post_loop env t s = post_loop env t (s\<lparr>ds_tasks := M'\<rparr>)"
    using Cons.prems(1-3) kd
    by (subst post_loop.simps)
      (simp add: dep_done_def tse_task_addref_locked_def tse_task_decref_locked_def M'_def upd fun_upd_twist)
  also have "\<dots> = Some ((s\<lparr>ds_tasks := M'\<rparr>)\<lparr>ds_tasks := settled t ds (ds_tasks (s\<lparr>ds_tasks := M'\<rparr>))\<rparr>)"
  proof (rule Cons.IH)
    show "ds_tasks (s\<lparr>ds_tasks := M'\<rparr>) t = Some (k\<lparr>dtp_dep_list := ds, dtp_refcnt := dtp_refcnt k + 1\<rparr>)"
      using kd(1) by (simp add: M'_def)
    show "\<not> dsp_cancelling (s\<lparr>ds_tasks := M'\<rparr>)"
      using Cons.prems(3) by simp
    fix e
    assume e: "e \<in> set ds"
    show "e \<noteq> t \<and> (\<exists>kd. ds_tasks (s\<lparr>ds_tasks := M'\<rparr>) e = Some kd \<and> \<not> dtp_running kd \<and>
        int (count_list ds e) \<le> dtp_dep_cnt kd \<and> int (count_list ds e) \<le> dtp_refcnt kd)"
      using Cons.prems(4)[of e] e kd by (cases "e = d") (auto simp: M'_def)
  qed simp
  finally show ?case
    using settled_Cons[of ?M t k d kd ds] Cons.prems(1) kd(1,2) by (simp add: M'_def)
qed

section \<open>A task that completes itself\<close>

definition self_completing :: "tse_env \<Rightarrow> (tid \<Rightarrow> int) \<Rightarrow> bool" where
  "self_completing env res \<longleftrightarrow>
     (\<forall>f t s. te_func env f t s = tse_task_complete (te_cb env) (s\<lparr>user := user s @ [t]\<rparr>) t (res t))"

lemma decref_alive:
  assumes "ds_tasks s t = Some k" "dtp_refcnt k > 1"
  shows "tse_task_decref s t = Some (s\<lparr>ds_tasks := (ds_tasks s)(t \<mapsto> k\<lparr>dtp_refcnt := dtp_refcnt k - 1\<rparr>)\<rparr>)"
  using assms
  by (simp add: tse_task_decref_def decref_loop.simps[of "[t]"] decref_loop.simps[of "[]"] tse_task_decref_locked_def)

definition finished :: "tse_task \<Rightarrow> int \<Rightarrow> tse_task" where
  "finished k rc = k\<lparr>dt_result := rc, dtp_running := False, dtp_complete := True\<rparr>"

definition fresh :: "tse_task \<Rightarrow> bool" where
  "fresh k \<longleftrightarrow> dt_result k = 0 \<and> dtp_func k \<noteq> None \<and> dtp_prep_cb_list k = [] \<and> dtp_comp_cb_list k = [] \<and>
     \<not> dtp_complete k \<and> \<not> dtp_running k"

lemma task_complete_settles:
  assumes "ds_tasks s t = Some k" "fresh (k\<lparr>dtp_running := False\<rparr>)" "dtp_running k" "dtp_refcnt k > 1"
    and "dsp_complete_list s = []" "dsp_running_list s = [t]" "\<not> dsp_cancelling s" "dsp_inflight s > 0" "dsp_refcount s > 0"
    and "\<And>d. d \<in> set (dtp_dep_list k) \<Longrightarrow> d \<noteq> t \<and> (\<exists>kd. ds_tasks s d = Some kd \<and> \<not> dtp_running kd \<and>
        dtp_dep_cnt kd \<ge> int (count_list (dtp_dep_list k) d) \<and> dtp_refcnt kd \<ge> int (count_list (dtp_dep_list k) d))"
  shows "tse_task_complete env s t rc =
    Some (s\<lparr>ds_tasks := settled t (dtp_dep_list k) ((ds_tasks s)(t \<mapsto> (finished k rc)\<lparr>dtp_refcnt := dtp_refcnt k - 1\<rparr>)),
      dsp_running_list := [], dsp_inflight := dsp_inflight s - 1, ds_result := (if ds_result s = 0 then rc else ds_result s)\<rparr>)"
proof -
  let ?ds = "dtp_dep_list k"
  let ?M = "(ds_tasks s)(t \<mapsto> finished k rc)"
  let ?s = "s\<lparr>dsp_refcount := dsp_refcount s + 1, ds_tasks := ?M, dsp_running_list := [], dsp_complete_list := []\<rparr>"
  let ?r = "if ds_result s = 0 then rc else ds_result s"
  let ?k = "(finished k rc)\<lparr>dtp_dep_list := [], dtp_refcnt := dtp_refcnt k + int (length ?ds)\<rparr>"
  have post: "post_loop env t (?s\<lparr>ds_result := ?r\<rparr>) = Some (?s\<lparr>ds_result := ?r, ds_tasks := settled t ?ds ?M\<rparr>)"
    using assms(7,10) post_loop_settled[of "?s\<lparr>ds_result := ?r\<rparr>" t "finished k rc" ?ds env]
    by (fastforce simp: finished_def)
  have cb: "tse_task_complete_callback env s' t = Some (True, s')" if "ds_tasks s' t = Some (k\<lparr>dt_result := rc\<rparr>)" for s'
    using assms(2) that by (simp add: tse_task_complete_callback_def list_first_def comp_cbs.simps fresh_def)
  have lock: "tse_task_complete_locked (tse_sched_addref_locked (s\<lparr>ds_tasks := (ds_tasks s)(t \<mapsto> k\<lparr>dt_result := rc\<rparr>)\<rparr>)) t
      = Some (?s\<lparr>dsp_complete_list := [t]\<rparr>)"
    using assms by (simp add: tse_task_complete_locked_def tse_sched_addref_locked_def fresh_def finished_def)
  have t: "settled t ?ds ?M t = Some ?k"
    by (simp add: settled_def finished_def)
  have dec: "tse_task_decref (?s\<lparr>ds_result := ?r, ds_tasks := settled t ?ds ?M, dsp_inflight := dsp_inflight s - 1\<rparr>) t
      = Some (?s\<lparr>ds_result := ?r, ds_tasks := (settled t ?ds ?M)(t \<mapsto> ?k\<lparr>dtp_refcnt := dtp_refcnt ?k - 1\<rparr>),
          dsp_inflight := dsp_inflight s - 1\<rparr>)"
    using decref_alive[of "?s\<lparr>ds_result := ?r, ds_tasks := settled t ?ds ?M, dsp_inflight := dsp_inflight s - 1\<rparr>" t ?k]
      t assms(4) by simp
  have pp: "tse_task_post_process env ?s t
      = Some (?s\<lparr>ds_result := ?r, ds_tasks := settled t ?ds ?M, dsp_inflight := dsp_inflight s - 1\<rparr>)"
    using post assms(8) by (cases "ds_result s = 0") (simp_all add: tse_task_post_process_def finished_def)
  have comp: "tse_sched_process_complete env (?s\<lparr>dsp_complete_list := [t]\<rparr>) = Some (1,
      ?s\<lparr>ds_result := ?r, ds_tasks := (settled t ?ds ?M)(t \<mapsto> ?k\<lparr>dtp_refcnt := dtp_refcnt ?k - 1\<rparr>),
          dsp_inflight := dsp_inflight s - 1\<rparr>)"
    using pp dec by (simp add: tse_sched_process_complete_def split del: if_split)
  have eq: "(settled t ?ds ?M)(t \<mapsto> ?k\<lparr>dtp_refcnt := dtp_refcnt ?k - 1\<rparr>)
      = settled t ?ds ((ds_tasks s)(t \<mapsto> (finished k rc)\<lparr>dtp_refcnt := dtp_refcnt k - 1\<rparr>))"
    by (rule ext) (auto simp: settled_def finished_def)
  show ?thesis
    using assms(1-3,5,7,9) cb[of "s\<lparr>ds_tasks := (ds_tasks s)(t \<mapsto> k\<lparr>dt_result := rc\<rparr>)\<rparr>"] lock comp eq
    unfolding tse_task_complete_def set_result_def
    by (simp add: fresh_def tse_sched_decref_def Let_def split del: if_split)
qed

section \<open>References after a task has completed\<close>

lemma held_settled:
  assumes "finite (dom M)" "set ds \<subseteq> dom M - {t}"
  shows "held (settled t ds M) v = held M v + (if v = t then length ds else 0)"
proof -
  have dom: "dom (settled t ds M) = dom M"
    by (auto simp: settled_def)
  have c: "count_list (replicate n t) w = (if w = t then n else 0)" for n w
    by (induction n) auto
  have "held (settled t ds M) v = (\<Sum>u\<in>dom M. count_list (dtp_ret_list (the (M u))) v + (if v = t then count_list ds u else 0))"
    unfolding held_def dom
  proof (rule sum.cong)
    fix u
    assume "u \<in> dom M"
    moreover have "count_list ds t = 0" using assms(2) by (auto simp: count_list_0_iff)
    ultimately show "count_list (dtp_ret_list (the (settled t ds M u))) v
        = count_list (dtp_ret_list (the (M u))) v + (if v = t then count_list ds u else 0)"
      by (auto simp: settled_def c)
  qed simp
  also have "\<dots> = held M v + (if v = t then length ds else 0)"
    using sum_count_set[of ds "dom M"] assms by (auto simp: sum.distrib held_def)
  finally show ?thesis .
qed

lemma refs_ok_settled:
  assumes ok: "refs_ok M [] E" and t: "M t = Some k" "E t = 1"
    and k': "dtp_ret_list k' = dtp_ret_list k" "dtp_refcnt k' = dtp_refcnt k"
    and ds: "t \<notin> set ds" "\<And>u. u \<in> set ds \<Longrightarrow> E u > count_list ds u"
  shows "refs_ok (settled t ds (M(t \<mapsto> k'))) [t] (\<lambda>u. if u = t then 0 else E u - count_list ds u)"
proof -
  let ?M = "settled t ds (M(t \<mapsto> k'))"
  have fin: "finite (dom M)" by (rule refs_ok_finite[OF ok])
  have sub: "set ds \<subseteq> dom (M(t \<mapsto> k')) - {t}"
  proof
    fix u
    assume u: "u \<in> set ds"
    then have "E u + count_list [] u + held M u > 0" using ds(2)[of u] by simp
    then have "u \<in> dom M" by (rule refs_ok_live[OF ok])
    then show "u \<in> dom (M(t \<mapsto> k')) - {t}" using u ds(1) by auto
  qed
  have h: "held ?M v = held M v + (if v = t then length ds else 0)" for v
    using held_settled[OF _ sub, of v] held_same[OF t(1) fin k'(1), of v] fin by simp
  have z: "count_list ds u = 0" if "u \<notin> set ds" for u
    using that by (simp add: count_list_0_iff)
  have E: "count_list ds u \<le> E u" "E u = 0 \<or> count_list ds u < E u" for u
  proof -
    have "count_list ds u < E u \<or> count_list ds u = 0" by (rule disjE[OF excluded_middle[of "u \<in> set ds"]]) (erule disjI2[OF z], erule disjI1[OF ds(2)])
    then show "count_list ds u \<le> E u" "E u = 0 \<or> count_list ds u < E u" by linarith+
  qed
  show ?thesis
    unfolding refs_ok_def
  proof (intro conjI allI impI, goal_cases)
    case 1
    have "dom ?M = insert t (dom M)" by (auto simp: settled_def split: if_splits)
    then show ?case using fin by simp
  next
    case (2 u ku)
    then show ?case
      using refs_ok_task(1)[OF ok, of u] t k' h[of u] E(1)[of u]
      by (cases "u = t") (auto simp: settled_def of_nat_diff)
  next
    case (3 u ku)
    then show ?case
      using refs_ok_task(1,2)[OF ok, of u] t k' E[of u] by (cases "u = t") (auto simp: settled_def)
  next
    case (4 u ku)
    then show ?case
      using refs_ok_task(3)[OF ok, of u] t E(2)[of u] by (cases "u = t") (auto simp: settled_def)
  next
    case (5 u)
    then have "u = t \<or> E u + held M u > 0" using h[of u] by (auto split: if_splits)
    then show ?case
      using refs_ok_live[OF ok, of u] by (auto simp: settled_def)
  qed
qed

end
