(* ===== verification/Tse_Inv.thy ===== *)
theory Tse_Inv
  imports Tse_Run
begin

text \<open>
  The state of the scheduler between two tasks: the tasks \<open>P\<close> that are still to run, the tasks that have
  run in the order they did, and the references between them. Running a task that has nothing left to
  wait for keeps the invariant.
\<close>

definition undone :: "(tid \<Rightarrow> tid list) \<Rightarrow> tid list \<Rightarrow> tid \<Rightarrow> nat" where
  "undone deps L t = length (filter (\<lambda>d. d \<notin> set L) (deps t))"

lemma filter_snoc: "t \<notin> set L \<Longrightarrow>
    length (filter (\<lambda>d. d \<notin> set (L @ [t])) ds) + count_list ds t = length (filter (\<lambda>d. d \<notin> set L) ds)"
  by (induction ds) auto

lemma undone_snoc: "t \<notin> set L \<Longrightarrow> undone deps (L @ [t]) u + count_list (deps u) t = undone deps L u"
  unfolding undone_def by (rule filter_snoc)

definition pending :: "(tid \<Rightarrow> tid list) \<Rightarrow> tid list \<Rightarrow> tid list \<Rightarrow> tid \<Rightarrow> tse_task \<Rightarrow> bool" where
  "pending deps P L t k \<longleftrightarrow> fresh k \<and> dtp_dep_cnt k = int (undone deps L t) \<and>
     (\<forall>u. count_list (dtp_dep_list k) u = (if u \<in> set P then count_list (deps u) t else 0))"

definition needed :: "(tid \<Rightarrow> tid list) \<Rightarrow> tid list \<Rightarrow> tid list \<Rightarrow> tid \<Rightarrow> nat" where
  "needed deps P L t = (if t \<in> set P then 1 + undone deps L t else 0)"

definition tasks_ok :: "(tid \<Rightarrow> tid list) \<Rightarrow> tid list \<Rightarrow> tid list \<Rightarrow> tasks \<Rightarrow> bool" where
  "tasks_ok deps P L M \<longleftrightarrow>
     (\<forall>t\<in>set P. \<exists>k. M t = Some k \<and> pending deps P L t k) \<and> refs_ok M [] (needed deps P L) \<and>
     dom M \<subseteq> set P \<union> set L \<and> (\<forall>t k. M t = Some k \<longrightarrow> set (dtp_ret_list k) \<subseteq> set (deps t))"

definition in_order :: "(tid \<Rightarrow> tid list) \<Rightarrow> tid list \<Rightarrow> bool" where
  "in_order deps L \<longleftrightarrow> (\<forall>ys t zs. L = ys @ t # zs \<longrightarrow> set (deps t) \<subseteq> set ys)"

definition first_err :: "int list \<Rightarrow> int" where
  "first_err = foldl (\<lambda>a r. if a = 0 then r else a) 0"

definition sched_inv :: "(tid \<Rightarrow> tid list) \<Rightarrow> (tid \<Rightarrow> int) \<Rightarrow> tid list \<Rightarrow> tse_sched \<Rightarrow> bool" where
  "sched_inv deps res P s \<longleftrightarrow>
     distinct P \<and> set P \<inter> set (user s) = {} \<and> tasks_ok deps P (user s) (ds_tasks s) \<and> in_order deps (user s) \<and>
     ds_result s = first_err (map res (user s)) \<and>
     dsp_complete_list s = [] \<and> dsp_running_list s = [] \<and> \<not> dsp_cancelling s \<and> dsp_refcount s > 0"

lemma in_order_snoc: "\<lbrakk>in_order deps L; set (deps t) \<subseteq> set L\<rbrakk> \<Longrightarrow> in_order deps (L @ [t])"
  unfolding in_order_def by (metis append_eq_append_conv2 append_self_conv butlast_append butlast_snoc last_snoc
      list.distinct(1) append_butlast_last_id last_appendR butlast.simps(2))

text \<open>What a completed task leaves behind.\<close>

lemma tasks_ok_settled:
  assumes ok: "tasks_ok deps P L M" and t: "t \<in> set P" "M t = Some k" "set (deps t) \<subseteq> set L" "set P \<inter> set L = {}"
    and P': "set P' = set P - {t}"
    and k': "dtp_ret_list k' = dtp_ret_list k" "dtp_refcnt k' = dtp_refcnt k" "dtp_dep_list k' = dtp_dep_list k"
    and M': "refs_ok M' [] (needed deps P' (L @ [t]))" "shrunk (settled t (dtp_dep_list k) (M(t \<mapsto> k'))) M'"
  shows "tasks_ok deps P' (L @ [t]) M'"
proof -
  let ?ds = "dtp_dep_list k"
  have pend: "pending deps P L t k" using ok t(1,2) by (auto simp: tasks_ok_def)
  then have cnt: "count_list ?ds u = (if u \<in> set P then count_list (deps u) t else 0)" for u by (simp add: pending_def)
  have tL: "t \<notin> set L" using t(1,4) by auto
  have orig: "\<exists>k0 r. M u = Some k0 \<and> ku = (if u = t then k'\<lparr>dtp_dep_list := [], dtp_refcnt := r\<rparr> else
        k0\<lparr>dtp_ret_list := dtp_ret_list k0 @ replicate (count_list ?ds u) t,
           dtp_dep_cnt := dtp_dep_cnt k0 - int (count_list ?ds u), dtp_refcnt := r\<rparr>)"
    if "M' u = Some ku" for u ku
    using M'(2) that t(2) by (cases "u = t") (fastforce simp: shrunk_def settled_def)+
  have pending': "\<exists>ku. M' u = Some ku \<and> pending deps P' (L @ [t]) u ku" if u: "u \<in> set P'" for u
  proof -
    have "needed deps P' (L @ [t]) u + count_list [] u + held M' u > 0" using u by (simp add: needed_def)
    then obtain ku where ku: "M' u = Some ku" using refs_ok_live[OF M'(1)] by (metis domD)
    have un: "u \<noteq> t" "u \<in> set P" using u P' by auto
    then obtain k0 r where k0: "M u = Some k0" "ku = k0\<lparr>dtp_ret_list := dtp_ret_list k0 @ replicate (count_list ?ds u) t,
        dtp_dep_cnt := dtp_dep_cnt k0 - int (count_list ?ds u), dtp_refcnt := r\<rparr>" using orig[OF ku] by auto
    then have "pending deps P L u k0" using ok un(2) by (auto simp: tasks_ok_def)
    moreover have "count_list (deps t) u = 0" using t(3,4) un(2) by (auto simp: count_list_0_iff)
    ultimately show ?thesis
      using ku k0(2) un P' cnt[of u] undone_snoc[OF tL, of deps u] t(1) by (auto simp: pending_def fresh_def)
  qed
  moreover have "dom M' \<subseteq> set P' \<union> set (L @ [t])"
    using orig ok P' by (fastforce simp: tasks_ok_def)
  moreover have "set (dtp_ret_list ku) \<subseteq> set (deps u)" if ku: "M' u = Some ku" for u ku
  proof -
    obtain k0 where k0: "M u = Some k0" "set (dtp_ret_list ku) \<subseteq> set (dtp_ret_list k0) \<union> (if u \<in> set ?ds then {t} else {})"
      using orig[OF ku] k' t(2) by (cases "u = t") (auto simp: count_list_0_iff)
    have "u \<in> set ?ds \<Longrightarrow> t \<in> set (deps u)"
      using cnt[of u] by (metis count_list_0_iff)
    moreover have "set (dtp_ret_list k0) \<subseteq> set (deps u)" using k0(1) ok unfolding tasks_ok_def by blast
    ultimately show ?thesis using k0(2) by (auto split: if_splits)
  qed
  ultimately show ?thesis using M'(1) unfolding tasks_ok_def by blast
qed

lemma refs_ok_pending:
  assumes ok: "tasks_ok deps P L M" and t: "t \<in> set P" "M t = Some k"
  shows "dtp_refcnt k > int (undone deps L t)"
  using refs_ok_task(1)[of M "[]" "needed deps P L" t k] ok t by (auto simp: tasks_ok_def needed_def)

lemma dependents:
  assumes ok: "tasks_ok deps P L M" and t: "t \<in> set P" "set (deps t) \<subseteq> set L" "set P \<inter> set L = {}" "M t = Some k"
    and d: "d \<in> set (dtp_dep_list k)"
  shows "d \<noteq> t \<and> count_list (dtp_dep_list k) d \<le> undone deps L d \<and> d \<in> set P"
proof -
  have cnt: "count_list (dtp_dep_list k) d = (if d \<in> set P then count_list (deps d) t else 0)"
    using ok t by (auto simp: tasks_ok_def pending_def)
  have "count_list (dtp_dep_list k) d \<noteq> 0" using d by (simp add: count_list_0_iff)
  then have "d \<in> set P" "count_list (deps d) t \<noteq> 0" using cnt by (auto split: if_splits)
  then have "d \<in> set P" "t \<in> set (deps d)" unfolding count_list_0_iff by auto
  moreover have "t \<notin> set L" using t(1,3) by auto
  ultimately show ?thesis using cnt undone_snoc[of t L deps d] t(2) by auto
qed

lemma refs_ok_dependents:
  assumes ok: "tasks_ok deps P L M" and t: "t \<in> set P" "set (deps t) \<subseteq> set L" "set P \<inter> set L = {}" "distinct P" "M t = Some k"
    and k': "dtp_ret_list k' = dtp_ret_list k" "dtp_refcnt k' = dtp_refcnt k"
  shows "refs_ok (settled t (dtp_dep_list k) (M(t \<mapsto> k'))) [t] (needed deps (remove1 t P) (L @ [t]))"
proof -
  let ?ds = "dtp_dep_list k"
  note d = dependents[OF ok t(1,2,3,5)]
  have tL: "t \<notin> set L" using t(1,3) by auto
  have cnt: "count_list ?ds u = (if u \<in> set P then count_list (deps u) t else 0)" for u
    using ok t by (auto simp: tasks_ok_def pending_def)
  have "needed deps (remove1 t P) (L @ [t]) = (\<lambda>u. if u = t then 0 else needed deps P L u - count_list ?ds u)"
  proof
    fix u
    show "needed deps (remove1 t P) (L @ [t]) u = (if u = t then 0 else needed deps P L u - count_list ?ds u)"
      using undone_snoc[OF tL, of deps u] cnt[of u] t by (auto simp: needed_def)
  qed
  moreover have "undone deps L t = 0" using t(2) by (auto simp: undone_def filter_empty_conv)
  then have "needed deps P L t = 1" using t(1) by (simp add: needed_def)
  moreover have "needed deps P L u > count_list ?ds u" if "u \<in> set ?ds" for u
    using d[OF that] by (simp add: needed_def)
  moreover have "refs_ok M [] (needed deps P L)" using ok by (simp add: tasks_ok_def)
  ultimately show ?thesis
    using refs_ok_settled[of M "needed deps P L" t k k' ?ds] t(5) k' d by auto
qed

text \<open>A task with nothing left to wait for runs, completes and is released.\<close>

lemma init_loop_step:
  assumes inv: "sched_inv deps res P s" and env: "self_completing env res"
    and t: "t \<in> set P" "set (deps t) \<subseteq> set (user s)" and fl: "dsp_inflight s > 0"
  shows "\<exists>s'. sched_inv deps res (remove1 t P) s' \<and> init_loop env (t # ts) n s = init_loop env ts (n + 1) s' \<and>
    user s' = user s @ [t] \<and> dsp_inflight s' = dsp_inflight s - 1 \<and> dsp_init_list s' = dsp_init_list s \<and>
    dsp_refcount s' = dsp_refcount s"
proof -
  let ?M = "ds_tasks s" and ?L = "user s" and ?P = "remove1 t P"
  have ok: "tasks_ok deps P ?L ?M" and dj: "set P \<inter> set ?L = {}" and dist: "distinct P"
    and idle: "dsp_complete_list s = []" "dsp_running_list s = []" "\<not> dsp_cancelling s" "dsp_refcount s > 0"
    using inv by (auto simp: sched_inv_def)
  obtain k where k: "?M t = Some k" "pending deps P ?L t k"
    using ok t(1) by (auto simp: tasks_ok_def)
  let ?ds = "dtp_dep_list k" and ?k = "k\<lparr>dtp_running := True, dtp_refcnt := dtp_refcnt k + 1\<rparr>"
  let ?k' = "(finished ?k (res t))\<lparr>dtp_refcnt := dtp_refcnt k\<rparr>"
  let ?M' = "settled t ?ds (?M(t \<mapsto> ?k'))"
  let ?s = "s\<lparr>dsp_running_list := [t], ds_tasks := ?M(t \<mapsto> ?k), user := ?L @ [t]\<rparr>"
  let ?r = "if ds_result s = 0 then res t else ds_result s"
  let ?s4 = "s\<lparr>dsp_inflight := dsp_inflight s - 1, ds_result := ?r, user := ?L @ [t], ds_tasks := ?M'\<rparr>"
  note d = dependents[OF ok t dj k(1)]
  have refs: "refs_ok ?M' [t] (needed deps ?P (?L @ [t]))"
    using refs_ok_dependents[OF ok t dj dist k(1), of ?k'] by (simp add: finished_def)
  have dk: "d \<noteq> t \<and> (\<exists>kd. ?M d = Some kd \<and> \<not> dtp_running kd \<and> int (count_list ?ds d) \<le> dtp_dep_cnt kd \<and>
      int (count_list ?ds d) \<le> dtp_refcnt kd)" if e: "d \<in> set ?ds" for d
  proof -
    obtain kd where kd: "?M d = Some kd" "pending deps P ?L d kd" using ok d[OF e] by (auto simp: tasks_ok_def)
    then show ?thesis using d[OF e] refs_ok_pending[OF ok _ kd(1)] by (simp add: pending_def fresh_def)
  qed
  have "tse_task_complete (te_cb env) ?s t (res t) = Some (?s\<lparr>ds_tasks := ?M', dsp_running_list := [],
      dsp_inflight := dsp_inflight s - 1, ds_result := ?r\<rparr>)"
    using task_complete_settles[of ?s t ?k "te_cb env" "res t"] k idle fl refs_ok_pending[OF ok t(1) k(1)] dk
    by (simp add: pending_def fresh_def)
  moreover have "?s\<lparr>ds_tasks := ?M', dsp_running_list := [], dsp_inflight := dsp_inflight s - 1, ds_result := ?r\<rparr> = ?s4"
    using idle(2) by (cases s) simp
  ultimately have body: "tse_task_complete (te_cb env) ?s t (res t) = Some ?s4" by simp
  obtain f where f: "dtp_func k = Some f" using k(2) by (auto simp: pending_def fresh_def)
  have init: "init_loop env (t # ts) n s = (tse_task_decref ?s4 t \<bind> init_loop env ts (n + 1))"
    using k idle(2,3) env body f
    by (simp add: pending_def fresh_def self_completing_def tse_task_addref_locked_def tse_task_prep_callback_def
        list_first_def prep_cbs.simps split del: if_split)
  obtain M where M: "decref_loop [t] ?s4 = Some (?s4\<lparr>ds_tasks := M\<rparr>)" "refs_ok M [] (needed deps ?P (?L @ [t]))" "shrunk ?M' M"
    using decref_loop_ok[of ?s4 "[t]"] refs by auto
  have "tasks_ok deps ?P (?L @ [t]) M"
    using tasks_ok_settled[OF ok t(1) k(1) t(2) dj _ _ _ _ M(2,3)] dist by (simp add: finished_def)
  then show ?thesis
    using init M(1) inv t dist in_order_snoc[of deps ?L t]
    by (intro exI[of _ "?s4\<lparr>ds_tasks := M\<rparr>"])
      (auto simp: sched_inv_def tse_task_decref_def first_err_def simp del: init_loop.simps)
qed

lemma sched_inv_inflight [simp]:
  "sched_inv deps res P (s\<lparr>dsp_inflight := n\<rparr>) = sched_inv deps res P s"
  "sched_inv deps res P (s\<lparr>dsp_init_list := xs\<rparr>) = sched_inv deps res P s"
  by (simp_all add: sched_inv_def)

lemma init_loop_all:
  assumes "sched_inv deps res P s" "self_completing env res" "mset P = mset (ts @ I)"
    and "\<And>t. t \<in> set ts \<Longrightarrow> set (deps t) \<subseteq> set (user s)" "dsp_inflight s \<ge> int (length ts)"
  shows "\<exists>s' P'. sched_inv deps res P' s' \<and> mset P' = mset I \<and> init_loop env ts n s = Some (n + length ts, s') \<and>
    user s' = user s @ ts \<and> dsp_inflight s' = dsp_inflight s - int (length ts) \<and> dsp_init_list s' = dsp_init_list s \<and>
    dsp_refcount s' = dsp_refcount s"
  using assms
proof (induction ts arbitrary: P s n)
  case Nil
  then show ?case by auto
next
  case (Cons t ts)
  have "t \<in> set P" using Cons.prems(3) by (metis append_Cons list.set_intros(1) set_mset_mset)
  then obtain s1 where s1: "sched_inv deps res (remove1 t P) s1" "init_loop env (t # ts) n s = init_loop env ts (n + 1) s1"
    "user s1 = user s @ [t]" "dsp_inflight s1 = dsp_inflight s - 1" "dsp_init_list s1 = dsp_init_list s"
    "dsp_refcount s1 = dsp_refcount s"
    using init_loop_step[OF Cons.prems(1,2), of t ts n] Cons.prems(4)[of t] Cons.prems(5) by auto
  have "mset (remove1 t P) = mset (ts @ I)" using Cons.prems(3) by simp
  moreover have "set (deps u) \<subseteq> set (user s1)" if "u \<in> set ts" for u
    using Cons.prems(4)[of u] that s1(3) by auto
  ultimately show ?case
    using Cons.IH[OF s1(1) Cons.prems(2), of "n + 1"] s1(2-) Cons.prems(5) by (fastforce simp del: init_loop.simps)
qed

end
