(* ===== verification/Tse_Props.thy ===== *)
theory Tse_Props
  imports Tse_Inv
begin

text \<open>
  What the scheduler promises: tasks that complete themselves are all run by one call, each after the
  tasks it depends on, and all of them are released. What it does not: stopping a scheduler that still
  has work to do.
\<close>

section \<open>Running all tasks\<close>

lemma sched_inv_perm:
  assumes "sched_inv deps res P s" "mset P' = mset P"
  shows "sched_inv deps res P' s"
proof -
  have "set P' = set P" "distinct P' = distinct P"
    using assms(2) by (metis set_mset_mset, metis mset_eq_imp_distinct_iff)
  moreover from this have "needed deps P' L = needed deps P L" for L
    by (simp add: needed_def fun_eq_iff)
  ultimately show ?thesis
    using assms(1) unfolding sched_inv_def tasks_ok_def pending_def by simp
qed

lemma some_ready:
  assumes "in_order deps T" "set T = set I \<union> set L" "set I \<inter> set L = {}" "I \<noteq> []"
  shows "\<exists>t\<in>set I. set (deps t) \<subseteq> set L"
proof -
  have "\<exists>t\<in>set T. t \<notin> set L" using assms(2-4) by (metis Un_iff disjoint_iff last_in_set)
  then obtain ys t zs where T: "T = ys @ t # zs" "t \<notin> set L" "\<forall>y\<in>set ys. \<not> y \<notin> set L"
    by (rule split_list_first_propE)
  then have "set (deps t) \<subseteq> set ys" using assms(1) by (auto simp: in_order_def)
  then show ?thesis using T assms(2) by auto
qed

lemma process_init_all:
  assumes inv: "sched_inv deps res (dsp_init_list s) s" and env: "self_completing env res" and fl: "dsp_inflight s = 0"
  defines "ready \<equiv> \<lambda>t. set (deps t) \<subseteq> set (user s)"
  shows "\<exists>s'. tse_sched_process_init env s = Some (length (filter ready (dsp_init_list s)), s') \<and>
    sched_inv deps res (dsp_init_list s') s' \<and> dsp_init_list s' = filter (\<lambda>t. \<not> ready t) (dsp_init_list s) \<and>
    user s' = user s @ filter ready (dsp_init_list s) \<and> dsp_inflight s' = 0 \<and> dsp_refcount s' = dsp_refcount s"
proof -
  let ?I = "dsp_init_list s"
  let ?ts = "filter ready ?I" and ?I' = "filter (\<lambda>t. \<not> ready t) ?I"
  let ?s = "s\<lparr>dsp_init_list := ?I', dsp_inflight := int (length ?ts)\<rparr>"
  have live: "\<exists>k. ds_tasks s t = Some k \<and> (dtp_dep_cnt k = 0 \<longleftrightarrow> ready t)" if "t \<in> set ?I" for t
    using inv that unfolding sched_inv_def tasks_ok_def
    by (fastforce simp: pending_def undone_def filter_empty_conv ready_def)
  have pick: "filter (\<lambda>t. dtp_dep_cnt (the (ds_tasks s t)) = 0 \<or> dsp_cancelling s) ?I = ?ts"
    "filter (\<lambda>t. \<not> (dtp_dep_cnt (the (ds_tasks s t)) = 0 \<or> dsp_cancelling s)) ?I = ?I'"
    using live inv by (fastforce intro!: filter_cong simp: sched_inv_def)+
  have "\<not> (\<exists>t\<in>set ?I. ds_tasks s t = None)" using live by fastforce
  then have "tse_sched_process_init env s = init_loop env ?ts 0 ?s"
    using fl by (auto simp: tse_sched_process_init_def Let_def pick simp del: de_Morgan_disj)
  moreover have "mset ?I = mset (?ts @ ?I')" by (simp add: union_code)
  ultimately show ?thesis
    using init_loop_all[of deps res ?I ?s env ?ts ?I' 0] inv env sched_inv_perm
    by (fastforce simp: ready_def)
qed

lemma run_loop_all:
  assumes "sched_inv deps res (dsp_init_list s) s" "self_completing env res" "dsp_inflight s = 0"
    and "in_order deps T" "set T = set (dsp_init_list s) \<union> set (user s)"
  shows "\<exists>s'. run_loop env s = Some s' \<and> sched_inv deps res [] s' \<and> tse_sched_check_complete s' \<and>
    mset (user s') = mset (user s) + mset (dsp_init_list s) \<and> dsp_refcount s' = dsp_refcount s"
  using assms
proof (induction "length (dsp_init_list s)" arbitrary: s rule: less_induct)
  case less
  let ?ready = "\<lambda>t. set (deps t) \<subseteq> set (user s)"
  let ?ts = "filter ?ready (dsp_init_list s)" and ?I = "filter (\<lambda>t. \<not> ?ready t) (dsp_init_list s)"
  obtain s' where s': "tse_sched_process_init env s = Some (length ?ts, s')"
    "sched_inv deps res (dsp_init_list s') s'" "dsp_init_list s' = ?I" "user s' = user s @ ?ts" "dsp_inflight s' = 0"
    "dsp_refcount s' = dsp_refcount s"
    using process_init_all[OF less.prems(1-3)] by blast
  have "s'\<lparr>dsp_complete_list := []\<rparr> = s'" using s'(2) by (cases s') (simp add: sched_inv_def)
  then have comp: "tse_sched_process_complete (te_cb env) s' = Some (0, s')"
    using s'(2) by (simp add: tse_sched_process_complete_def sched_inv_def)
  have mset: "mset (user s') + mset ?I = mset (user s) + mset (dsp_init_list s)"
    using s'(4) multiset_partition[of "mset (dsp_init_list s)" ?ready] by (simp add: add.assoc)
  show ?case
  proof (cases "?I = []")
    case True
    then have "sched_inv deps res [] s'" using s'(2,3) by simp
    then show ?thesis
      using s' comp mset True by (subst run_loop.simps) (simp add: tse_sched_check_complete_def)
  next
    case False
    then have "dsp_init_list s \<noteq> []" by auto
    then have "?ts \<noteq> []"
      using some_ready[OF less.prems(4,5)] less.prems(1) by (auto simp: sched_inv_def filter_empty_conv)
    then have "length ?ts > 0" by (rule length_greater_0_conv[THEN iffD2])
    then have "length ?I < length (dsp_init_list s)"
      using sum_length_filter_compl[of ?ready "dsp_init_list s"] by linarith
    moreover have "set T = set (dsp_init_list s') \<union> set (user s')"
      using less.prems(5) s'(3,4) by auto
    moreover have "run_loop env s = run_loop env s'"
      using s'(1,3) comp False \<open>?ts \<noteq> []\<close> by (subst run_loop.simps) (simp add: tse_sched_check_complete_def)
    ultimately show ?thesis
      using less.hyps[of s'] less.prems(2,4) s'(2,3,5,6) mset by auto
  qed
qed

text \<open>A task that nothing refers to is gone, so nothing is left at the end.\<close>

lemma all_released:
  assumes inv: "sched_inv deps res [] s" and dist: "distinct (user s)"
  shows "ds_tasks s = Map.empty"
proof (rule ccontr)
  let ?M = "ds_tasks s"
  assume "?M \<noteq> Map.empty"
  moreover have ok: "tasks_ok deps [] (user s) ?M" and ord: "in_order deps (user s)" using inv by (auto simp: sched_inv_def)
  ultimately have "\<exists>t\<in>set (user s). t \<in> dom ?M" by (fastforce simp: tasks_ok_def dom_def)
  then obtain ys t zs where L: "user s = ys @ t # zs" "t \<in> dom ?M" "\<forall>z\<in>set zs. \<not> z \<in> dom ?M"
    by (rule split_list_last_propE)
  then have refs: "refs_ok ?M [] (needed deps [] (user s))" using ok by (simp add: tasks_ok_def)
  then have "held ?M t > 0" using L(2) refs_ok_task(1,2)[OF refs] by (fastforce simp: needed_def)
  then obtain u k where u: "?M u = Some k" "t \<in> set (dtp_ret_list k)"
    unfolding held_def by (metis (no_types, lifting) count_list_0_iff domD gr0I option.sel sum.neutral less_irrefl)
  then have "t \<in> set (deps u)" "u \<in> set (user s)" using ok by (fastforce simp: tasks_ok_def)+
  then obtain as bs where as: "user s = as @ u # bs" "t \<in> set as"
    using ord by (metis in_order_def split_list subsetD)
  have "u \<notin> set zs" using u(1) L(3) by auto
  have "u \<in> set zs"
    using as L(1) dist by (auto simp: append_eq_append_conv2 Cons_eq_append_conv)
  then show False using \<open>u \<notin> set zs\<close> by contradiction
qed

section \<open>Building a set of tasks\<close>

text \<open>
  A client that creates tasks one after the other, each with its function and the tasks it depends on,
  and schedules it.
\<close>

type_synonym prog = "(tid \<times> nat \<times> tid list) list"

fun tse_build :: "tse_env \<Rightarrow> prog \<Rightarrow> tse_sched \<Rightarrow> tse_sched option" where
  "tse_build env [] s = Some s"
| "tse_build env ((t, f, ds) # prog) s =
     do {
       s1 \<leftarrow> tse_task_init s 0 (Some f) None t;
       s2 \<leftarrow> tse_task_register_deps s1 t ds;
       (rc, s3) \<leftarrow> tse_task_schedule env s2 t False;
       tse_build env prog s3
     }"

fun prog_ok :: "tid list \<Rightarrow> prog \<Rightarrow> bool" where
  "prog_ok P [] \<longleftrightarrow> True"
| "prog_ok P ((t, f, ds) # prog) \<longleftrightarrow> t \<notin> set P \<and> set ds \<subseteq> set P \<and> prog_ok (P @ [t]) prog"

fun prog_deps :: "(tid \<Rightarrow> tid list) \<Rightarrow> prog \<Rightarrow> tid \<Rightarrow> tid list" where
  "prog_deps D [] = D"
| "prog_deps D ((t, f, ds) # prog) = prog_deps (D(t := ds)) prog"

definition one_sched :: "tse_sched \<Rightarrow> bool" where
  "one_sched s \<longleftrightarrow> (\<forall>t k. ds_tasks s t = Some k \<longrightarrow> dtp_sched k = 0)"

lemma undone_Nil [simp]: "undone deps [] t = length (deps t)"
  by (simp add: undone_def)

lemma refs_ok_dead:
  assumes "refs_ok M W E" "M t = None"
  shows "E t + count_list W t + held M t = 0"
proof (rule ccontr)
  assume "E t + count_list W t + held M t \<noteq> 0"
  then have "t \<in> dom M" by (intro refs_ok_live[OF assms(1)]) simp
  then show False using assms(2) by auto
qed

lemma refs_ok_add:
  assumes "refs_ok M [] E" "M t = None" "E' = E(t := 1)" "dtp_ret_list k = []" "dtp_refcnt k = 1" "dtp_dep_list k = []"
  shows "refs_ok (M(t \<mapsto> k)) [] E'"
proof -
  have fin: "finite (dom M)" by (rule refs_ok_finite[OF assms(1)])
  have z: "E t = 0" "held M t = 0"  using refs_ok_dead[OF assms(1,2)] by simp_all
  have h: "held (M(t \<mapsto> k)) u = held M u" for u
    using held_delete[of "M(t \<mapsto> k)" t k u] fin assms(2,4) by (simp add: fun_upd_idem)
  show ?thesis
    using assms z unfolding refs_ok_def h by (auto, metis)
qed

lemma task_init_inv:
  assumes inv: "sched_inv D res P s" "one_sched s" "user s = []" and t: "t \<notin> set P" and D: "\<forall>u\<in>set P. t \<notin> set (D u)"
  shows "\<exists>s'. tse_task_init s 0 (Some f) None t = Some s' \<and> sched_inv (D(t := [])) res (P @ [t]) s' \<and> one_sched s' \<and>
    user s' = [] \<and> dsp_init_list s' = dsp_init_list s \<and> dsp_inflight s' = dsp_inflight s \<and> dsp_refcount s' = dsp_refcount s"
proof -
  let ?k = "\<lparr>dt_result = 0, dtp_refcnt = 1, dtp_func = Some f, dtp_dep_list = [], dtp_prep_cb_list = [],
          dtp_comp_cb_list = [], dtp_ret_list = [], dtp_complete = False, dtp_running = False, dtp_dep_cnt = 0,
          dtp_sched = 0\<rparr>"
  let ?M = "ds_tasks s"
  have ok: "tasks_ok D P [] ?M" using inv(1,3) by (simp add: sched_inv_def)
  then have free: "?M t = None" using t by (auto simp: tasks_ok_def)
  have "refs_ok (?M(t \<mapsto> ?k)) [] (needed (D(t := [])) (P @ [t]) [])"
    by (rule refs_ok_add[of ?M "needed D P []"]) (use ok free t in \<open>auto simp: tasks_ok_def needed_def fun_eq_iff\<close>)
  moreover have "\<exists>k. (?M(t \<mapsto> ?k)) u = Some k \<and> pending (D(t := [])) (P @ [t]) [] u k" if "u \<in> set (P @ [t])" for u
  proof (cases "u = t")
    case True
    then show ?thesis using D by (auto simp: pending_def fresh_def count_list_0_iff)
  next
    case False
    then show ?thesis using that ok t by (fastforce simp: pending_def tasks_ok_def)
  qed
  ultimately have "tasks_ok (D(t := [])) (P @ [t]) [] (?M(t \<mapsto> ?k))"
    using ok free unfolding tasks_ok_def by auto
  then show ?thesis
    using inv t by (auto simp: tse_task_init_def sched_inv_def in_order_def one_sched_def)
qed

text \<open>A dependency: the waiting task gets a reference, and the task it waits for a link to it.\<close>

lemma add_dependent_inv:
  assumes inv: "sched_inv D res P s" "one_sched s" "user s = []" and t: "t \<in> set P" "d \<in> set P" "d \<noteq> t"
  shows "\<exists>s'. tse_task_add_dependent s t d = Some (None, s') \<and> sched_inv (D(t := D t @ [d])) res P s' \<and> one_sched s' \<and>
    user s' = [] \<and> dsp_init_list s' = dsp_init_list s \<and> dsp_inflight s' = dsp_inflight s \<and> dsp_refcount s' = dsp_refcount s"
proof -
  let ?M = "ds_tasks s" and ?D = "D(t := D t @ [d])"
  have ok: "tasks_ok D P [] ?M" using inv(1,3) by (simp add: sched_inv_def)
  obtain k kd where k: "?M t = Some k" "pending D P [] t k" "?M d = Some kd" "pending D P [] d kd"
    using ok t unfolding tasks_ok_def by blast
  let ?k = "k\<lparr>dtp_refcnt := dtp_refcnt k + 1, dtp_dep_cnt := dtp_dep_cnt k + 1\<rparr>"
  let ?kd = "kd\<lparr>dtp_dep_list := dtp_dep_list kd @ [t]\<rparr>"
  let ?M' = "?M(t \<mapsto> ?k, d \<mapsto> ?kd)"
  have refs: "refs_ok ?M [] (needed D P [])" using ok by (simp add: tasks_ok_def)
  have h: "held ?M' u = held ?M u" for u
    using held_same[of "?M(t \<mapsto> ?k)" d kd ?kd u] held_same[OF k(1) refs_ok_finite[OF refs], of ?k u] k(3) t(3)
      refs_ok_finite[OF refs] by simp
  have n: "needed ?D P [] u = needed D P [] u + (if u = t then 1 else 0)" for u
    using t(1) by (simp add: needed_def)
  have "refs_ok ?M' [] (needed ?D P [])"
    unfolding refs_ok_def h n
  proof (intro conjI allI impI, goal_cases)
    case 1
    then show ?case using refs_ok_finite[OF refs] by simp
  next
    case (2 u ku)
    then show ?case using refs_ok_task(1)[OF refs] k(1,3) t(3) by (auto split: if_splits)
  next
    case (3 u ku)
    then show ?case using refs_ok_task(2)[OF refs] k(1,3) t(3) by (fastforce split: if_splits)
  next
    case (4 u ku)
    then show ?case using refs_ok_task(3)[OF refs, of u] t by (auto simp: needed_def split: if_splits)
  next
    case (5 u)
    then show ?case using refs_ok_live[OF refs, of u] k by auto
  qed
  moreover have "\<exists>k. ?M' u = Some k \<and> pending ?D P [] u k" if "u \<in> set P" for u
  proof -
    obtain ku where ku: "?M u = Some ku" "pending D P [] u ku" using ok \<open>u \<in> set P\<close> by (auto simp: tasks_ok_def)
    then show ?thesis using k t by (cases "u = d"; cases "u = t") (auto simp: pending_def fresh_def)
  qed
  ultimately have "tasks_ok ?D P [] ?M'"
    using ok k t unfolding tasks_ok_def by (fastforce split: if_splits)
  moreover have "tse_task_add_dependent s t d = Some (None, s\<lparr>ds_tasks := ?M'\<rparr>)"
    using k t inv(2) unfolding tse_task_add_dependent_def
    by (simp add: one_sched_def pending_def fresh_def tse_task_addref_locked_def fun_upd_twist)
  ultimately show ?thesis
    using inv k t by (auto simp: sched_inv_def in_order_def one_sched_def)
qed

lemma register_deps_inv:
  assumes "sched_inv (D(t := xs)) res P s" "one_sched s" "user s = []" "t \<in> set P" "set ds \<subseteq> set P - {t}"
  shows "\<exists>s'. tse_task_register_deps s t ds = Some s' \<and> sched_inv (D(t := xs @ ds)) res P s' \<and> one_sched s' \<and>
    user s' = [] \<and> dsp_init_list s' = dsp_init_list s \<and> dsp_inflight s' = dsp_inflight s \<and> dsp_refcount s' = dsp_refcount s"
  using assms
proof (induction ds arbitrary: s xs)
  case Nil
  then show ?case by simp
next
  case (Cons d ds)
  obtain s1 where s1: "tse_task_add_dependent s t d = Some (None, s1)" "sched_inv (D(t := xs @ [d])) res P s1" "one_sched s1"
    "user s1 = []" "dsp_init_list s1 = dsp_init_list s" "dsp_inflight s1 = dsp_inflight s" "dsp_refcount s1 = dsp_refcount s"
    using add_dependent_inv[OF Cons.prems(1-4), of d, unfolded fun_upd_upd fun_upd_same] Cons.prems(5) by auto
  then show ?case using Cons.IH[OF s1(2-4) Cons.prems(4)] Cons.prems(5) by auto
qed

lemma schedule_inv:
  assumes "sched_inv D res P s" "t \<in> set P"
  shows "tse_task_schedule env s t False =
    Some (Inr 0, s\<lparr>dsp_init_list := dsp_init_list s @ [t], dsp_refcount := dsp_refcount s + 1\<rparr>)"
proof -
  obtain k f where "ds_tasks s t = Some k" "dtp_func k = Some f"
    using assms by (fastforce simp: sched_inv_def tasks_ok_def pending_def fresh_def)
  then show ?thesis by (simp add: tse_task_schedule_def tse_sched_addref_locked_def)
qed

lemma in_order_cong: "\<lbrakk>in_order D P; \<And>t. t \<in> set P \<Longrightarrow> D' t = D t\<rbrakk> \<Longrightarrow> in_order D' P"
  by (auto simp: in_order_def)

lemma build_inv:
  assumes "prog_ok P prog" "sched_inv D res P s" "one_sched s" "user s = []" "dsp_init_list s = P" "dsp_inflight s = 0"
    and "in_order D P"
  shows "\<exists>s'. tse_build env prog s = Some s' \<and> sched_inv (prog_deps D prog) res (P @ map fst prog) s' \<and>
    user s' = [] \<and> dsp_init_list s' = P @ map fst prog \<and> dsp_inflight s' = 0 \<and>
    dsp_refcount s' = dsp_refcount s + int (length prog) \<and> in_order (prog_deps D prog) (P @ map fst prog)"
  using assms
proof (induction prog arbitrary: P D s)
  case Nil
  then show ?case by simp
next
  case (Cons p prog)
  obtain t f ds where p: "p = (t, f, ds)" by (cases p)
  have t: "t \<notin> set P" "set ds \<subseteq> set P" "prog_ok (P @ [t]) prog" using Cons.prems(1) p by auto
  have "\<forall>u\<in>set P. t \<notin> set (D u)"
    using Cons.prems(7) t(1) by (fastforce simp: in_order_def dest: split_list)
  then obtain s1 where s1: "tse_task_init s 0 (Some f) None t = Some s1" "sched_inv (D(t := [])) res (P @ [t]) s1"
    "one_sched s1" "user s1 = []" "dsp_init_list s1 = P" "dsp_inflight s1 = 0" "dsp_refcount s1 = dsp_refcount s"
    using task_init_inv[OF Cons.prems(2-4) t(1), of f] Cons.prems(5,6) by auto
  obtain s2 where s2: "tse_task_register_deps s1 t ds = Some s2" "sched_inv (D(t := ds)) res (P @ [t]) s2" "one_sched s2"
    "user s2 = []" "dsp_init_list s2 = P" "dsp_inflight s2 = 0" "dsp_refcount s2 = dsp_refcount s"
    using register_deps_inv[OF s1(2-4), of ds] s1(5-7) t by auto
  let ?s = "s2\<lparr>dsp_init_list := P @ [t], dsp_refcount := dsp_refcount s + 1\<rparr>"
  have sch: "tse_task_schedule env s2 t False = Some (Inr 0, ?s)"
    using schedule_inv[OF s2(2), of t env] s2(5,7) by simp
  have "sched_inv (D(t := ds)) res (P @ [t]) ?s" "one_sched ?s"
    using s2(2,3,7) Cons.prems(2) by (auto simp: sched_inv_def one_sched_def)
  moreover have "in_order (D(t := ds)) (P @ [t])"
    using in_order_snoc[of "D(t := ds)" P t] in_order_cong[OF Cons.prems(7), of "D(t := ds)"] t by fastforce
  ultimately show ?case
    using Cons.IH[OF t(3), of "D(t := ds)" ?s] s1(1) s2(1,4,6) sch p by (fastforce simp: algebra_simps)
qed

lemma sched_inv_start: "sched_inv D res [] (tse_sched_init None u)"
  by (auto simp: sched_inv_def tasks_ok_def refs_ok_def needed_def held_def in_order_def first_err_def tse_sched_init_def)

section \<open>Functions that complete their tasks\<close>

definition sync_env :: "(tid \<Rightarrow> int) \<Rightarrow> tse_env" where
  "sync_env res =
     \<lparr>te_func = (\<lambda>f t s. tse_task_complete (\<lambda>cb t s. None) (s\<lparr>user := user s @ [t]\<rparr>) t (res t)), te_cb = (\<lambda>cb t s. None),
      te_sched_cb = (\<lambda>cb rc s. None)\<rparr>"

lemma self_completing_sync: "self_completing (sync_env res) res"
  by (simp add: self_completing_def sync_env_def)

section \<open>Properties\<close>

text \<open>
  C6. A client creates tasks that depend on earlier ones and schedules them; each task function completes
  its task. Then one call of \<open>tse_sched_progress\<close> returns, and it has run every task once and every task after
  the tasks it depends on; the result of the scheduler is the first error in that order, and every task
  has been freed. The scheduler holds one reference more for each task that it has completed.
\<close>

theorem tse_progress_all:
  assumes "self_completing env res" "prog_ok [] prog"
  shows "\<exists>s0 s. tse_build env prog (tse_sched_init None udata) = Some s0 \<and> tse_sched_progress env s0 = Some s \<and>
    mset (user s) = mset (map fst prog) \<and> in_order (prog_deps (\<lambda>t. []) prog) (user s) \<and>
    ds_result s = first_err (map res (user s)) \<and> ds_tasks s = Map.empty \<and> tse_sched_check_complete s \<and>
    dsp_refcount s = 1 + int (length prog)"
proof -
  let ?D = "prog_deps (\<lambda>t. []) prog" and ?T = "map fst prog"
  obtain s0 where s0: "tse_build env prog (tse_sched_init None udata) = Some s0" "sched_inv ?D res ?T s0" "user s0 = []"
    "dsp_init_list s0 = ?T" "dsp_inflight s0 = 0" "dsp_refcount s0 = 1 + int (length prog)" "in_order ?D ?T"
    using build_inv[OF assms(2) sched_inv_start[of _ res udata], of "\<lambda>t. []" env]
    by (auto simp: one_sched_def in_order_def tse_sched_init_def)
  let ?s = "tse_sched_addref_locked s0"
  have inv: "sched_inv ?D res (dsp_init_list ?s) ?s"
    using s0(2,4) by (simp add: sched_inv_def tse_sched_addref_locked_def)
  obtain s' where s': "run_loop env ?s = Some s'" "sched_inv ?D res [] s'" "tse_sched_check_complete s'"
    "mset (user s') = mset ?T" "dsp_refcount s' = dsp_refcount ?s"
    using run_loop_all[OF inv assms(1) _ s0(7)] s0(3-5) by (auto simp: tse_sched_addref_locked_def)
  have "distinct ?T" using s0(2) by (simp add: sched_inv_def)
  then have "distinct (user s')" using s'(4) by (metis mset_eq_imp_distinct_iff)
  then have "ds_tasks s' = Map.empty" by (rule all_released[OF s'(2)])
  moreover have "tse_sched_progress env s0 = Some (s'\<lparr>dsp_refcount := dsp_refcount s' - 1\<rparr>)"
    using s'(1,5) s0(2,6)
    by (simp add: tse_sched_progress_def tse_sched_run_def tse_sched_decref_def tse_sched_addref_locked_def sched_inv_def)
  ultimately show ?thesis
    using s0(1,6) s' by (auto simp: sched_inv_def tse_sched_check_complete_def tse_sched_addref_locked_def)
qed

theorem tse_progress_all_witness:
  "let prog = [(1, 0, []), (2, 0, [1]), (3, 0, [1]), (4, 0, [3, 2])]; env = sync_env (\<lambda>t. if t = 3 then - 5 else 0) in
   self_completing env (\<lambda>t. if t = 3 then - 5 else 0) \<and> prog_ok [] prog \<and>
   (\<exists>s0 s. tse_build env prog (tse_sched_init None None) = Some s0 \<and> tse_sched_progress env s0 = Some s \<and>
      mset (user s) = mset [1, 2, 3, 4] \<and> ds_tasks s = Map.empty)"
proof -
  let ?res = "\<lambda>t::tid. if t = 3 then - 5 else 0 :: int"
  let ?prog = "[(1, 0, []), (2, 0, [1]), (3, 0, [1]), (4, 0, [3, 2])] :: prog"
  have "self_completing (sync_env ?res) ?res" "prog_ok [] ?prog"
    using self_completing_sync by (blast, simp)
  then show ?thesis
    using tse_progress_all[of "sync_env ?res" ?res ?prog None] by (auto simp: Let_def)
qed



text \<open>
  C34. Cancelling a scheduler that has a task that has not been started aborts: the task is marked complete
  as if it were running.
\<close>

theorem tse_cancel_aborts:
  assumes "dsp_init_list s = t # ts" "ds_tasks s t = Some k" "\<not> dtp_running k" "\<not> dsp_cancelling s" "\<not> dsp_completing s"
  shows "tse_sched_complete env s ret True = None"
proof -
  have "tse_sched_process_init env s = None"
    if "dsp_init_list s = t # ts" "ds_tasks s t = Some k" "dsp_cancelling s" for s
    using that assms(3) by (simp add: tse_sched_process_init_def tse_task_complete_locked_def Let_def)
  then have "run_loop env s = None"
    if "dsp_init_list s = t # ts" "ds_tasks s t = Some k" "dsp_cancelling s" for s
    using that by (subst run_loop.simps) simp
  then have "wait_loop env s = None"
    if "dsp_init_list s = t # ts" "ds_tasks s t = Some k" "dsp_cancelling s" for s
    using that by (subst wait_loop.simps) (simp add: tse_sched_run_def)
  then show ?thesis
    using assms by (simp add: tse_sched_complete_def Let_def tse_sched_addref_locked_def)
qed

theorem tse_cancel_aborts_witness:
  "\<exists>s. tse_build (sync_env (\<lambda>t. 0)) [(1, 0, [])] (tse_sched_init None None) = Some s \<and>
    tse_sched_complete (sync_env (\<lambda>t. 0)) s 0 True = None"
proof -
  let ?k = "\<lparr>dt_result = 0, dtp_refcnt = 1, dtp_func = Some 0, dtp_dep_list = [],
      dtp_prep_cb_list = [], dtp_comp_cb_list = [], dtp_ret_list = [], dtp_complete = False, dtp_running = False, dtp_dep_cnt = 0,
      dtp_sched = 0\<rparr>"
  let ?s = "\<lparr>ds_result = 0, ds_udata = None, ds_tasks = [1 \<mapsto> ?k], dsp_init_list = [1], dsp_running_list = [],
      dsp_complete_list = [], dsp_comp_cb_list = [],
      dsp_refcount = 2, dsp_inflight = 0, dsp_cancelling = False, dsp_completing = False, user = []\<rparr>"
  show ?thesis
    using tse_cancel_aborts[of ?s 1 "[]" ?k "sync_env (\<lambda>t. 0)" 0]
    by (intro exI[of _ ?s])
      (simp add: tse_task_init_def tse_sched_init_def tse_task_schedule_def tse_sched_addref_locked_def Let_def)
qed

end
