(* ===== verification/Dhash.thy ===== *)
theory Dhash
  imports Hash "HOL-Library.Monad_Syntax"
begin

text \<open>
  The chained hash tables of \<^verbatim>\<open>src/common/hash.c\<close>, and the tables of handles and of UUIDs built on them.

  A table links records that belong to its user. A record is named by the address of its link; what a
  record holds is the state \<open>'s\<close> that the member functions of the table work on. A link is in one list at a
  time, and a record is unlinked if it is in no bucket. \<open>None\<close> is a failed assertion. Locks are left out.
\<close>

unbundle bit_operations_syntax

type_synonym rid = nat

record 's dhash_ops =
  hop_key_init :: "(rid \<Rightarrow> u64 \<Rightarrow> 's \<Rightarrow> 's) option"
  hop_key_get :: "('s \<Rightarrow> rid \<Rightarrow> bytes) option"
  hop_key_hash :: "(bytes \<Rightarrow> u32) option"
  hop_key_cmp :: "'s \<Rightarrow> rid \<Rightarrow> bytes \<Rightarrow> bool"
  hop_rec_addref :: "(rid \<Rightarrow> 's \<Rightarrow> 's) option"
  hop_rec_decref :: "(rid \<Rightarrow> 's \<Rightarrow> (bool \<times> 's) option) option"
  hop_rec_free :: "(rid \<Rightarrow> 's \<Rightarrow> 's) option"

text \<open>No array of buckets is the empty list.\<close>

record dhash_table =
  ht_bits :: nat
  ht_feats :: u32
  ht_buckets :: "rid list list"

section \<open>Member functions\<close>

definition dh_key_hash :: "'s dhash_ops \<Rightarrow> dhash_table \<Rightarrow> bytes \<Rightarrow> nat" where
  "dh_key_hash ops htable key =
     (let idx = (case hop_key_hash ops of Some h \<Rightarrow> h key | None \<Rightarrow> daos_hash_string_u32 key)
      in unat (idx AND (push_bit (ht_bits htable) 1 - 1)))"

definition dh_rec_insert :: "dhash_table \<Rightarrow> nat \<Rightarrow> rid \<Rightarrow> dhash_table" where
  "dh_rec_insert htable idx rlink =
     htable\<lparr>ht_buckets := (ht_buckets htable)[idx := rlink # ht_buckets htable ! idx]\<rparr>"

definition dh_rec_delete :: "dhash_table \<Rightarrow> rid \<Rightarrow> dhash_table" where
  "dh_rec_delete htable rlink = htable\<lparr>ht_buckets := map (remove1 rlink) (ht_buckets htable)\<rparr>"

definition dh_rec_find :: "'s dhash_ops \<Rightarrow> dhash_table \<Rightarrow> 's \<Rightarrow> nat \<Rightarrow> bytes \<Rightarrow> rid option" where
  "dh_rec_find ops htable s idx key = find (\<lambda>rlink. hop_key_cmp ops s rlink key) (ht_buckets htable ! idx)"

definition dh_rec_addref :: "'s dhash_ops \<Rightarrow> rid \<Rightarrow> 's \<Rightarrow> 's" where
  "dh_rec_addref ops rlink s = (case hop_rec_addref ops of None \<Rightarrow> s | Some f \<Rightarrow> f rlink s)"

definition dh_rec_decref :: "'s dhash_ops \<Rightarrow> rid \<Rightarrow> 's \<Rightarrow> (bool \<times> 's) option" where
  "dh_rec_decref ops rlink s = (case hop_rec_decref ops of None \<Rightarrow> Some (False, s) | Some f \<Rightarrow> f rlink s)"

definition dh_rec_free :: "'s dhash_ops \<Rightarrow> rid \<Rightarrow> 's \<Rightarrow> 's" where
  "dh_rec_free ops rlink s = (case hop_rec_free ops of None \<Rightarrow> s | Some f \<Rightarrow> f rlink s)"

definition dhash_rec_unlinked :: "dhash_table \<Rightarrow> rid \<Rightarrow> bool" where
  "dhash_rec_unlinked htable rlink \<longleftrightarrow> (\<forall>b \<in> set (ht_buckets htable). rlink \<notin> set b)"

section \<open>Operations on records\<close>

definition dhash_rec_find :: "'s dhash_ops \<Rightarrow> dhash_table \<Rightarrow> 's \<Rightarrow> bytes \<Rightarrow> rid option \<times> 's" where
  "dhash_rec_find ops htable s key =
     (case dh_rec_find ops htable s (dh_key_hash ops htable key) key of
        None \<Rightarrow> (None, s)
      | Some rlink \<Rightarrow> (Some rlink, dh_rec_addref ops rlink s))"

text \<open>The error of an exclusive insertion of a key that is there is lost: the result is always 0.\<close>

definition dhash_rec_insert :: "'s dhash_ops \<Rightarrow> dhash_table \<Rightarrow> 's \<Rightarrow> bytes \<Rightarrow> rid \<Rightarrow> bool \<Rightarrow>
    (der option \<times> dhash_table \<times> 's) option" where
  "dhash_rec_insert ops htable s key rlink exclusive =
     (if key = [] then None
      else (let idx = dh_key_hash ops htable key in
            if exclusive \<and> dh_rec_find ops htable s idx key \<noteq> None then Some (None, htable, s)
            else Some (None, dh_rec_insert htable idx rlink, dh_rec_addref ops rlink s)))"

definition dhash_rec_insert_anonym :: "'s dhash_ops \<Rightarrow> dhash_table \<Rightarrow> 's \<Rightarrow> rid \<Rightarrow> u64 \<Rightarrow> der option \<times> dhash_table \<times> 's" where
  "dhash_rec_insert_anonym ops htable s rlink args =
     (case (hop_key_init ops, hop_key_get ops) of
        (Some key_init, Some key_get) \<Rightarrow>
          (let s1 = key_init rlink args s; key = key_get s1 rlink; idx = dh_key_hash ops htable key
           in (None, dh_rec_insert htable idx rlink, dh_rec_addref ops rlink s1))
      | _ \<Rightarrow> (Some DER_NO_PERM, htable, s))"

definition delete_rec :: "'s dhash_ops \<Rightarrow> dhash_table \<Rightarrow> 's \<Rightarrow> rid \<Rightarrow> (dhash_table \<times> 's) option" where
  "delete_rec ops htable s rlink =
     do {
       (zombie, s1) \<leftarrow> dh_rec_decref ops rlink s;
       Some (dh_rec_delete htable rlink, if zombie then dh_rec_free ops rlink s1 else s1)
     }"

definition dhash_rec_delete :: "'s dhash_ops \<Rightarrow> dhash_table \<Rightarrow> 's \<Rightarrow> bytes \<Rightarrow> (bool \<times> dhash_table \<times> 's) option" where
  "dhash_rec_delete ops htable s key =
     (case dh_rec_find ops htable s (dh_key_hash ops htable key) key of
        None \<Rightarrow> Some (False, htable, s)
      | Some rlink \<Rightarrow> map_option (Pair True) (delete_rec ops htable s rlink))"

definition dhash_rec_delete_at :: "'s dhash_ops \<Rightarrow> dhash_table \<Rightarrow> 's \<Rightarrow> rid \<Rightarrow> (bool \<times> dhash_table \<times> 's) option" where
  "dhash_rec_delete_at ops htable s rlink =
     (if dhash_rec_unlinked htable rlink then Some (False, htable, s)
      else map_option (Pair True) (delete_rec ops htable s rlink))"

definition dhash_rec_addref :: "'s dhash_ops \<Rightarrow> rid \<Rightarrow> 's \<Rightarrow> 's" where
  "dhash_rec_addref ops rlink s = dh_rec_addref ops rlink s"

definition dhash_rec_decref :: "'s dhash_ops \<Rightarrow> dhash_table \<Rightarrow> 's \<Rightarrow> rid \<Rightarrow> 's option" where
  "dhash_rec_decref ops htable s rlink =
     do {
       (zombie, s1) \<leftarrow> dh_rec_decref ops rlink s;
       if zombie \<and> \<not> dhash_rec_unlinked htable rlink then None
       else Some (if zombie then dh_rec_free ops rlink s1 else s1)
     }"

section \<open>Operations on tables\<close>

definition dhash_table_create_inplace :: "u32 \<Rightarrow> nat \<Rightarrow> dhash_table" where
  "dhash_table_create_inplace feats bits = \<lparr>ht_bits = bits, ht_feats = feats, ht_buckets = replicate (2 ^ bits) []\<rparr>"

fun traverse_loop :: "(rid \<Rightarrow> 'c \<Rightarrow> int \<times> 'c) \<Rightarrow> rid list \<Rightarrow> 'c \<Rightarrow> int \<times> 'c" where
  "traverse_loop cb [] c = (0, c)"
| "traverse_loop cb (rlink # rs) c = (let (rc, c1) = cb rlink c in if rc \<noteq> 0 then (rc, c1) else traverse_loop cb rs c1)"

definition dhash_table_traverse :: "dhash_table \<Rightarrow> (rid \<Rightarrow> 'c \<Rightarrow> int \<times> 'c) option \<Rightarrow> 'c \<Rightarrow> (int res) \<times> 'c" where
  "dhash_table_traverse htable cb c =
     (if ht_buckets htable = [] then (Inl DER_UNINIT, c)
      else case cb of
        None \<Rightarrow> (Inl DER_INVAL, c)
      | Some f \<Rightarrow> (let (rc, c1) = traverse_loop f (concat (ht_buckets htable)) c in (Inr rc, c1)))"

text \<open>Buckets are emptied from the first one on; the records of a bucket from its head.\<close>

fun destroy_loop :: "'s dhash_ops \<Rightarrow> bool \<Rightarrow> rid list \<Rightarrow> dhash_table \<Rightarrow> 's \<Rightarrow> (der option \<times> dhash_table \<times> 's) option" where
  "destroy_loop ops force [] htable s = Some (None, htable, s)"
| "destroy_loop ops force (rlink # rs) htable s =
     (if \<not> force then Some (Some DER_BUSY, htable, s)
      else do { (deleted, htable1, s1) \<leftarrow> dhash_rec_delete_at ops htable s rlink; destroy_loop ops force rs htable1 s1 })"

definition dhash_table_destroy_inplace :: "'s dhash_ops \<Rightarrow> dhash_table \<Rightarrow> 's \<Rightarrow> bool \<Rightarrow>
    (der option \<times> dhash_table \<times> 's) option" where
  "dhash_table_destroy_inplace ops htable s force =
     do {
       (rc, htable1, s1) \<leftarrow> destroy_loop ops force (concat (ht_buckets htable)) htable s;
       case rc of
         Some e \<Rightarrow> Some (Some e, htable1, s1)
       | None \<Rightarrow> Some (None, \<lparr>ht_bits = 0, ht_feats = 0, ht_buckets = []\<rparr>, s1)
     }"

text \<open>The table itself is freed whether or not it could be emptied.\<close>

definition dhash_table_destroy :: "'s dhash_ops \<Rightarrow> dhash_table \<Rightarrow> 's \<Rightarrow> bool \<Rightarrow> (der option \<times> 's) option" where
  "dhash_table_destroy ops htable s force =
     map_option (\<lambda>(rc, htable1, s1). (None, s1)) (dhash_table_destroy_inplace ops htable s force)"

section \<open>Handles\<close>

record daos_hlink =
  hl_ref :: nat
  hl_initialized :: bool
  hl_key :: u64
  hl_free :: bool

record daos_hhash =
  dh_cookie :: u64
  dh_links :: "rid \<Rightarrow> daos_hlink option"

definition DAOS_HTYPE_BITS :: nat where "DAOS_HTYPE_BITS = 3"
definition DAOS_HTYPE_MASK :: u64 where "DAOS_HTYPE_MASK = push_bit DAOS_HTYPE_BITS 1 - 1"

definition upd_hlink :: "rid \<Rightarrow> (daos_hlink \<Rightarrow> daos_hlink) \<Rightarrow> daos_hhash \<Rightarrow> daos_hhash" where
  "upd_hlink l f s = s\<lparr>dh_links := (dh_links s)(l := map_option f (dh_links s l))\<rparr>"

definition hh_op_key_init :: "rid \<Rightarrow> u64 \<Rightarrow> daos_hhash \<Rightarrow> daos_hhash" where
  "hh_op_key_init l type s =
     (upd_hlink l (\<lambda>h. h\<lparr>hl_key := push_bit DAOS_HTYPE_BITS (dh_cookie s) OR type\<rparr>) s)\<lparr>dh_cookie := dh_cookie s + 1\<rparr>"

definition hh_key_type :: "u64 \<Rightarrow> u64" where
  "hh_key_type key = key AND DAOS_HTYPE_MASK"

definition hh_op_key_get :: "daos_hhash \<Rightarrow> rid \<Rightarrow> bytes" where
  "hh_op_key_get s l = (case dh_links s l of None \<Rightarrow> [] | Some h \<Rightarrow> u64_bytes (hl_key h))"

definition hh_op_key_hash :: "bytes \<Rightarrow> u32" where
  "hh_op_key_hash key = ucast (drop_bit DAOS_HTYPE_BITS (bytes_u64 key))"

text \<open>A key of the table has eight bytes.\<close>

definition hh_op_key_cmp :: "daos_hhash \<Rightarrow> rid \<Rightarrow> bytes \<Rightarrow> bool" where
  "hh_op_key_cmp s l key = (case dh_links s l of None \<Rightarrow> False | Some h \<Rightarrow> length key = 8 \<and> hl_key h = bytes_u64 key)"

definition hh_op_rec_addref :: "rid \<Rightarrow> daos_hhash \<Rightarrow> daos_hhash" where
  "hh_op_rec_addref l s = upd_hlink l (\<lambda>h. h\<lparr>hl_ref := hl_ref h + 1\<rparr>) s"

definition hh_op_rec_decref :: "rid \<Rightarrow> daos_hhash \<Rightarrow> (bool \<times> daos_hhash) option" where
  "hh_op_rec_decref l s =
     do {
       h \<leftarrow> dh_links s l;
       if hl_ref h = 0 then None else Some (hl_ref h - 1 = 0, upd_hlink l (\<lambda>h. h\<lparr>hl_ref := hl_ref h - 1\<rparr>) s)
     }"

text \<open>The free function of the user releases the record.\<close>

definition hh_op_rec_free :: "rid \<Rightarrow> daos_hhash \<Rightarrow> daos_hhash" where
  "hh_op_rec_free l s =
     (case dh_links s l of Some h \<Rightarrow> if hl_free h then s\<lparr>dh_links := (dh_links s)(l := None)\<rparr> else s | None \<Rightarrow> s)"

definition hh_ops :: "daos_hhash dhash_ops" where
  "hh_ops = \<lparr>hop_key_init = Some hh_op_key_init, hop_key_get = Some hh_op_key_get, hop_key_hash = Some hh_op_key_hash,
     hop_key_cmp = hh_op_key_cmp, hop_rec_addref = Some hh_op_rec_addref, hop_rec_decref = Some hh_op_rec_decref,
     hop_rec_free = Some hh_op_rec_free\<rparr>"

definition daos_hhash_create :: "nat \<Rightarrow> (rid \<Rightarrow> daos_hlink option) \<Rightarrow> dhash_table \<times> daos_hhash" where
  "daos_hhash_create bits links = (dhash_table_create_inplace 0 bits, \<lparr>dh_cookie = 1, dh_links = links\<rparr>)"

definition daos_hhash_destroy :: "dhash_table \<Rightarrow> daos_hhash \<Rightarrow> daos_hhash option" where
  "daos_hhash_destroy htable s = map_option (\<lambda>(rc, htable1, s1). s1) (dhash_table_destroy_inplace hh_ops htable s True)"

definition daos_hhash_hlink_init :: "rid \<Rightarrow> bool \<Rightarrow> daos_hhash \<Rightarrow> daos_hhash" where
  "daos_hhash_hlink_init l free s = upd_hlink l (\<lambda>h. h\<lparr>hl_free := free, hl_initialized := True, hl_ref := 1\<rparr>) s"

definition daos_hhash_link_insert :: "dhash_table \<Rightarrow> daos_hhash \<Rightarrow> rid \<Rightarrow> u64 \<Rightarrow> (dhash_table \<times> daos_hhash) option" where
  "daos_hhash_link_insert htable s l type =
     do {
       h \<leftarrow> dh_links s l;
       if \<not> hl_initialized h then None else Some (snd (dhash_rec_insert_anonym hh_ops htable s l type))
     }"

definition daos_hhash_link_lookup :: "dhash_table \<Rightarrow> daos_hhash \<Rightarrow> u64 \<Rightarrow> rid option \<times> daos_hhash" where
  "daos_hhash_link_lookup htable s key = dhash_rec_find hh_ops htable s (u64_bytes key)"

definition daos_hhash_link_delete :: "dhash_table \<Rightarrow> daos_hhash \<Rightarrow> rid \<Rightarrow> (bool \<times> dhash_table \<times> daos_hhash) option" where
  "daos_hhash_link_delete htable s l = dhash_rec_delete_at hh_ops htable s l"

definition daos_hhash_link_getref :: "daos_hhash \<Rightarrow> rid \<Rightarrow> daos_hhash" where
  "daos_hhash_link_getref s l = dhash_rec_addref hh_ops l s"

definition daos_hhash_link_putref :: "dhash_table \<Rightarrow> daos_hhash \<Rightarrow> rid \<Rightarrow> daos_hhash option" where
  "daos_hhash_link_putref htable s l = dhash_rec_decref hh_ops htable s l"

definition daos_hhash_link_empty :: "dhash_table \<Rightarrow> daos_hhash \<Rightarrow> rid \<Rightarrow> bool option" where
  "daos_hhash_link_empty htable s l =
     do {
       h \<leftarrow> dh_links s l;
       if \<not> hl_initialized h then Some True
       else if hl_ref h = 0 \<and> \<not> dhash_rec_unlinked htable l then None
       else Some (dhash_rec_unlinked htable l)
     }"

definition daos_hhash_link_key :: "daos_hhash \<Rightarrow> rid \<Rightarrow> u64 option" where
  "daos_hhash_link_key s l = map_option hl_key (dh_links s l)"

definition daos_hhash_key_type :: "u64 \<Rightarrow> u64" where
  "daos_hhash_key_type key = hh_key_type key"

section \<open>UUIDs\<close>

record daos_ulink =
  ul_ref :: nat
  ul_initialized :: bool
  ul_uuid :: bytes
  ul_free :: bool

type_synonym ulinks = "rid \<Rightarrow> daos_ulink option"

definition upd_ulink :: "rid \<Rightarrow> (daos_ulink \<Rightarrow> daos_ulink) \<Rightarrow> ulinks \<Rightarrow> ulinks" where
  "upd_ulink l f s = s(l := map_option f (s l))"

definition uh_op_key_hash :: "bytes \<Rightarrow> u32" where
  "uh_op_key_hash key = daos_hash_string_u32 key"

definition uh_op_key_cmp :: "ulinks \<Rightarrow> rid \<Rightarrow> bytes \<Rightarrow> bool" where
  "uh_op_key_cmp s l key = (case s l of None \<Rightarrow> False | Some u \<Rightarrow> ul_uuid u = key)"

definition uh_op_rec_free :: "rid \<Rightarrow> ulinks \<Rightarrow> ulinks" where
  "uh_op_rec_free l s = (case s l of Some u \<Rightarrow> if ul_free u then s(l := None) else s | None \<Rightarrow> s)"

text \<open>The functions that count references are those of handles, on the link that both share.\<close>

definition rlink_op_addref :: "rid \<Rightarrow> ulinks \<Rightarrow> ulinks" where
  "rlink_op_addref l s = upd_ulink l (\<lambda>u. u\<lparr>ul_ref := ul_ref u + 1\<rparr>) s"

definition rlink_op_decref :: "rid \<Rightarrow> ulinks \<Rightarrow> (bool \<times> ulinks) option" where
  "rlink_op_decref l s =
     do {
       u \<leftarrow> s l;
       if ul_ref u = 0 then None else Some (ul_ref u - 1 = 0, upd_ulink l (\<lambda>u. u\<lparr>ul_ref := ul_ref u - 1\<rparr>) s)
     }"

definition uh_ops :: "ulinks dhash_ops" where
  "uh_ops = \<lparr>hop_key_init = None, hop_key_get = None, hop_key_hash = Some uh_op_key_hash, hop_key_cmp = uh_op_key_cmp,
     hop_rec_addref = Some rlink_op_addref, hop_rec_decref = Some rlink_op_decref, hop_rec_free = Some uh_op_rec_free\<rparr>"

definition daos_uhash_create :: "u32 \<Rightarrow> nat \<Rightarrow> dhash_table" where
  "daos_uhash_create feats bits = dhash_table_create_inplace feats bits"

definition daos_uhash_destroy :: "dhash_table \<Rightarrow> ulinks \<Rightarrow> ulinks option" where
  "daos_uhash_destroy uhtab s = map_option snd (dhash_table_destroy uh_ops uhtab s True)"

definition daos_uhash_ulink_init :: "rid \<Rightarrow> bool \<Rightarrow> ulinks \<Rightarrow> ulinks" where
  "daos_uhash_ulink_init l free s = upd_ulink l (\<lambda>u. u\<lparr>ul_free := free, ul_initialized := True, ul_ref := 1\<rparr>) s"

definition daos_uhash_link_empty :: "dhash_table \<Rightarrow> ulinks \<Rightarrow> rid \<Rightarrow> bool option" where
  "daos_uhash_link_empty uhtab s l =
     do {
       u \<leftarrow> s l;
       if \<not> ul_initialized u then Some True
       else if ul_ref u = 0 \<and> \<not> dhash_rec_unlinked uhtab l then None
       else Some (dhash_rec_unlinked uhtab l)
     }"

definition daos_uhash_link_lookup :: "dhash_table \<Rightarrow> ulinks \<Rightarrow> bytes \<Rightarrow> rid option \<times> ulinks" where
  "daos_uhash_link_lookup uhtab s key = dhash_rec_find uh_ops uhtab s key"

definition daos_uhash_link_addref :: "ulinks \<Rightarrow> rid \<Rightarrow> ulinks" where
  "daos_uhash_link_addref s l = dhash_rec_addref uh_ops l s"

definition daos_uhash_link_decref :: "dhash_table \<Rightarrow> ulinks \<Rightarrow> rid \<Rightarrow> ulinks option" where
  "daos_uhash_link_decref uhtab s l = dhash_rec_decref uh_ops uhtab s l"

definition daos_uhash_link_insert :: "dhash_table \<Rightarrow> ulinks \<Rightarrow> bytes \<Rightarrow> rid \<Rightarrow> (der option \<times> dhash_table \<times> ulinks) option" where
  "daos_uhash_link_insert uhtab s key l =
     do {
       u \<leftarrow> s l;
       if \<not> ul_initialized u then None
       else dhash_rec_insert uh_ops uhtab (upd_ulink l (\<lambda>u. u\<lparr>ul_uuid := key\<rparr>) s) key l True
     }"

definition daos_uhash_link_delete :: "dhash_table \<Rightarrow> ulinks \<Rightarrow> rid \<Rightarrow> (dhash_table \<times> ulinks) option" where
  "daos_uhash_link_delete uhtab s l = map_option snd (dhash_rec_delete_at uh_ops uhtab s l)"

end
