(* ===== verification/Lru.thy ===== *)
theory Lru
  imports Dhash
begin

text \<open>
  The cache of \<^verbatim>\<open>src/common/lru.c\<close> and \<^verbatim>\<open>src/include/daos/lru.h\<close>: items found by key in a hash table, which are
  busy while a user holds them and idle after that, until the least recently released ones are evicted.
  Definitions only.

  What an item holds and how its key is compared is up to the user of the cache: \<open>'a\<close> and the functions
  of \<open>lru_user\<close> are parameters. An item is named by its address; a new item gets an address that is free.
  \<open>None\<close> is a failed assertion or an access to an item that is freed.
\<close>

record 'a daos_llink =
  ll_ref :: nat
  ll_evicted :: bool
  ll_item :: 'a

type_synonym 'a llinks = "rid \<Rightarrow> 'a daos_llink option"

record 'a daos_lru_cache =
  dlc_csize :: nat
  dlc_idle_nr :: nat
  dlc_busy_nr :: nat
  dlc_idle_list :: "rid list"
  dlc_busy_list :: "rid list"
  dlc_htable :: dhash_table
  dlc_links :: "'a llinks"

text \<open>Creating an item may itself use the cache.\<close>

record ('a, 'b) lru_user =
  lop_cmp_keys :: "bytes \<Rightarrow> 'a \<Rightarrow> bool"
  lop_alloc_ref :: "bytes \<Rightarrow> 'b \<Rightarrow> 'a daos_lru_cache \<Rightarrow> ('a res \<times> 'a daos_lru_cache) option"

section \<open>Member functions of the hash table\<close>

definition upd_llink :: "rid \<Rightarrow> ('a daos_llink \<Rightarrow> 'a daos_llink) \<Rightarrow> 'a llinks \<Rightarrow> 'a llinks" where
  "upd_llink l f s = s(l := map_option f (s l))"

definition lru_hop_rec_addref :: "rid \<Rightarrow> 'a llinks \<Rightarrow> 'a llinks" where
  "lru_hop_rec_addref rlink s = upd_llink rlink (\<lambda>k. k\<lparr>ll_ref := ll_ref k + 1\<rparr>) s"

definition lru_hop_rec_decref :: "rid \<Rightarrow> 'a llinks \<Rightarrow> (bool \<times> 'a llinks) option" where
  "lru_hop_rec_decref rlink s =
     do {
       k \<leftarrow> s rlink;
       if ll_ref k = 0 then None
       else Some (ll_ref k - 1 = 0, upd_llink rlink (\<lambda>k. k\<lparr>ll_ref := ll_ref k - 1\<rparr>) s)
     }"

definition lru_hop_key_cmp :: "('a, 'b) lru_user \<Rightarrow> 'a llinks \<Rightarrow> rid \<Rightarrow> bytes \<Rightarrow> bool" where
  "lru_hop_key_cmp user s rlink key =
     (case s rlink of None \<Rightarrow> False | Some k \<Rightarrow> if ll_evicted k then False else lop_cmp_keys user key (ll_item k))"

definition lru_hop_rec_free :: "rid \<Rightarrow> 'a llinks \<Rightarrow> 'a llinks" where
  "lru_hop_rec_free rlink s = s(rlink := None)"

definition lru_ops :: "('a, 'b) lru_user \<Rightarrow> 'a llinks dhash_ops" where
  "lru_ops user = \<lparr>hop_key_init = None, hop_key_get = None, hop_key_hash = None, hop_key_cmp = lru_hop_key_cmp user,
     hop_rec_addref = Some lru_hop_rec_addref, hop_rec_decref = Some lru_hop_rec_decref,
     hop_rec_free = Some lru_hop_rec_free\<rparr>"

section \<open>The cache\<close>

definition daos_lru_cache_create :: "int \<Rightarrow> u32 \<Rightarrow> 'a daos_lru_cache" where
  "daos_lru_cache_create bits feats =
     \<lparr>dlc_csize = (if bits \<ge> 0 then 2 ^ nat bits else 0), dlc_idle_nr = 0, dlc_busy_nr = 0, dlc_idle_list = [],
      dlc_busy_list = [], dlc_htable = dhash_table_create_inplace feats (nat (max 4 (bits - 3))), dlc_links = (\<lambda>l. None)\<rparr>"

definition daos_lru_cache_destroy :: "('a, 'b) lru_user \<Rightarrow> 'a daos_lru_cache \<Rightarrow> 'a llinks option" where
  "daos_lru_cache_destroy user lcache =
     (if dlc_busy_nr lcache \<noteq> 0 then None
      else map_option (snd \<circ> snd) (dhash_table_destroy_inplace (lru_ops user) (dlc_htable lcache) (dlc_links lcache) True))"

definition daos_lru_ref_evict :: "rid \<Rightarrow> 'a daos_lru_cache \<Rightarrow> 'a daos_lru_cache" where
  "daos_lru_ref_evict l lcache = lcache\<lparr>dlc_links := upd_llink l (\<lambda>k. k\<lparr>ll_evicted := True\<rparr>) (dlc_links lcache)\<rparr>"

definition daos_lru_ref_evicted :: "'a daos_lru_cache \<Rightarrow> rid \<Rightarrow> bool option" where
  "daos_lru_ref_evicted lcache l = map_option ll_evicted (dlc_links lcache l)"

text \<open>Deleting an item from the table, which frees it with its last reference.\<close>

definition lru_delete :: "('a, 'b) lru_user \<Rightarrow> rid \<Rightarrow> 'a daos_lru_cache \<Rightarrow> 'a daos_lru_cache option" where
  "lru_delete user l lcache =
     do {
       (deleted, htable, links) \<leftarrow> dhash_rec_delete_at (lru_ops user) (dlc_htable lcache) (dlc_links lcache) l;
       Some (lcache\<lparr>dlc_htable := htable, dlc_links := links\<rparr>)
     }"

fun evict_busy :: "('a \<Rightarrow> bool) option \<Rightarrow> rid list \<Rightarrow> 'a daos_lru_cache \<Rightarrow> 'a daos_lru_cache option" where
  "evict_busy cond [] lcache = Some lcache"
| "evict_busy cond (l # ls) lcache =
     do {
       k \<leftarrow> dlc_links lcache l;
       evict_busy cond ls
         (if cond = None \<or> the cond (ll_item k) then daos_lru_ref_evict l lcache else lcache)
     }"

fun evict_idle :: "('a, 'b) lru_user \<Rightarrow> ('a \<Rightarrow> bool) option \<Rightarrow> rid list \<Rightarrow> 'a daos_lru_cache \<Rightarrow> 'a daos_lru_cache option" where
  "evict_idle user cond [] lcache = Some lcache"
| "evict_idle user cond (l # ls) lcache =
     do {
       k \<leftarrow> dlc_links lcache l;
       lcache1 \<leftarrow>
         (if cond = None \<or> the cond (ll_item k)
          then do {
            lc \<leftarrow> lru_delete user l (lcache\<lparr>dlc_idle_list := remove1 l (dlc_idle_list lcache)\<rparr>);
            Some (lc\<lparr>dlc_idle_nr := dlc_idle_nr lc - 1\<rparr>)
          }
          else Some lcache);
       evict_idle user cond ls lcache1
     }"

definition daos_lru_cache_evict :: "('a, 'b) lru_user \<Rightarrow> ('a \<Rightarrow> bool) option \<Rightarrow> 'a daos_lru_cache \<Rightarrow> 'a daos_lru_cache option" where
  "daos_lru_cache_evict user cond lcache =
     do {
       lcache1 \<leftarrow> evict_busy cond (dlc_busy_list lcache) lcache;
       evict_idle user cond (dlc_idle_list lcache1) lcache1
     }"

text \<open>
  Holding an item. The first item of the busy list and of the idle list are tried before the table. The
  result \<open>None\<close> within the option is that nothing was found.
\<close>

definition lru_fast_search :: "('a, 'b) lru_user \<Rightarrow> rid list \<Rightarrow> bytes \<Rightarrow> 'a daos_lru_cache \<Rightarrow> (rid option \<times> 'a daos_lru_cache) option" where
  "lru_fast_search user head key lcache =
     (case head of
        [] \<Rightarrow> Some (None, lcache)
      | l # _ \<Rightarrow>
          do {
            k \<leftarrow> dlc_links lcache l;
            if ll_evicted k then Some (None, lcache)
            else if lop_cmp_keys user key (ll_item k)
            then Some (Some l, lcache\<lparr>dlc_links := upd_llink l (\<lambda>k. k\<lparr>ll_ref := ll_ref k + 1\<rparr>) (dlc_links lcache)\<rparr>)
            else Some (None, lcache)
          })"

definition lru_hash_search :: "('a, 'b) lru_user \<Rightarrow> bytes \<Rightarrow> 'a daos_lru_cache \<Rightarrow> rid option \<times> 'a daos_lru_cache" where
  "lru_hash_search user key lcache =
     (let (r, links) = dhash_rec_find (lru_ops user) (dlc_htable lcache) (dlc_links lcache) key
      in (r, lcache\<lparr>dlc_links := links\<rparr>))"

definition lru_mark_busy :: "rid \<Rightarrow> 'a daos_lru_cache \<Rightarrow> 'a daos_lru_cache" where
  "lru_mark_busy l lcache =
     (let lc = (if l \<notin> set (dlc_idle_list lcache) \<and> l \<notin> set (dlc_busy_list lcache) then lcache
                else lcache\<lparr>dlc_idle_nr := dlc_idle_nr lcache - 1, dlc_idle_list := remove1 l (dlc_idle_list lcache),
                            dlc_busy_list := remove1 l (dlc_busy_list lcache)\<rparr>)
      in lc\<lparr>dlc_busy_list := l # dlc_busy_list lc, dlc_busy_nr := dlc_busy_nr lc + 1\<rparr>)"

text \<open>A new item; the caller and the table each have a reference.\<close>

definition lru_new :: "('a, 'b) lru_user \<Rightarrow> bytes \<Rightarrow> 'b \<Rightarrow> rid \<Rightarrow> 'a daos_lru_cache \<Rightarrow> (rid res \<times> 'a daos_lru_cache) option" where
  "lru_new user key create_args new lcache =
     do {
       (r, lc) \<leftarrow> lop_alloc_ref user key create_args lcache;
       case r of
         Inl e \<Rightarrow> Some (Inl e, lc)
       | Inr item \<Rightarrow>
           do {
             let links = (dlc_links lc)(new \<mapsto> \<lparr>ll_ref = 1, ll_evicted = False, ll_item = item\<rparr>);
             (rc, htable, links1) \<leftarrow> dhash_rec_insert (lru_ops user) (dlc_htable lc) links key new True;
             if rc \<noteq> None then None else Some (Inr new, lc\<lparr>dlc_htable := htable, dlc_links := links1\<rparr>)
           }
     }"

definition lru_search :: "('a, 'b) lru_user \<Rightarrow> bytes \<Rightarrow> 'a daos_lru_cache \<Rightarrow> (rid option \<times> 'a daos_lru_cache) option" where
  "lru_search user key lcache =
     do {
       (r1, lc1) \<leftarrow> lru_fast_search user (dlc_busy_list lcache) key lcache;
       if r1 \<noteq> None then Some (r1, lc1)
       else do {
         (r2, lc2) \<leftarrow> lru_fast_search user (dlc_idle_list lc1) key lc1;
         if r2 \<noteq> None then Some (r2, lc2) else Some (lru_hash_search user key lc2)
       }
     }"

definition lru_found :: "rid \<Rightarrow> 'a daos_lru_cache \<Rightarrow> (rid res \<times> 'a daos_lru_cache) option" where
  "lru_found l lcache =
     do {
       k \<leftarrow> dlc_links lcache l;
       Some (Inr l, if ll_ref k = 2 then lru_mark_busy l lcache else lcache)
     }"

definition daos_lru_ref_hold :: "('a, 'b) lru_user \<Rightarrow> bytes \<Rightarrow> 'b option \<Rightarrow> rid \<Rightarrow> 'a daos_lru_cache \<Rightarrow>
    (rid res \<times> 'a daos_lru_cache) option" where
  "daos_lru_ref_hold user key create_args new lcache =
     (if key = [] then None
      else do {
        (r, lc) \<leftarrow> lru_search user key lcache;
        case r of
          Some l \<Rightarrow> lru_found l lc
        | None \<Rightarrow>
            (case create_args of
               None \<Rightarrow> Some (Inl DER_NONEXIST, lc)
             | Some args \<Rightarrow>
                 do {
                   (r1, lc1) \<leftarrow> lru_new user key args new lc;
                   case r1 of Inl e \<Rightarrow> Some (Inl e, lc1) | Inr l \<Rightarrow> lru_found l lc1
                 })
      })"

text \<open>
  Releasing an item. The loop that evicts idle items ends since each turn takes one off the idle list.
\<close>

definition lru_evict_last :: "('a, 'b) lru_user \<Rightarrow> 'a daos_lru_cache \<Rightarrow> 'a daos_lru_cache option" where
  "lru_evict_last user lcache =
     (if dlc_idle_list lcache = [] then None
      else do {
        let l = last (dlc_idle_list lcache);
        lc \<leftarrow> lru_delete user l (lcache\<lparr>dlc_idle_list := butlast (dlc_idle_list lcache)\<rparr>);
        Some (lc\<lparr>dlc_idle_nr := dlc_idle_nr lc - 1\<rparr>)
      })"

partial_function (option) evict_loop :: "('a, 'b) lru_user \<Rightarrow> 'a daos_lru_cache \<Rightarrow> 'a daos_lru_cache option" where
  "evict_loop user lcache =
     (if dlc_idle_nr lcache \<noteq> 0 \<and> dlc_busy_nr lcache + dlc_idle_nr lcache \<ge> dlc_csize lcache
      then do { lc \<leftarrow> lru_evict_last user lcache; evict_loop user lc }
      else Some lcache)"

declare evict_loop.simps [code]

definition daos_lru_ref_release :: "('a, 'b) lru_user \<Rightarrow> rid \<Rightarrow> 'a daos_lru_cache \<Rightarrow> 'a daos_lru_cache option" where
  "daos_lru_ref_release user l lcache =
     do {
       k \<leftarrow> dlc_links lcache l;
       if \<not> ll_ref k > 1 then None
       else do {
         let lc = lcache\<lparr>dlc_links := upd_llink l (\<lambda>k. k\<lparr>ll_ref := ll_ref k - 1\<rparr>) (dlc_links lcache)\<rparr>;
         lc1 \<leftarrow>
           (if ll_ref k - 1 = 1
            then if dlc_busy_nr lc = 0 then None
              else (let lc' = lc\<lparr>dlc_busy_nr := dlc_busy_nr lc - 1, dlc_busy_list := remove1 l (dlc_busy_list lc),
                                 dlc_idle_list := remove1 l (dlc_idle_list lc)\<rparr>
                    in if ll_evicted k then lru_delete user l lc'
                       else Some (lc'\<lparr>dlc_idle_nr := dlc_idle_nr lc' + 1, dlc_idle_list := l # dlc_idle_list lc'\<rparr>))
            else Some lc);
         evict_loop user lc1
       }
     }"

end
