(* ===== verification/Dhash_Props.thy ===== *)
theory Dhash_Props
  imports Dhash
begin

text \<open>
  What a hash table promises, given that its member functions agree on the keys of records: a search finds
  a linked record with the key if there is one. The tables of handles and of UUIDs are such tables.
\<close>

unbundle bit_operations_syntax

definition linked :: "dhash_table \<Rightarrow> rid set" where
  "linked t = set (concat (ht_buckets t))"

lemma linked_iff: "r \<in> linked t \<longleftrightarrow> \<not> dhash_rec_unlinked t r"
  by (auto simp: linked_def dhash_rec_unlinked_def)

definition shape_ok :: "dhash_table \<Rightarrow> bool" where
  "shape_ok t \<longleftrightarrow> ht_bits t < 32 \<and> length (ht_buckets t) = 2 ^ ht_bits t \<and> distinct (concat (ht_buckets t))"

lemma dh_key_hash_less: "ht_bits t < 32 \<Longrightarrow> dh_key_hash ops t key < 2 ^ ht_bits t"
proof -
  assume "ht_bits t < 32"
  have "unat (w AND (push_bit n 1 - 1)) < 2 ^ n" for w :: u32 and n
  proof -
    have "w AND (push_bit n 1 - 1) = take_bit n w"
      by (simp add: take_bit_eq_mask mask_eq_exp_minus_1 push_bit_of_1)
    then show ?thesis by (simp add: unsigned_take_bit_eq)
  qed
  then show ?thesis by (simp add: dh_key_hash_def Let_def)
qed

lemma dh_key_hash_cong [simp]:
  "dh_key_hash ops (dh_rec_insert t i r) = dh_key_hash ops t" "dh_key_hash ops (dh_rec_delete t r) = dh_key_hash ops t"
  by (auto simp: dh_key_hash_def dh_rec_insert_def dh_rec_delete_def fun_eq_iff)

lemma shape_okD: "shape_ok t \<Longrightarrow> b \<in> set (ht_buckets t) \<Longrightarrow> distinct b"
  by (simp add: shape_ok_def distinct_concat_iff)

lemma distinct_concat_remove1: "distinct (concat bs) \<Longrightarrow> distinct (concat (map (remove1 r) bs))"
proof (induction bs)
  case (Cons b bs)
  have "set (concat (map (remove1 r) bs)) \<subseteq> set (concat bs)" using set_remove1_subset by fastforce
  then show ?case using Cons set_remove1_subset[of r b] by auto
qed simp

lemma shape_ok_delete: "shape_ok t \<Longrightarrow> shape_ok (dh_rec_delete t r)"
  by (simp add: shape_ok_def dh_rec_delete_def distinct_concat_remove1)

lemma linked_delete: "shape_ok t \<Longrightarrow> linked (dh_rec_delete t r) = linked t - {r}"
  using shape_okD[of t] by (auto simp: linked_def dh_rec_delete_def)

lemma mset_concat_insert: "i < length bs \<Longrightarrow> mset (concat (bs[i := r # bs ! i])) = add_mset r (mset (concat bs))"
  by (induction bs arbitrary: i) (auto split: nat.splits)

lemma shape_ok_insert:
  assumes "shape_ok t" "i < 2 ^ ht_bits t" "r \<notin> linked t"
  shows "shape_ok (dh_rec_insert t i r)" "linked (dh_rec_insert t i r) = insert r (linked t)"
proof -
  have m: "mset (concat (ht_buckets (dh_rec_insert t i r))) = mset (r # concat (ht_buckets t))"
    using mset_concat_insert[of i "ht_buckets t" r] assms by (simp add: dh_rec_insert_def shape_ok_def)
  then have "distinct (concat (ht_buckets (dh_rec_insert t i r)))"
    using assms mset_eq_imp_distinct_iff[OF m] by (simp add: linked_def shape_ok_def)
  then show "shape_ok (dh_rec_insert t i r)" using assms by (simp add: shape_ok_def dh_rec_insert_def)
  show "linked (dh_rec_insert t i r) = insert r (linked t)"
    using arg_cong[OF m, of set_mset] by (simp add: linked_def)
qed

section \<open>The contract of a table\<close>

definition table_ok :: "'s dhash_ops \<Rightarrow> ('s \<Rightarrow> rid \<Rightarrow> bytes option) \<Rightarrow> dhash_table \<Rightarrow> 's \<Rightarrow> bool" where
  "table_ok ops key_of t s \<longleftrightarrow> shape_ok t \<and>
     (\<forall>i < length (ht_buckets t). \<forall>r \<in> set (ht_buckets t ! i). \<forall>key. key_of s r = Some key \<longrightarrow> dh_key_hash ops t key = i)"

lemma linked_bucket: "r \<in> linked t \<longleftrightarrow> (\<exists>i < length (ht_buckets t). r \<in> set (ht_buckets t ! i))"
  unfolding linked_def set_concat set_conv_nth[of "ht_buckets t"] by auto

locale dhash_laws =
  fixes ops :: "'s dhash_ops" and key_of :: "'s \<Rightarrow> rid \<Rightarrow> bytes option"
  assumes cmp: "hop_key_cmp ops s r key \<longleftrightarrow> key_of s r = Some key"
    and addref_key: "key_of (dh_rec_addref ops r s) u = key_of s u"
    and decref_key: "dh_rec_decref ops r s = Some (zombie, s') \<Longrightarrow> key_of s' u = key_of s u"
    and free_key: "u \<noteq> r \<Longrightarrow> key_of (dh_rec_free ops r s) u = key_of s u"
begin

lemma bucket_of:
  assumes "table_ok ops key_of t s" "r \<in> linked t" "key_of s r = Some key"
  shows "r \<in> set (ht_buckets t ! dh_key_hash ops t key)"
proof -
  obtain i where "i < length (ht_buckets t)" "r \<in> set (ht_buckets t ! i)"
    using assms(2) unfolding linked_bucket by blast
  then show ?thesis using assms by (auto simp: table_ok_def)
qed

lemma find_Some:
  assumes "table_ok ops key_of t s" "dh_rec_find ops t s (dh_key_hash ops t key) key = Some r"
  shows "r \<in> linked t" "key_of s r = Some key"
proof -
  have "dh_key_hash ops t key < length (ht_buckets t)"
    using assms(1) dh_key_hash_less[of t ops key] by (simp add: table_ok_def shape_ok_def)
  then show "r \<in> linked t" "key_of s r = Some key"
    using assms(2) by (auto simp: dh_rec_find_def find_Some_iff cmp linked_def intro!: nth_mem bexI)
qed

lemma find_None:
  assumes "table_ok ops key_of t s"
  shows "dh_rec_find ops t s (dh_key_hash ops t key) key = None \<longleftrightarrow> (\<forall>r \<in> linked t. key_of s r \<noteq> Some key)"
proof
  assume n: "dh_rec_find ops t s (dh_key_hash ops t key) key = None"
  show "\<forall>r \<in> linked t. key_of s r \<noteq> Some key"
  proof
    fix r
    assume "r \<in> linked t"
    then show "key_of s r \<noteq> Some key"
      using bucket_of[OF assms, of r key] n by (auto simp: dh_rec_find_def find_None_iff cmp)
  qed
next
  assume a: "\<forall>r \<in> linked t. key_of s r \<noteq> Some key"
  show "dh_rec_find ops t s (dh_key_hash ops t key) key = None"
  proof (cases "dh_rec_find ops t s (dh_key_hash ops t key) key")
    case (Some r)
    then show ?thesis using find_Some[OF assms Some] a by blast
  qed
qed

lemma table_ok_state:
  assumes "table_ok ops key_of t s" "\<And>r. r \<in> linked t \<Longrightarrow> key_of s' r = key_of s r \<or> key_of s' r = None"
  shows "table_ok ops key_of t s'"
  using assms unfolding table_ok_def linked_def by (fastforce simp: in_set_conv_nth)

lemma table_ok_insert:
  assumes "table_ok ops key_of t s" "r \<notin> linked t" "key_of s r = Some key"
  shows "table_ok ops key_of (dh_rec_insert t (dh_key_hash ops t key) r) s"
    "linked (dh_rec_insert t (dh_key_hash ops t key) r) = insert r (linked t)"
proof -
  have h: "dh_key_hash ops t key < 2 ^ ht_bits t" "shape_ok t"
    using assms(1) dh_key_hash_less[of t ops key] by (simp_all add: table_ok_def shape_ok_def)
  note sh = shape_ok_insert[OF h(2,1) assms(2)]
  show "linked (dh_rec_insert t (dh_key_hash ops t key) r) = insert r (linked t)" by (rule sh(2))
  show "table_ok ops key_of (dh_rec_insert t (dh_key_hash ops t key) r) s"
    using assms h sh(1) unfolding table_ok_def
    by (auto simp: dh_rec_insert_def shape_ok_def nth_list_update dh_key_hash_cong[unfolded dh_rec_insert_def] split: if_splits)
qed

lemma table_ok_delete:
  assumes "table_ok ops key_of t s"
  shows "table_ok ops key_of (dh_rec_delete t r) s" "linked (dh_rec_delete t r) = linked t - {r}"
proof -
  have "set (remove1 r b) \<subseteq> set b" for b by (rule set_remove1_subset)
  then show "table_ok ops key_of (dh_rec_delete t r) s"
    using assms shape_ok_delete[of t r] unfolding table_ok_def dh_key_hash_cong
    by (simp add: dh_rec_delete_def) blast
  show "linked (dh_rec_delete t r) = linked t - {r}"
    using assms linked_delete[of t r] by (simp add: table_ok_def)
qed

lemma table_ok_new: "bits < 32 \<Longrightarrow> table_ok ops key_of (dhash_table_create_inplace feats bits) s"
  by (simp add: table_ok_def dhash_table_create_inplace_def shape_ok_def)

text \<open>Inserting, deleting and looking up.\<close>

lemma rec_find:
  assumes "table_ok ops key_of t s"
  shows "case dhash_rec_find ops t s key of
      (None, s') \<Rightarrow> s' = s \<and> (\<forall>r \<in> linked t. key_of s r \<noteq> Some key)
    | (Some r, s') \<Rightarrow> s' = dh_rec_addref ops r s \<and> r \<in> linked t \<and> key_of s r = Some key"
  using find_Some[OF assms, of key] find_None[OF assms, of key] by (auto simp: dhash_rec_find_def split: option.splits)

lemma rec_delete_at:
  assumes "table_ok ops key_of t s" "r \<in> linked t" "dh_rec_decref ops r s = Some (zombie, s')"
  shows "dhash_rec_delete_at ops t s r = Some (True, dh_rec_delete t r, if zombie then dh_rec_free ops r s' else s')"
    "table_ok ops key_of (dh_rec_delete t r) (if zombie then dh_rec_free ops r s' else s')"
proof -
  show "dhash_rec_delete_at ops t s r = Some (True, dh_rec_delete t r, if zombie then dh_rec_free ops r s' else s')"
    using assms by (simp add: dhash_rec_delete_at_def delete_rec_def linked_iff)
  show "table_ok ops key_of (dh_rec_delete t r) (if zombie then dh_rec_free ops r s' else s')"
    by (rule table_ok_state[OF table_ok_delete(1)[OF assms(1)]])
      (use table_ok_delete(2)[OF assms(1)] free_key decref_key[OF assms(3)] in auto)
qed

end

section \<open>Handles and UUIDs\<close>

definition hh_key :: "daos_hhash \<Rightarrow> rid \<Rightarrow> bytes option" where
  "hh_key s l = map_option (\<lambda>h. u64_bytes (hl_key h)) (dh_links s l)"

definition uh_key :: "ulinks \<Rightarrow> rid \<Rightarrow> bytes option" where
  "uh_key s l = map_option ul_uuid (s l)"

interpretation hh: dhash_laws hh_ops hh_key
proof
  show "hop_key_cmp hh_ops s r key \<longleftrightarrow> hh_key s r = Some key" for s r key
    by (auto simp: hh_ops_def hh_op_key_cmp_def hh_key_def u64_bytes_bytes_u64 split: option.splits)
  show "hh_key (dh_rec_addref hh_ops r s) u = hh_key s u" for r s u
    by (auto simp: hh_ops_def dh_rec_addref_def hh_op_rec_addref_def upd_hlink_def hh_key_def option.map_comp comp_def)
  show "dh_rec_decref hh_ops r s = Some (zombie, s') \<Longrightarrow> hh_key s' u = hh_key s u" for r s zombie s' u
    by (auto simp: hh_ops_def dh_rec_decref_def hh_op_rec_decref_def upd_hlink_def hh_key_def bind_eq_Some_conv split: if_splits)
  show "u \<noteq> r \<Longrightarrow> hh_key (dh_rec_free hh_ops r s) u = hh_key s u" for u r s
    by (auto simp: hh_ops_def dh_rec_free_def hh_op_rec_free_def hh_key_def split: option.splits)
qed

interpretation uh: dhash_laws uh_ops uh_key
proof
  show "hop_key_cmp uh_ops s r key \<longleftrightarrow> uh_key s r = Some key" for s r key
    by (auto simp: uh_ops_def uh_op_key_cmp_def uh_key_def split: option.splits)
  show "uh_key (dh_rec_addref uh_ops r s) u = uh_key s u" for r s u
    by (auto simp: uh_ops_def dh_rec_addref_def rlink_op_addref_def upd_ulink_def uh_key_def option.map_comp comp_def)
  show "dh_rec_decref uh_ops r s = Some (zombie, s') \<Longrightarrow> uh_key s' u = uh_key s u" for r s zombie s' u
    by (auto simp: uh_ops_def dh_rec_decref_def rlink_op_decref_def upd_ulink_def uh_key_def bind_eq_Some_conv split: if_splits)
  show "u \<noteq> r \<Longrightarrow> uh_key (dh_rec_free uh_ops r s) u = uh_key s u" for u r s
    by (auto simp: uh_ops_def dh_rec_free_def uh_op_rec_free_def uh_key_def split: option.splits)
qed

text \<open>
  The keys of handles in use come from smaller values of the counter than the next one, and differ.
\<close>

definition hh_inv :: "dhash_table \<Rightarrow> daos_hhash \<Rightarrow> bool" where
  "hh_inv t s \<longleftrightarrow> table_ok hh_ops hh_key t s \<and>
     (\<forall>l \<in> linked t. \<exists>h. dh_links s l = Some h \<and> drop_bit DAOS_HTYPE_BITS (hl_key h) < dh_cookie s) \<and>
     inj_on (hh_key s) (linked t)"

lemma hh_lookup:
  assumes "hh_inv t s"
  shows "fst (daos_hhash_link_lookup t s key) = Some l \<longleftrightarrow> l \<in> linked t \<and> hh_key s l = Some (u64_bytes key)"
proof -
  have "table_ok hh_ops hh_key t s" using assms by (simp add: hh_inv_def)
  from hh.rec_find[OF this, of "u64_bytes key"] show ?thesis
    using assms unfolding daos_hhash_link_lookup_def hh_inv_def
    by (auto split: prod.splits option.splits simp: inj_on_def)
qed

lemma key_parts:
  fixes c ty :: u64
  assumes "c < 2 ^ 61" "ty < 8"
  shows "drop_bit 3 (push_bit 3 c OR ty) = c" "(push_bit 3 c OR ty) AND 7 = ty"
proof -
  have t: "take_bit 61 c = c" "take_bit 3 ty = ty"
    using assms by (simp_all add: word_unat_eq_iff unsigned_take_bit_eq take_bit_nat_eq_self word_less_nat_alt)
  have "drop_bit 3 (push_bit 3 (take_bit 61 c) OR take_bit 3 ty) = take_bit 61 c"
    by (rule bit_word_eqI) (auto simp: bit_simps)
  then show "drop_bit 3 (push_bit 3 c OR ty) = c" by (simp only: t)
  have m: "7 = (mask 3 :: u64)" by (simp add: mask_eq_exp_minus_1)
  have "(push_bit 3 (take_bit 61 c) OR take_bit 3 ty) AND mask 3 = take_bit 3 ty"
    by (rule bit_word_eqI) (auto simp: bit_simps)
  then show "(push_bit 3 c OR ty) AND 7 = ty" by (simp only: t m)
qed

lemma option_ext: "(\<And>u. x = Some u \<longleftrightarrow> y = Some u) \<Longrightarrow> x = y"
  by (cases x; cases y) auto

lemma hh_inv_new: "bits < 32 \<Longrightarrow> hh_inv (fst (daos_hhash_create bits links)) (snd (daos_hhash_create bits links))"
  using hh.table_ok_new[of bits] by (simp add: daos_hhash_create_def hh_inv_def linked_def dhash_table_create_inplace_def)

lemma hh_inv_delete:
  assumes "hh_inv t s" "daos_hhash_link_delete t s l = Some (deleted, t', s')"
  shows "hh_inv t' s'"
proof (cases "l \<in> linked t")
  case True
  then obtain zombie s1 where d: "dh_rec_decref hh_ops l s = Some (zombie, s1)"
    using assms(2) by (auto simp: daos_hhash_link_delete_def dhash_rec_delete_at_def delete_rec_def linked_iff bind_eq_Some_conv)
  have ok: "table_ok hh_ops hh_key t s" using assms(1) by (simp add: hh_inv_def)
  note r = hh.rec_delete_at[OF ok True d]
  have t': "t' = dh_rec_delete t l" and s': "s' = (if zombie then dh_rec_free hh_ops l s1 else s1)"
    using r(1) assms(2) by (auto simp: daos_hhash_link_delete_def)
  have k: "dh_links s' u = dh_links s u" if "u \<noteq> l" for u
    using d that by (auto simp: s' hh_ops_def dh_rec_decref_def hh_op_rec_decref_def upd_hlink_def dh_rec_free_def
        hh_op_rec_free_def bind_eq_Some_conv split: if_splits option.splits)
  have c: "dh_cookie s' = dh_cookie s"
    using d by (auto simp: s' hh_ops_def dh_rec_decref_def hh_op_rec_decref_def upd_hlink_def dh_rec_free_def
        hh_op_rec_free_def bind_eq_Some_conv split: if_splits option.splits)
  have lk: "linked t' = linked t - {l}" using hh.table_ok_delete(2)[OF ok] t' by simp
  have "inj_on (hh_key s') (linked t')"
    using assms(1) k lk by (auto simp: hh_inv_def inj_on_def hh_key_def)
  then show ?thesis
    using assms(1) r(2) t' s' k c lk by (auto simp: hh_inv_def)
next
  case False
  then show ?thesis
    using assms by (auto simp: daos_hhash_link_delete_def dhash_rec_delete_at_def linked_iff)
qed

lemma hh_inv_insert:
  assumes inv: "hh_inv t s" and l: "l \<notin> linked t" "dh_links s l = Some h" "hl_initialized h"
    and c: "dh_cookie s < 2 ^ 61" "type < 8"
  defines "key \<equiv> push_bit 3 (dh_cookie s) OR type"
  shows "\<exists>t' s'. daos_hhash_link_insert t s l type = Some (t', s') \<and> hh_inv t' s' \<and> linked t' = insert l (linked t) \<and>
    dh_links s' = (dh_links s)(l \<mapsto> h\<lparr>hl_key := key, hl_ref := hl_ref h + 1\<rparr>)"
proof -
  let ?s1 = "hh_op_key_init l type s"
  let ?s = "dh_rec_addref hh_ops l ?s1"
  let ?t = "dh_rec_insert t (dh_key_hash hh_ops t (u64_bytes key)) l"
  have ok: "table_ok hh_ops hh_key t s" using inv by (simp add: hh_inv_def)
  have links: "dh_links ?s = (dh_links s)(l \<mapsto> h\<lparr>hl_key := key, hl_ref := hl_ref h + 1\<rparr>)"
    using l(2) by (simp add: hh_ops_def dh_rec_addref_def hh_op_rec_addref_def hh_op_key_init_def upd_hlink_def key_def
        DAOS_HTYPE_BITS_def)
  have "table_ok hh_ops hh_key t ?s"
    by (rule hh.table_ok_state[OF ok]) (use l(1) links in \<open>auto simp: hh_key_def\<close>)
  moreover have kl: "hh_key ?s l = Some (u64_bytes key)" using links by (simp add: hh_key_def)
  ultimately have t: "table_ok hh_ops hh_key ?t ?s" "linked ?t = insert l (linked t)"
    using hh.table_ok_insert[OF _ l(1)] by blast+
  have cookie: "dh_cookie ?s = dh_cookie s + 1"
    by (simp add: hh_ops_def dh_rec_addref_def hh_op_rec_addref_def hh_op_key_init_def upd_hlink_def)
  have part: "drop_bit 3 key = dh_cookie s" using key_parts[OF c] by (simp add: key_def)
  have lt: "dh_cookie s < dh_cookie s + 1" "x < dh_cookie s \<Longrightarrow> x < dh_cookie s + 1" for x
  proof -
    have "unat (dh_cookie s + 1) = Suc (unat (dh_cookie s))"
      using c(1) by (simp add: unat_word_ariths word_less_nat_alt)
    then show "dh_cookie s < dh_cookie s + 1" "x < dh_cookie s \<Longrightarrow> x < dh_cookie s + 1"
      by (simp_all add: word_less_nat_alt)
  qed
  have ne: "hh_key s u \<noteq> Some (u64_bytes key)" if u: "u \<in> linked t" for u
  proof -
    obtain k where k: "dh_links s u = Some k" "drop_bit 3 (hl_key k) < dh_cookie s"
      using inv u by (auto simp: hh_inv_def DAOS_HTYPE_BITS_def)
    then have "hl_key k \<noteq> key" using part by auto
    then show ?thesis using k(1) by (simp add: hh_key_def)
  qed
  have same: "hh_key ?s u = hh_key s u" if "u \<in> linked t" for u
    using that l(1) links by (auto simp: hh_key_def)
  then have "inj_on (hh_key ?s) (linked t)" using inv inj_on_cong[of "linked t" "hh_key ?s" "hh_key s"] by (simp add: hh_inv_def)
  moreover have "hh_key ?s l \<notin> hh_key ?s ` linked t" unfolding kl using same ne by (metis imageE)
  ultimately have "inj_on (hh_key ?s) (linked ?t)" using l(1) unfolding t(2) by simp
  moreover have "\<exists>h. dh_links ?s u = Some h \<and> drop_bit DAOS_HTYPE_BITS (hl_key h) < dh_cookie ?s" if "u \<in> linked ?t" for u
    using that inv links part lt unfolding t(2) cookie hh_inv_def by (cases "u = l") (auto simp: DAOS_HTYPE_BITS_def)
  ultimately have "hh_inv ?t ?s" using t(1) by (auto simp: hh_inv_def)
  moreover have "daos_hhash_link_insert t s l type = Some (?t, ?s)"
    using l(2,3) by (simp add: daos_hhash_link_insert_def dhash_rec_insert_anonym_def hh_ops_def hh_op_key_get_def
        hh_op_key_init_def upd_hlink_def key_def DAOS_HTYPE_BITS_def Let_def)
  ultimately show ?thesis using t(2) links by blast
qed

section \<open>Properties\<close>

text \<open>
  C39. A handle is found by the key that it was given and by no other: inserting a record in a table of
  handles gives it a key that no handle has and that carries its type; looking up that key finds the record,
  and looking up any other key finds what it did before. This holds while fewer than 2 to the power of 61
  handles have been created.
\<close>

theorem hhash_insert_lookup:
  assumes "hh_inv t s" "l \<notin> linked t" "dh_links s l = Some h" "hl_initialized h" "dh_cookie s < 2 ^ 61" "type < 8"
  shows "\<exists>t' s' key. daos_hhash_link_insert t s l type = Some (t', s') \<and> hh_inv t' s' \<and>
    daos_hhash_link_key s' l = Some key \<and> daos_hhash_key_type key = type \<and> fst (daos_hhash_link_lookup t s key) = None \<and>
    (\<forall>k. fst (daos_hhash_link_lookup t' s' k) = (if k = key then Some l else fst (daos_hhash_link_lookup t s k)))"
proof -
  let ?key = "push_bit 3 (dh_cookie s) OR type"
  obtain t' s' where i: "daos_hhash_link_insert t s l type = Some (t', s')" "hh_inv t' s'" "linked t' = insert l (linked t)"
    "dh_links s' = (dh_links s)(l \<mapsto> h\<lparr>hl_key := ?key, hl_ref := hl_ref h + 1\<rparr>)"
    using hh_inv_insert[OF assms] by blast
  have part: "drop_bit 3 ?key = dh_cookie s" "?key AND 7 = type" using key_parts[OF assms(5,6)] by simp_all
  have none: "fst (daos_hhash_link_lookup t s ?key) \<noteq> Some u" for u
  proof
    assume "fst (daos_hhash_link_lookup t s ?key) = Some u"
    then have u: "u \<in> linked t" "hh_key s u = Some (u64_bytes ?key)" using hh_lookup[OF assms(1)] by blast+
    then obtain k where k: "dh_links s u = Some k" "drop_bit 3 (hl_key k) < dh_cookie s"
      using assms(1) by (auto simp: hh_inv_def DAOS_HTYPE_BITS_def)
    then show False using u(2) part(1) by (auto simp: hh_key_def)
  qed
  have lk: "fst (daos_hhash_link_lookup t' s' k) = Some u \<longleftrightarrow>
      (if k = ?key then u = l else fst (daos_hhash_link_lookup t s k) = Some u)" for k u
    using none[of u] assms(2) unfolding hh_lookup[OF i(2)] hh_lookup[OF assms(1)] i(3)
    by (auto simp: hh_key_def i(4))
  have "fst (daos_hhash_link_lookup t' s' k) = (if k = ?key then Some l else fst (daos_hhash_link_lookup t s k))" for k
    by (rule option_ext) (auto simp: lk)
  moreover have "daos_hhash_link_key s' l = Some ?key" "daos_hhash_key_type ?key = type"
    using i(4) part(2) by (simp_all add: daos_hhash_link_key_def daos_hhash_key_type_def hh_key_type_def DAOS_HTYPE_MASK_def
        DAOS_HTYPE_BITS_def)
  ultimately show ?thesis using i(1,2) none by (metis not_None_eq)
qed

theorem hhash_insert_lookup_witness:
  "\<exists>t s t' s' key. daos_hhash_create 4 [7 \<mapsto> \<lparr>hl_ref = 1, hl_initialized = True, hl_key = 0, hl_free = True\<rparr>] = (t, s) \<and>
    daos_hhash_link_insert t s 7 3 = Some (t', s') \<and> daos_hhash_key_type key = 3 \<and>
    fst (daos_hhash_link_lookup t s key) = None \<and> fst (daos_hhash_link_lookup t' s' key) = Some 7"
proof -
  let ?links = "[7 \<mapsto> \<lparr>hl_ref = 1, hl_initialized = True, hl_key = 0, hl_free = True\<rparr>] :: rid \<Rightarrow> daos_hlink option"
  obtain t s where c: "daos_hhash_create 4 ?links = (t, s)" by (cases "daos_hhash_create 4 ?links")
  have "hh_inv t s" using hh_inv_new[of 4 ?links] c by simp
  moreover have "7 \<notin> linked t" "dh_links s = ?links" "dh_cookie s = 1"
    using c by (auto simp: daos_hhash_create_def linked_def dhash_table_create_inplace_def)
  ultimately have "\<exists>t' s' key. daos_hhash_link_insert t s 7 3 = Some (t', s') \<and> daos_hhash_key_type key = 3 \<and>
      fst (daos_hhash_link_lookup t s key) = None \<and> fst (daos_hhash_link_lookup t' s' key) = Some 7"
    using hhash_insert_lookup[of t s 7 _ 3] by fastforce
  then show ?thesis using c by blast
qed

text \<open>
  C40. An exclusive insertion never fails: inserting a record under a UUID that is in the table already
  reports success, but leaves the table as it is, so that the UUID leads to the other record.
\<close>

theorem uhash_duplicate_lost:
  assumes "table_ok uh_ops uh_key t s" "r \<in> linked t" "uh_key s r = Some key" "key \<noteq> []"
    and "l \<notin> linked t" "s l = Some u" "ul_initialized u"
  shows "\<exists>s'. daos_uhash_link_insert t s key l = Some (None, t, s') \<and> l \<notin> linked t \<and>
    (\<exists>r' \<in> linked t. fst (daos_uhash_link_lookup t s' key) = Some r' \<and> r' \<noteq> l)"
proof -
  let ?s = "upd_ulink l (\<lambda>u. u\<lparr>ul_uuid := key\<rparr>) s"
  have k: "uh_key ?s v = uh_key s v" if "v \<in> linked t" for v
    using that assms(5) by (auto simp: uh_key_def upd_ulink_def)
  then have ok: "table_ok uh_ops uh_key t ?s" by (intro uh.table_ok_state[OF assms(1)]) simp
  obtain r' where r': "dh_rec_find uh_ops t ?s (dh_key_hash uh_ops t key) key = Some r'"
    using uh.find_None[OF ok, of key] k[OF assms(2)] assms(2,3) by fastforce
  have "daos_uhash_link_insert t s key l = Some (None, t, ?s)"
    using assms(4,6,7) r' by (simp add: daos_uhash_link_insert_def dhash_rec_insert_def Let_def)
  moreover have "fst (daos_uhash_link_lookup t ?s key) = Some r'" "r' \<in> linked t" "r' \<noteq> l"
    using r' uh.find_Some[OF ok r'] assms(5) by (auto simp: daos_uhash_link_lookup_def dhash_rec_find_def)
  ultimately show ?thesis using assms(5) by blast
qed

theorem uhash_duplicate_lost_witness:
  "\<exists>t s s'. linked t = {1} \<and> daos_uhash_link_insert t s [9] 2 = Some (None, t, s') \<and>
    fst (daos_uhash_link_lookup t s' [9]) = Some 1"
proof -
  define t where "t = \<lparr>ht_bits = 0, ht_feats = 0, ht_buckets = [[1]]\<rparr>"
  define u where "u = \<lparr>ul_ref = 1, ul_initialized = True, ul_uuid = [9], ul_free = False\<rparr>"
  define s :: ulinks where "s = [1 \<mapsto> u, 2 \<mapsto> u]"
  have l: "linked t = {1}" by (simp add: t_def linked_def)
  have "dh_key_hash uh_ops t key = 0" for key using dh_key_hash_less[of t uh_ops key] by (simp add: t_def)
  then have "table_ok uh_ops uh_key t s" by (simp add: table_ok_def shape_ok_def t_def)
  then have "\<exists>s'. daos_uhash_link_insert t s [9] 2 = Some (None, t, s') \<and> fst (daos_uhash_link_lookup t s' [9]) = Some 1"
    using uhash_duplicate_lost[of t s 1 "[9]" 2 u] l by (auto simp: s_def u_def uh_key_def)
  then show ?thesis using l by blast
qed

end
