(* ===== verification/Lru_Props.thy ===== *)
theory Lru_Props
  imports Lru Dhash_Props
begin

text \<open>
  What the cache promises, given that the user's functions agree on the keys of items. Items that are held
  stay; the counters and lists agree with the references; no item is lost or found twice.
\<close>

definition lru_key :: "('a \<Rightarrow> bytes) \<Rightarrow> 'a llinks \<Rightarrow> rid \<Rightarrow> bytes option" where
  "lru_key item_key s r =
     (case s r of None \<Rightarrow> None | Some k \<Rightarrow> if ll_evicted k then None else Some (item_key (ll_item k)))"

definition lru_inv :: "('a, 'b) lru_user \<Rightarrow> ('a \<Rightarrow> bytes) \<Rightarrow> 'a daos_lru_cache \<Rightarrow> bool" where
  "lru_inv user item_key lc \<longleftrightarrow>
     table_ok (lru_ops user) (lru_key item_key) (dlc_htable lc) (dlc_links lc) \<and>
     linked (dlc_htable lc) = set (dlc_idle_list lc) \<union> set (dlc_busy_list lc) \<and>
     dom (dlc_links lc) = set (dlc_idle_list lc) \<union> set (dlc_busy_list lc) \<and>
     distinct (dlc_idle_list lc @ dlc_busy_list lc) \<and>
     dlc_idle_nr lc = length (dlc_idle_list lc) \<and> dlc_busy_nr lc = length (dlc_busy_list lc) \<and>
     (\<forall>l \<in> set (dlc_idle_list lc). \<forall>k. dlc_links lc l = Some k \<longrightarrow> ll_ref k = 1 \<and> \<not> ll_evicted k) \<and>
     (\<forall>l \<in> set (dlc_busy_list lc). \<forall>k. dlc_links lc l = Some k \<longrightarrow> ll_ref k \<ge> 2) \<and>
     (\<forall>l l' key. lru_key item_key (dlc_links lc) l = Some key \<longrightarrow> lru_key item_key (dlc_links lc) l' = Some key \<longrightarrow> l = l')"

text \<open>Items that a condition picks, and what eviction makes of those that are held.\<close>

abbreviation hit :: "('a \<Rightarrow> bool) option \<Rightarrow> 'a \<Rightarrow> bool" where
  "hit cond item \<equiv> cond = None \<or> the cond item"

definition marked :: "('a \<Rightarrow> bool) option \<Rightarrow> 'a daos_llink \<Rightarrow> 'a daos_llink" where
  "marked cond k = (if hit cond (ll_item k) then k\<lparr>ll_evicted := True\<rparr> else k)"

lemma lru_key_upd:
  "lru_key item_key (s(l \<mapsto> k)) u =
     (if u = l then if ll_evicted k then None else Some (item_key (ll_item k)) else lru_key item_key s u)"
  "lru_key item_key (s(l := None)) u = (if u = l then None else lru_key item_key s u)"
  by (auto simp: lru_key_def)

lemma restrict_dom [simp]: "m |` dom m = m"
  by (rule ext) (simp add: restrict_map_def domIff)

lemma remove1_last: "\<lbrakk>distinct xs; xs \<noteq> []\<rbrakk> \<Longrightarrow> remove1 (last xs) xs = butlast xs"
  by (induction xs) auto

lemma lru_key_None: "s r = None \<Longrightarrow> lru_key item_key s r = None"
  by (simp add: lru_key_def)

locale lru_client =
  fixes user :: "('a, 'b) lru_user" and item_key :: "'a \<Rightarrow> bytes" and args_ok :: "bytes \<Rightarrow> 'b \<Rightarrow> bool"
  assumes user_cmp: "lop_cmp_keys user key item \<longleftrightarrow> item_key item = key"
    and user_alloc: "args_ok key args \<Longrightarrow>
      \<exists>r. lop_alloc_ref user key args lc = Some (r, lc) \<and> (\<forall>item. r = Inr item \<longrightarrow> item_key item = key)"
begin

sublocale tab: dhash_laws "lru_ops user" "lru_key item_key"
proof
  show "hop_key_cmp (lru_ops user) s r key \<longleftrightarrow> lru_key item_key s r = Some key" for s r key
    by (auto simp: lru_ops_def lru_hop_key_cmp_def lru_key_def user_cmp split: option.splits)
  show "lru_key item_key (dh_rec_addref (lru_ops user) r s) u = lru_key item_key s u" for r s u
    by (auto simp: lru_ops_def dh_rec_addref_def lru_hop_rec_addref_def upd_llink_def lru_key_def split: option.splits)
  show "dh_rec_decref (lru_ops user) r s = Some (zombie, s') \<Longrightarrow> lru_key item_key s' u = lru_key item_key s u" for r s zombie s' u
    by (auto simp: lru_ops_def dh_rec_decref_def lru_hop_rec_decref_def upd_llink_def lru_key_def bind_eq_Some_conv split: if_splits)
  show "u \<noteq> r \<Longrightarrow> lru_key item_key (dh_rec_free (lru_ops user) r s) u = lru_key item_key s u" for u r s
    by (auto simp: lru_ops_def dh_rec_free_def lru_hop_rec_free_def lru_key_def)
qed

abbreviation ok where "ok \<equiv> lru_inv user item_key"

lemma inv_table: "ok lc \<Longrightarrow> table_ok (lru_ops user) (lru_key item_key) (dlc_htable lc) (dlc_links lc)"
  by (simp add: lru_inv_def)

lemma okD:
  assumes "ok lc"
  shows "linked (dlc_htable lc) = set (dlc_idle_list lc) \<union> set (dlc_busy_list lc)"
    "dom (dlc_links lc) = set (dlc_idle_list lc) \<union> set (dlc_busy_list lc)"
    "distinct (dlc_idle_list lc @ dlc_busy_list lc)"
    "dlc_idle_nr lc = length (dlc_idle_list lc)" "dlc_busy_nr lc = length (dlc_busy_list lc)"
    "\<forall>l \<in> set (dlc_idle_list lc). \<forall>k. dlc_links lc l = Some k \<longrightarrow> ll_ref k = 1 \<and> \<not> ll_evicted k"
    "\<forall>l \<in> set (dlc_busy_list lc). \<forall>k. dlc_links lc l = Some k \<longrightarrow> ll_ref k \<ge> 2"
  using assms unfolding lru_inv_def by simp_all

lemma inv_unique:
  "\<lbrakk>ok lc; lru_key item_key (dlc_links lc) l = Some key; lru_key item_key (dlc_links lc) l' = Some key\<rbrakk> \<Longrightarrow> l = l'"
  unfolding lru_inv_def by blast

lemma inv_live: "ok lc \<Longrightarrow> l \<in> set (dlc_idle_list lc) \<union> set (dlc_busy_list lc) \<Longrightarrow> \<exists>k. dlc_links lc l = Some k"
  unfolding lru_inv_def by blast

text \<open>The quick look at the heads of the lists finds nothing that the table would not find.\<close>

lemma fast_search:
  assumes "ok lc" "set head \<subseteq> set (dlc_idle_list lc) \<union> set (dlc_busy_list lc)"
  shows "lru_fast_search user head key lc = Some (None, lc) \<or>
    fst (lru_hash_search user key lc) \<noteq> None \<and> lru_fast_search user head key lc = Some (lru_hash_search user key lc)"
proof (cases head)
  case Nil
  then show ?thesis by (simp add: lru_fast_search_def)
next
  case (Cons l ls)
  then obtain k where k: "dlc_links lc l = Some k" using inv_live[OF assms(1), of l] assms(2) by auto
  show ?thesis
  proof (cases "\<not> ll_evicted k \<and> lop_cmp_keys user key (ll_item k)")
    case True
    then have key: "lru_key item_key (dlc_links lc) l = Some key" using k by (simp add: lru_key_def user_cmp)
    have "l \<in> linked (dlc_htable lc)" using k assms(1) unfolding lru_inv_def by blast
    then obtain r s where r: "dhash_rec_find (lru_ops user) (dlc_htable lc) (dlc_links lc) key = (Some r, s)"
      "s = dh_rec_addref (lru_ops user) r (dlc_links lc)" "lru_key item_key (dlc_links lc) r = Some key"
      using tab.rec_find[OF inv_table[OF assms(1)], of key] key by (auto split: prod.splits option.splits)
    then have "r = l" using inv_unique[OF assms(1) _ key] by blast
    then show ?thesis
      using r True k Cons by (simp add: lru_fast_search_def lru_hash_search_def lru_ops_def dh_rec_addref_def lru_hop_rec_addref_def)
  next
    case False
    then show ?thesis using k Cons by (auto simp: lru_fast_search_def)
  qed
qed

lemma search_eq: "ok lc \<Longrightarrow> lru_search user key lc = Some (lru_hash_search user key lc)"
  using fast_search[of lc "dlc_busy_list lc" key] fast_search[of lc "dlc_idle_list lc" key]
  by (auto simp: lru_search_def split: prod.splits)

text \<open>What the search in the table returns.\<close>

lemma hash_search:
  assumes "ok lc"
  obtains (found) l k where "dlc_links lc l = Some k" "lru_key item_key (dlc_links lc) l = Some key"
      "lru_hash_search user key lc = (Some l, lc\<lparr>dlc_links := (dlc_links lc)(l \<mapsto> k\<lparr>ll_ref := ll_ref k + 1\<rparr>)\<rparr>)"
  | (none) "\<forall>l. lru_key item_key (dlc_links lc) l \<noteq> Some key" "lru_hash_search user key lc = (None, lc)"
proof (cases "dhash_rec_find (lru_ops user) (dlc_htable lc) (dlc_links lc) key")
  case (Pair r s)
  note f = tab.rec_find[OF inv_table[OF assms], of key, unfolded Pair]
  show thesis
  proof (cases r)
    case None
    then have "\<forall>l \<in> linked (dlc_htable lc). lru_key item_key (dlc_links lc) l \<noteq> Some key" "s = dlc_links lc" using f by auto
    moreover have "lru_key item_key (dlc_links lc) l = None" if "l \<notin> linked (dlc_htable lc)" for l
      using assms that lru_key_None[of "dlc_links lc" l item_key] unfolding lru_inv_def by (metis domIff)
    ultimately have "\<forall>l. lru_key item_key (dlc_links lc) l \<noteq> Some key" by (metis option.distinct(1))
    then show thesis using none Pair None \<open>s = dlc_links lc\<close> by (simp add: lru_hash_search_def)
  next
    case (Some l)
    then have l: "s = dh_rec_addref (lru_ops user) l (dlc_links lc)" "lru_key item_key (dlc_links lc) l = Some key" using f by auto
    then obtain k where "dlc_links lc l = Some k" by (auto simp: lru_key_def split: option.splits)
    then show thesis
      using found l Pair Some by (simp add: lru_hash_search_def lru_ops_def dh_rec_addref_def lru_hop_rec_addref_def upd_llink_def)
  qed
qed

lemma key_ref: "s l = Some k \<Longrightarrow> lru_key item_key (s(l \<mapsto> k\<lparr>ll_ref := n\<rparr>)) = lru_key item_key s"
  by (auto simp: lru_key_def fun_eq_iff)

lemma hold_found:
  assumes "ok lc" "dlc_links lc l = Some k" "lru_key item_key (dlc_links lc) l = Some key"
  defines "lc' \<equiv> lc\<lparr>dlc_links := (dlc_links lc)(l \<mapsto> k\<lparr>ll_ref := ll_ref k + 1\<rparr>)\<rparr>"
  shows "\<exists>lc2. lru_found l lc' = Some (Inr l, lc2) \<and> ok lc2 \<and> dlc_links lc2 = dlc_links lc' \<and> l \<in> set (dlc_busy_list lc2) \<and>
    dlc_csize lc2 = dlc_csize lc"
proof -
  have key: "lru_key item_key (dlc_links lc') = lru_key item_key (dlc_links lc)"
    using assms(2) by (simp add: lc'_def key_ref)
  have tab: "table_ok (lru_ops user) (lru_key item_key) (dlc_htable lc) (dlc_links lc')"
    by (rule tab.table_ok_state[OF inv_table[OF assms(1)]]) (simp add: key)
  have mem: "l \<in> set (dlc_idle_list lc) \<union> set (dlc_busy_list lc)" using assms(1,2) unfolding lru_inv_def by blast
  show ?thesis
  proof (cases "l \<in> set (dlc_idle_list lc)")
    case True
    then have k: "ll_ref k = 1" "l \<notin> set (dlc_busy_list lc)" using assms(1,2) by (auto simp: lru_inv_def)
    have "distinct (dlc_idle_list lc)" "length (dlc_idle_list lc) > 0" using assms(1) True by (auto simp: lru_inv_def)
    then have "ok (lru_mark_busy l lc')"
      using assms(1,2) tab True k key unfolding lru_inv_def
      by (auto simp: lru_mark_busy_def lc'_def length_remove1 split: if_splits)
    then show ?thesis
      using True k by (auto simp: lru_found_def lc'_def lru_mark_busy_def)
  next
    case False
    then have b: "l \<in> set (dlc_busy_list lc)" using mem by simp
    then have k: "ll_ref k \<ge> 2" using assms(1,2) by (auto simp: lru_inv_def)
    have "ok lc'"
      using assms(1,2) tab False k key b unfolding lru_inv_def by (auto simp: lc'_def)
    then show ?thesis using k b by (auto simp: lru_found_def lc'_def)
  qed
qed

lemma hold_new:
  assumes "ok lc" "\<forall>l. lru_key item_key (dlc_links lc) l \<noteq> Some key" "key \<noteq> []" "args_ok key args" "dlc_links lc new = None"
  shows "(\<exists>e. lop_alloc_ref user key args lc = Some (Inl e, lc) \<and> lru_new user key args new lc = Some (Inl e, lc)) \<or>
    (\<exists>item lc1 lc2. item_key item = key \<and> lop_alloc_ref user key args lc = Some (Inr item, lc) \<and> lru_new user key args new lc = Some (Inr new, lc1) \<and>
      lru_found new lc1 = Some (Inr new, lc2) \<and> ok lc2 \<and>
      dlc_links lc2 = (dlc_links lc)(new \<mapsto> \<lparr>ll_ref = 2, ll_evicted = False, ll_item = item\<rparr>) \<and>
      new \<in> set (dlc_busy_list lc2) \<and> dlc_csize lc2 = dlc_csize lc)"
proof -
  obtain r where r: "lop_alloc_ref user key args lc = Some (r, lc)" "\<And>item. r = Inr item \<Longrightarrow> item_key item = key"
    using user_alloc[OF assms(4), of lc] by auto
  show ?thesis
  proof (cases r)
    case (Inl e)
    then show ?thesis using r(1) by (auto simp: lru_new_def)
  next
    case (Inr item)
    let ?s1 = "(dlc_links lc)(new \<mapsto> \<lparr>ll_ref = 1, ll_evicted = False, ll_item = item\<rparr>)"
    let ?s = "(dlc_links lc)(new \<mapsto> \<lparr>ll_ref = 2, ll_evicted = False, ll_item = item\<rparr>)"
    let ?t = "dh_rec_insert (dlc_htable lc) (dh_key_hash (lru_ops user) (dlc_htable lc) key) new"
    let ?lc1 = "lc\<lparr>dlc_htable := ?t, dlc_links := ?s\<rparr>"
    have ik: "item_key item = key" by (rule r(2)[OF Inr])
    have fresh: "new \<notin> linked (dlc_htable lc)" "new \<notin> set (dlc_idle_list lc)" "new \<notin> set (dlc_busy_list lc)"
      using assms(1,5) unfolding lru_inv_def by blast+
    have keys: "lru_key item_key ?s1 u = (if u = new then Some key else lru_key item_key (dlc_links lc) u)"
      "lru_key item_key ?s u = (if u = new then Some key else lru_key item_key (dlc_links lc) u)" for u
      using ik by (simp_all add: lru_key_upd)
    have t1: "table_ok (lru_ops user) (lru_key item_key) (dlc_htable lc) ?s1"
      by (rule tab.table_ok_state[OF inv_table[OF assms(1)]]) (use fresh(1) keys in auto)
    have t: "table_ok (lru_ops user) (lru_key item_key) (dlc_htable lc) ?s"
      by (rule tab.table_ok_state[OF inv_table[OF assms(1)]]) (use fresh(1) keys in auto)
    have k: "lru_key item_key ?s new = Some key" using keys(2) by simp
    note ins = tab.table_ok_insert[OF t fresh(1) k]
    have "dh_rec_find (lru_ops user) (dlc_htable lc) ?s1 (dh_key_hash (lru_ops user) (dlc_htable lc) key) key = None"
      unfolding tab.find_None[OF t1] using fresh(1) keys assms(2) by auto
    then have new: "lru_new user key args new lc = Some (Inr new, ?lc1)"
      using r(1) Inr assms(3) by (simp add: lru_new_def dhash_rec_insert_def Let_def dh_rec_addref_def lru_ops_def lru_hop_rec_addref_def
          upd_llink_def numeral_2_eq_2)
    have "ok (lru_mark_busy new ?lc1)"
      using assms(1,2) ins fresh keys unfolding lru_inv_def
      by (auto simp: lru_mark_busy_def)
    then show ?thesis
      using new ik fresh r(1) Inr by (auto simp: lru_found_def lru_mark_busy_def)
  qed
qed

text \<open>Deleting an item that only the table refers to.\<close>

lemma delete_item:
  assumes "table_ok (lru_ops user) (lru_key item_key) (dlc_htable lc) (dlc_links lc)" "l \<in> linked (dlc_htable lc)"
    "dlc_links lc l = Some k" "ll_ref k = 1"
  shows "lru_delete user l lc = Some (lc\<lparr>dlc_htable := dh_rec_delete (dlc_htable lc) l, dlc_links := (dlc_links lc)(l := None)\<rparr>)"
    "table_ok (lru_ops user) (lru_key item_key) (dh_rec_delete (dlc_htable lc) l) ((dlc_links lc)(l := None))"
    "linked (dh_rec_delete (dlc_htable lc) l) = linked (dlc_htable lc) - {l}"
proof -
  have d: "dh_rec_decref (lru_ops user) l (dlc_links lc) = Some (True, (dlc_links lc)(l \<mapsto> k\<lparr>ll_ref := 0\<rparr>))"
    using assms(3,4) by (simp add: dh_rec_decref_def lru_ops_def lru_hop_rec_decref_def upd_llink_def)
  have f: "dh_rec_free (lru_ops user) l ((dlc_links lc)(l \<mapsto> k\<lparr>ll_ref := 0\<rparr>)) = (dlc_links lc)(l := None)"
    by (simp add: dh_rec_free_def lru_ops_def lru_hop_rec_free_def)
  note r = tab.rec_delete_at[OF assms(1,2) d, unfolded f]
  show "lru_delete user l lc = Some (lc\<lparr>dlc_htable := dh_rec_delete (dlc_htable lc) l, dlc_links := (dlc_links lc)(l := None)\<rparr>)"
    using r(1) by (simp add: lru_delete_def)
  show "table_ok (lru_ops user) (lru_key item_key) (dh_rec_delete (dlc_htable lc) l) ((dlc_links lc)(l := None))"
    using r(2) by simp
  show "linked (dh_rec_delete (dlc_htable lc) l) = linked (dlc_htable lc) - {l}"
    by (rule tab.table_ok_delete(2)[OF assms(1)])
qed

lemma evict_item:
  assumes "ok lc" "l \<in> set (dlc_idle_list lc)"
  shows "\<exists>lc1. lru_delete user l (lc\<lparr>dlc_idle_list := remove1 l (dlc_idle_list lc)\<rparr>) = Some lc1 \<and>
    lc1\<lparr>dlc_idle_nr := dlc_idle_nr lc1 - 1\<rparr> = lc\<lparr>dlc_idle_list := remove1 l (dlc_idle_list lc),
      dlc_htable := dh_rec_delete (dlc_htable lc) l, dlc_links := (dlc_links lc)(l := None), dlc_idle_nr := dlc_idle_nr lc - 1\<rparr> \<and>
    ok (lc1\<lparr>dlc_idle_nr := dlc_idle_nr lc1 - 1\<rparr>)"
proof -
  obtain k where k: "dlc_links lc l = Some k" "ll_ref k = 1"
    using assms inv_live[OF assms(1), of l] by (auto simp: lru_inv_def)
  have "l \<in> linked (dlc_htable lc)" using assms by (auto simp: lru_inv_def)
  note d = delete_item[of "lc\<lparr>dlc_idle_list := remove1 l (dlc_idle_list lc)\<rparr>" l k, simplified, OF inv_table[OF assms(1)] this k[unfolded One_nat_def]]
  let ?lc = "lc\<lparr>dlc_idle_list := remove1 l (dlc_idle_list lc),
      dlc_htable := dh_rec_delete (dlc_htable lc) l, dlc_links := (dlc_links lc)(l := None), dlc_idle_nr := dlc_idle_nr lc - 1\<rparr>"
  have "distinct (dlc_idle_list lc)" using assms(1) by (simp add: lru_inv_def)
  then have "ok ?lc"
    using assms d(2,3) unfolding lru_inv_def by (auto simp: lru_key_upd length_remove1 split: if_splits)
  then show ?thesis using d(1) by simp
qed

text \<open>
  The loop that evicts idle items keeps the most recently released ones, as many as fit.
\<close>

lemma evict_loop_ok:
  assumes "ok lc"
  shows "\<exists>lc'. evict_loop user lc = Some lc' \<and> ok lc' \<and>
    (dlc_idle_nr lc' = 0 \<or> dlc_busy_nr lc' + dlc_idle_nr lc' < dlc_csize lc') \<and>
    dlc_busy_list lc' = dlc_busy_list lc \<and> dlc_csize lc' = dlc_csize lc \<and>
    (\<exists>n. dlc_idle_list lc' = take n (dlc_idle_list lc)) \<and> dlc_links lc' = dlc_links lc |` (set (dlc_idle_list lc') \<union> set (dlc_busy_list lc'))"
  using assms
proof (induction "length (dlc_idle_list lc)" arbitrary: lc)
  case 0
  then have "dlc_idle_nr lc = 0" by (simp add: lru_inv_def)
  moreover have "dlc_links lc |` set (dlc_busy_list lc) = dlc_links lc"
    using 0 restrict_dom[of "dlc_links lc"] by (auto simp: lru_inv_def)
  ultimately show ?case using 0 by (subst evict_loop.simps) auto
next
  case (Suc n)
  have res: "dlc_links lc |` (set (dlc_idle_list lc) \<union> set (dlc_busy_list lc)) = dlc_links lc"
    using Suc.prems unfolding lru_inv_def by (metis restrict_dom)
  show ?case
  proof (cases "dlc_idle_nr lc \<noteq> 0 \<and> dlc_busy_nr lc + dlc_idle_nr lc \<ge> dlc_csize lc")
    case False
    have "\<exists>n. dlc_idle_list lc = take n (dlc_idle_list lc)" by (rule exI[of _ "length (dlc_idle_list lc)"]) simp
    then show ?thesis using False Suc.prems res by (subst evict_loop.simps) auto
  next
    case True
    let ?I = "dlc_idle_list lc" and ?l = "last (dlc_idle_list lc)"
    have ne: "?I \<noteq> []" using Suc.hyps(2) by auto
    have dist: "distinct (?I @ dlc_busy_list lc)" using Suc.prems by (simp add: lru_inv_def)
    then have rem: "remove1 ?l ?I = butlast ?I" using remove1_last[OF _ ne] by simp
    obtain lc1 where lc1: "lru_delete user ?l (lc\<lparr>dlc_idle_list := butlast ?I\<rparr>) = Some lc1"
      "lc1\<lparr>dlc_idle_nr := dlc_idle_nr lc1 - 1\<rparr> = lc\<lparr>dlc_idle_list := butlast ?I,
        dlc_htable := dh_rec_delete (dlc_htable lc) ?l, dlc_links := (dlc_links lc)(?l := None), dlc_idle_nr := dlc_idle_nr lc - 1\<rparr>"
      "ok (lc1\<lparr>dlc_idle_nr := dlc_idle_nr lc1 - 1\<rparr>)"
      using evict_item[OF Suc.prems, of ?l] ne rem by auto
    let ?lc = "lc1\<lparr>dlc_idle_nr := dlc_idle_nr lc1 - 1\<rparr>"
    have step: "evict_loop user lc = evict_loop user ?lc"
      using True ne lc1(1) by (subst evict_loop.simps) (simp add: lru_evict_last_def Let_def)
    have "n = length (dlc_idle_list ?lc)" using Suc.hyps(2) lc1(2) by simp
    from Suc.hyps(1)[OF this lc1(3)] obtain lc' m where lc': "evict_loop user ?lc = Some lc'" "ok lc'"
      "dlc_idle_nr lc' = 0 \<or> dlc_busy_nr lc' + dlc_idle_nr lc' < dlc_csize lc'"
      "dlc_busy_list lc' = dlc_busy_list lc" "dlc_csize lc' = dlc_csize lc" "dlc_idle_list lc' = take m (butlast ?I)"
      "dlc_links lc' = (dlc_links lc)(?l := None) |` (set (dlc_idle_list lc') \<union> set (dlc_busy_list lc'))"
      unfolding lc1(2) by auto
    have "?l \<notin> set (butlast ?I)" "?l \<notin> set (dlc_busy_list lc)"
      using dist ne append_butlast_last_id[OF ne] by (metis distinct_append not_distinct_conv_prefix, metis disjoint_iff distinct_append last_in_set)
    then have "?l \<notin> set (dlc_idle_list lc') \<union> set (dlc_busy_list lc')" using lc'(4,6) set_take_subset by fastforce
    then have "dlc_links lc' = dlc_links lc |` (set (dlc_idle_list lc') \<union> set (dlc_busy_list lc'))"
      unfolding lc'(7) by (auto simp: restrict_map_def fun_eq_iff)
    moreover have "dlc_idle_list lc' = take (min m (length ?I - 1)) ?I"
      using lc'(6) by (simp add: butlast_conv_take)
    ultimately show ?thesis using lc'(1-5) step by auto
  qed
qed

text \<open>The invariant for a cache that lost an item, or in which an item changed its list.\<close>

lemma ok_remove:
  assumes "ok lc" "table_ok (lru_ops user) (lru_key item_key) (dlc_htable lc') ((dlc_links lc)(l := None))"
    "linked (dlc_htable lc') = linked (dlc_htable lc) - {l}"
    and "dlc_links lc' = (dlc_links lc)(l := None)" "dlc_idle_list lc' = dlc_idle_list lc" "l \<notin> set (dlc_idle_list lc)"
      "dlc_busy_list lc' = remove1 l (dlc_busy_list lc)" "dlc_idle_nr lc' = dlc_idle_nr lc"
      "dlc_busy_nr lc' = length (remove1 l (dlc_busy_list lc))"
  shows "ok lc'"
proof -
  have d: "distinct (dlc_busy_list lc)" using assms(1) by (simp add: lru_inv_def)
  then have b: "set (dlc_busy_list lc') = set (dlc_busy_list lc) - {l}" using assms(7) by simp
  show ?thesis
    unfolding lru_inv_def
  proof (intro conjI, goal_cases)
    case 1
    then show ?case using assms(2,4) by simp
  next
    case 2
    then show ?case using okD(1)[OF assms(1)] assms(3,5,6) b by auto
  next
    case 3
    have "dom (dlc_links lc') = dom (dlc_links lc) - {l}" using assms(4) by auto
    then show ?case using okD(2)[OF assms(1)] assms(5,6) b by auto
  next
    case 4
    then show ?case using okD(3)[OF assms(1)] assms(5,6,7) b by auto
  next
    case 5
    then show ?case using okD(4)[OF assms(1)] assms(5,8) by simp
  next
    case 6
    then show ?case using assms(7,9) by simp
  next
    case 7
    then show ?case using okD(6)[OF assms(1)] assms(4,5,6) by auto
  next
    case 8
    then show ?case using okD(7)[OF assms(1)] assms(4) b by auto
  next
    case 9
    have "lru_key item_key (dlc_links lc') u = Some key \<Longrightarrow> lru_key item_key (dlc_links lc) u = Some key" for u key
      using assms(4) by (auto simp: lru_key_upd split: if_splits)
    then show ?case using inv_unique[OF assms(1)] by blast
  qed
qed

lemma ok_idle:
  assumes "ok lc" "table_ok (lru_ops user) (lru_key item_key) (dlc_htable lc) s" "lru_key item_key s = lru_key item_key (dlc_links lc)"
    and l: "l \<in> set (dlc_busy_list lc)" "dlc_links lc l = Some k" "ll_ref k = 2" "\<not> ll_evicted k"
    and s: "s = (dlc_links lc)(l \<mapsto> k\<lparr>ll_ref := ll_ref k - 1\<rparr>)"
    and lc': "dlc_htable lc' = dlc_htable lc" "dlc_links lc' = s" "dlc_idle_list lc' = l # dlc_idle_list lc"
      "dlc_busy_list lc' = remove1 l (dlc_busy_list lc)" "dlc_idle_nr lc' = dlc_idle_nr lc + 1"
      "dlc_busy_nr lc' = length (remove1 l (dlc_busy_list lc))"
  shows "ok lc'"
proof -
  have d: "distinct (dlc_idle_list lc @ dlc_busy_list lc)" by (rule okD(3)[OF assms(1)])
  then have b: "set (dlc_busy_list lc') = set (dlc_busy_list lc) - {l}" using lc'(4) by simp
  show ?thesis
    unfolding lru_inv_def
  proof (intro conjI, goal_cases)
    case 1
    then show ?case using assms(2) lc'(1,2) by simp
  next
    case 2
    then show ?case using okD(1)[OF assms(1)] lc'(1,3) b l(1) by auto
  next
    case 3
    have "dom (dlc_links lc') = dom (dlc_links lc)" using lc'(2) s l(2) by auto
    then show ?case using okD(2)[OF assms(1)] lc'(3) b l(1) by auto
  next
    case 4
    then show ?case using d lc'(3,4) b l(1) by auto
  next
    case 5
    then show ?case using okD(4)[OF assms(1)] lc'(3,5) by simp
  next
    case 6
    then show ?case using lc'(4,6) by simp
  next
    case 7
    then show ?case using okD(6)[OF assms(1)] lc'(2,3) s l by auto
  next
    case 8
    then show ?case using okD(7)[OF assms(1)] lc'(2) s b by auto
  next
    case 9
    then show ?case using inv_unique[OF assms(1)] unfolding lc'(2) assms(3) by blast
  qed
qed

text \<open>Releasing an item that is held.\<close>

lemma release_one:
  assumes "ok lc" "l \<in> set (dlc_busy_list lc)" "dlc_links lc l = Some k"
  shows "\<exists>lc1. ok lc1 \<and> daos_lru_ref_release user l lc = evict_loop user lc1 \<and> dlc_csize lc1 = dlc_csize lc \<and>
    dlc_links lc1 = (dlc_links lc)(l := (if ll_ref k = 2 \<and> ll_evicted k then None else Some (k\<lparr>ll_ref := ll_ref k - 1\<rparr>))) \<and>
    dlc_busy_list lc1 = (if ll_ref k = 2 then remove1 l (dlc_busy_list lc) else dlc_busy_list lc) \<and>
    dlc_idle_list lc1 = (if ll_ref k = 2 \<and> \<not> ll_evicted k then l # dlc_idle_list lc else dlc_idle_list lc)"
proof -
  let ?s = "(dlc_links lc)(l \<mapsto> k\<lparr>ll_ref := ll_ref k - 1\<rparr>)"
  have ref: "ll_ref k \<ge> 2" using assms by (auto simp: lru_inv_def)
  have nidle: "l \<notin> set (dlc_idle_list lc)" "distinct (dlc_busy_list lc)" "length (dlc_busy_list lc) > 0"
    using assms(1,2) by (auto simp: lru_inv_def)
  have key: "lru_key item_key ?s = lru_key item_key (dlc_links lc)" using assms(3) by (rule key_ref)
  have tab: "table_ok (lru_ops user) (lru_key item_key) (dlc_htable lc) ?s"
    by (rule tab.table_ok_state[OF inv_table[OF assms(1)]]) (simp only: key simp_thms)
  have nz: "dlc_busy_nr lc > 0" using okD(5)[OF assms(1)] nidle(3) by simp
  consider (more) "ll_ref k > 2" | (evicted) "ll_ref k = 2" "ll_evicted k" | (idle) "ll_ref k = 2" "\<not> ll_evicted k"
    using ref by linarith
  then show ?thesis
  proof cases
    case more
    let ?lc = "lc\<lparr>dlc_links := ?s\<rparr>"
    have "ok ?lc" using assms tab key more nidle unfolding lru_inv_def by auto
    then show ?thesis
      using more assms(3) by (intro exI[of _ ?lc]) (auto simp: daos_lru_ref_release_def upd_llink_def Let_def)
  next
    case evicted
    let ?lc = "lc\<lparr>dlc_links := ?s, dlc_busy_nr := dlc_busy_nr lc - 1, dlc_busy_list := remove1 l (dlc_busy_list lc),
        dlc_idle_list := remove1 l (dlc_idle_list lc)\<rparr>"
    have lk: "l \<in> linked (dlc_htable lc)" using assms by (auto simp: lru_inv_def)
    have pre: "table_ok (lru_ops user) (lru_key item_key) (dlc_htable ?lc) (dlc_links ?lc)" "l \<in> linked (dlc_htable ?lc)"
      "dlc_links ?lc l = Some (k\<lparr>ll_ref := ll_ref k - 1\<rparr>)" "ll_ref (k\<lparr>ll_ref := ll_ref k - 1\<rparr>) = 1"
      using tab lk evicted by simp_all
    note d = delete_item[OF pre]
    let ?lc1 = "?lc\<lparr>dlc_htable := dh_rec_delete (dlc_htable lc) l, dlc_links := (dlc_links lc)(l := None)\<rparr>"
    have d2: "table_ok (lru_ops user) (lru_key item_key) (dh_rec_delete (dlc_htable lc) l) ((dlc_links lc)(l := None))"
      "linked (dh_rec_delete (dlc_htable lc) l) = linked (dlc_htable lc) - {l}"
      using d(2,3) by simp_all
    have i: "remove1 l (dlc_idle_list lc) = dlc_idle_list lc" using nidle(1) by (rule remove1_idem)
    have "ok ?lc1"
      by (rule ok_remove[OF assms(1)]) (use d2 assms(2) nidle i okD(5)[OF assms(1)] in \<open>auto simp: length_remove1\<close>)
    moreover have "daos_lru_ref_release user l lc = evict_loop user ?lc1"
      using evicted assms(3) d(1) nz by (simp add: daos_lru_ref_release_def upd_llink_def Let_def)
    ultimately show ?thesis
      using evicted nidle(1) by (intro exI[of _ ?lc1]) (auto simp: remove1_idem)
  next
    case idle
    let ?lc = "lc\<lparr>dlc_links := ?s, dlc_busy_nr := dlc_busy_nr lc - 1, dlc_busy_list := remove1 l (dlc_busy_list lc),
        dlc_idle_list := remove1 l (dlc_idle_list lc), dlc_idle_nr := dlc_idle_nr lc + 1,
        dlc_idle_list := l # remove1 l (dlc_idle_list lc)\<rparr>"
    have i: "remove1 l (dlc_idle_list lc) = dlc_idle_list lc" using nidle(1) by (rule remove1_idem)
    have "ok ?lc"
      by (rule ok_idle[OF assms(1) tab key assms(2,3) idle])
        (use i okD(4,5)[OF assms(1)] nidle assms(2) in \<open>auto simp: length_remove1\<close>)
    moreover have "daos_lru_ref_release user l lc = evict_loop user ?lc"
      using idle assms(3) nz by (simp add: daos_lru_ref_release_def upd_llink_def Let_def)
    ultimately show ?thesis
      using idle nidle(1) by (intro exI[of _ ?lc]) (auto simp: remove1_idem)
  qed
qed

text \<open>Holding an item: what is found is held, what is not found is created.\<close>

lemma hold_ok:
  assumes "ok lc" "key \<noteq> []" "dlc_links lc new = None" "\<forall>args. create = Some args \<longrightarrow> args_ok key args"
  obtains (found) l k lc' where "lru_key item_key (dlc_links lc) l = Some key" "dlc_links lc l = Some k"
      "daos_lru_ref_hold user key create new lc = Some (Inr l, lc')" "ok lc'" "l \<in> set (dlc_busy_list lc')"
      "dlc_links lc' = (dlc_links lc)(l \<mapsto> k\<lparr>ll_ref := ll_ref k + 1\<rparr>)" "dlc_csize lc' = dlc_csize lc"
  | (new) item lc' args where "\<forall>l. lru_key item_key (dlc_links lc) l \<noteq> Some key" "create = Some args" "item_key item = key"
      "lop_alloc_ref user key args lc = Some (Inr item, lc)"
      "daos_lru_ref_hold user key create new lc = Some (Inr new, lc')" "ok lc'" "new \<in> set (dlc_busy_list lc')"
      "dlc_links lc' = (dlc_links lc)(new \<mapsto> \<lparr>ll_ref = 2, ll_evicted = False, ll_item = item\<rparr>)" "dlc_csize lc' = dlc_csize lc"
  | (failed) e where "\<forall>l. lru_key item_key (dlc_links lc) l \<noteq> Some key"
      "daos_lru_ref_hold user key create new lc = Some (Inl e, lc)"
      "create = None \<and> e = DER_NONEXIST \<or> (\<exists>args. create = Some args \<and> lop_alloc_ref user key args lc = Some (Inl e, lc))"
proof (cases rule: hash_search[OF assms(1), of key])
  case (1 l k)
  then show thesis
    using hold_found[OF assms(1) 1(1,2)] search_eq[OF assms(1), of key] assms(2) by (auto simp: daos_lru_ref_hold_def intro!: found)
next
  case 2
  show thesis
  proof (cases create)
    case None
    then show thesis using 2 search_eq[OF assms(1), of key] assms(2) by (auto simp: daos_lru_ref_hold_def intro!: failed)
  next
    case (Some args)
    from hold_new[OF assms(1) 2(1) assms(2) assms(4)[rule_format, OF Some] assms(3)] show thesis
    proof (elim disjE exE conjE, goal_cases)
      case (1 e)
      then show thesis using 2 search_eq[OF assms(1), of key] assms(2) Some by (auto simp: daos_lru_ref_hold_def intro!: failed[of e])
    next
      case (2 item lc1 lc2)
      have "daos_lru_ref_hold user key create new lc = Some (Inr new, lc2)"
        using \<open>lru_hash_search user key lc = (None, lc)\<close> search_eq[OF assms(1), of key] assms(2) Some 2
        by (simp add: daos_lru_ref_hold_def)
      then show thesis using new \<open>\<forall>l. lru_key item_key (dlc_links lc) l \<noteq> Some key\<close> Some 2 by blast
    qed
  qed
qed

text \<open>Evicting items on a condition.\<close>

lemma evict_held:
  assumes "ok lc" "l \<in> set (dlc_busy_list lc)"
  shows "ok (daos_lru_ref_evict l lc)"
proof -
  let ?s = "upd_llink l (\<lambda>k. k\<lparr>ll_evicted := True\<rparr>) (dlc_links lc)"
  obtain k where k: "dlc_links lc l = Some k" using inv_live[OF assms(1), of l] assms(2) by auto
  then have s: "?s = (dlc_links lc)(l \<mapsto> k\<lparr>ll_evicted := True\<rparr>)" by (simp add: upd_llink_def)
  have key: "lru_key item_key ?s u = (if u = l then None else lru_key item_key (dlc_links lc) u)" for u
    by (simp add: s lru_key_upd)
  have "table_ok (lru_ops user) (lru_key item_key) (dlc_htable lc) ?s"
    by (rule tab.table_ok_state[OF inv_table[OF assms(1)]]) (simp add: key)
  moreover have "dom ?s = dom (dlc_links lc)" using s k by auto
  moreover have "l \<notin> set (dlc_idle_list lc)" using okD(3)[OF assms(1)] assms(2) by auto
  moreover have "\<forall>u \<in> set (dlc_busy_list lc). \<forall>k. ?s u = Some k \<longrightarrow> ll_ref k \<ge> 2"
    using okD(7)[OF assms(1)] k assms(2) unfolding s by auto
  moreover have "\<forall>u \<in> set (dlc_idle_list lc). \<forall>k. ?s u = Some k \<longrightarrow> ll_ref k = 1 \<and> \<not> ll_evicted k"
    using okD(6)[OF assms(1)] \<open>l \<notin> set (dlc_idle_list lc)\<close> unfolding s by auto
  moreover have "u = u'" if "lru_key item_key ?s u = Some x" "lru_key item_key ?s u' = Some x" for u u' x
    using inv_unique[OF assms(1), of u x u'] that unfolding key by (simp split: if_splits)
  ultimately show ?thesis
    using okD(1-5)[OF assms(1)] unfolding lru_inv_def daos_lru_ref_evict_def by simp
qed

lemma marked_idem [simp]: "marked cond (marked cond k) = marked cond k"
  by (simp add: marked_def)

lemma evict_busy_ok:
  assumes "ok lc" "set ls \<subseteq> set (dlc_busy_list lc)"
  shows "\<exists>lc'. evict_busy cond ls lc = Some lc' \<and> ok lc' \<and> dlc_idle_list lc' = dlc_idle_list lc \<and>
    dlc_busy_list lc' = dlc_busy_list lc \<and> dlc_csize lc' = dlc_csize lc \<and>
    (\<forall>u. dlc_links lc' u = (if u \<in> set ls then map_option (marked cond) (dlc_links lc u) else dlc_links lc u))"
  using assms
proof (induction ls arbitrary: lc)
  case Nil
  then show ?case by simp
next
  case (Cons l ls)
  obtain k where k: "dlc_links lc l = Some k" using inv_live[OF Cons.prems(1), of l] Cons.prems(2) by auto
  define lc1 where "lc1 = (if hit cond (ll_item k) then daos_lru_ref_evict l lc else lc)"
  have same: "dlc_busy_list lc1 = dlc_busy_list lc" "dlc_idle_list lc1 = dlc_idle_list lc" "dlc_csize lc1 = dlc_csize lc"
    by (simp_all add: lc1_def daos_lru_ref_evict_def)
  have "ok lc1" using evict_held[OF Cons.prems(1)] Cons.prems by (simp add: lc1_def)
  moreover have "set ls \<subseteq> set (dlc_busy_list lc1)" using Cons.prems(2) same by simp
  ultimately obtain lc' where lc': "evict_busy cond ls lc1 = Some lc'" "ok lc'" "dlc_idle_list lc' = dlc_idle_list lc"
    "dlc_busy_list lc' = dlc_busy_list lc" "dlc_csize lc' = dlc_csize lc"
    "\<And>u. dlc_links lc' u = (if u \<in> set ls then map_option (marked cond) (dlc_links lc1 u) else dlc_links lc1 u)"
    using Cons.IH[of lc1] same by auto
  have "dlc_links lc1 = (dlc_links lc)(l \<mapsto> marked cond k)"
    using k by (auto simp: lc1_def daos_lru_ref_evict_def upd_llink_def marked_def fun_eq_iff)
  moreover have "evict_busy cond (l # ls) lc = Some lc'" using lc'(1) k by (simp add: lc1_def)
  ultimately show ?case using lc'(2-) k by auto
qed

lemma evict_idle_ok:
  assumes "ok lc" "distinct ls" "set ls \<subseteq> set (dlc_idle_list lc)"
  shows "\<exists>lc'. evict_idle user cond ls lc = Some lc' \<and> ok lc' \<and> dlc_busy_list lc' = dlc_busy_list lc \<and> dlc_csize lc' = dlc_csize lc \<and>
    (\<forall>u. dlc_links lc' u = (case dlc_links lc u of
        None \<Rightarrow> None | Some k \<Rightarrow> if u \<in> set ls \<and> hit cond (ll_item k) then None else Some k))"
  using assms
proof (induction ls arbitrary: lc)
  case Nil
  then show ?case by (auto split: option.splits)
next
  case (Cons l ls)
  obtain k where k: "dlc_links lc l = Some k" using inv_live[OF Cons.prems(1), of l] Cons.prems(3) by auto
  show ?case
  proof (cases "hit cond (ll_item k)")
    case False
    then show ?thesis
      using Cons.IH[OF Cons.prems(1)] Cons.prems(2,3) k by (fastforce split: option.splits if_splits)
  next
    case True
    obtain lc1 where d: "lru_delete user l (lc\<lparr>dlc_idle_list := remove1 l (dlc_idle_list lc)\<rparr>) = Some lc1"
      "lc1\<lparr>dlc_idle_nr := dlc_idle_nr lc1 - 1\<rparr> = lc\<lparr>dlc_idle_list := remove1 l (dlc_idle_list lc),
        dlc_htable := dh_rec_delete (dlc_htable lc) l, dlc_links := (dlc_links lc)(l := None), dlc_idle_nr := dlc_idle_nr lc - 1\<rparr>"
      "ok (lc1\<lparr>dlc_idle_nr := dlc_idle_nr lc1 - 1\<rparr>)"
      using evict_item[OF Cons.prems(1), of l] Cons.prems(3) by auto
    define lc2 where "lc2 = lc1\<lparr>dlc_idle_nr := dlc_idle_nr lc1 - 1\<rparr>"
    have f: "dlc_idle_list lc2 = remove1 l (dlc_idle_list lc)" "dlc_links lc2 = (dlc_links lc)(l := None)"
      "dlc_busy_list lc2 = dlc_busy_list lc" "dlc_csize lc2 = dlc_csize lc"
      using d(2) by (simp_all add: lc2_def)
    have "distinct (dlc_idle_list lc)" using okD(3)[OF Cons.prems(1)] by simp
    then have "set ls \<subseteq> set (dlc_idle_list lc2)" using Cons.prems(2,3) f(1) by auto
    then obtain lc' where lc': "evict_idle user cond ls lc2 = Some lc'" "ok lc'" "dlc_busy_list lc' = dlc_busy_list lc"
      "dlc_csize lc' = dlc_csize lc" "\<And>u. dlc_links lc' u = (case dlc_links lc2 u of
        None \<Rightarrow> None | Some k \<Rightarrow> if u \<in> set ls \<and> hit cond (ll_item k) then None else Some k)"
      using Cons.IH[of lc2] d(3) f(3,4) Cons.prems(2) by (auto simp: lc2_def)
    have "evict_idle user cond (l # ls) lc = Some lc'" using True k d(1) lc'(1) by (simp add: lc2_def)
    then show ?thesis using lc'(2-5) f(2) True k by (auto split: option.splits)
  qed
qed

end

end
