(* ===== verification/Obj_Cache.thy ===== *)
theory Obj_Cache
  imports Lru_Props
begin

text \<open>
  The cache of objects of a target (\<^verbatim>\<open>src/vos/vos_obj_cache.c\<close>): an object of a container is looked up by
  container and object id, and used for the epochs that its descriptor in persistent memory covers.

  Containers and descriptors are named by their addresses, and an object id is its bytes. The object index
  (\<^verbatim>\<open>vos_obj_index.c\<close>) is a B+ tree whose keys are ranges of epochs that are compared by overlap, which is not
  an order as the model of the trees has it. So its lookup and update, the epochs of the descriptors that it
  leads to and the allocator are parameters, as they are at the time of a call. An update is \<open>None\<close> if it
  fails an assertion. The references that objects hold on their containers and the trees that they keep
  open are left out.
\<close>

type_synonym co_uuid = "u64 \<times> u64"

definition uuid_bytes :: "co_uuid \<Rightarrow> bytes" where
  "uuid_bytes u = u64_bytes (fst u) @ u64_bytes (snd u)"

record vos_object =
  obj_id :: bytes
  obj_cont :: nat
  obj_df :: "nat option"

type_synonym obj_cache = "vos_object daos_lru_cache"

record vos_obj_key =
  o_oid :: bytes
  o_epc_lo :: u64
  o_epc_hi :: u64

record obj_env =
  vc_id :: "nat \<Rightarrow> co_uuid"
  vc_otab_df :: "nat \<Rightarrow> bool"
  df_epochs :: "nat \<Rightarrow> u64 \<times> u64"
  oi_lookup :: "nat \<Rightarrow> vos_obj_key \<Rightarrow> nat res"
  oi_update :: "nat \<Rightarrow> vos_obj_key \<Rightarrow> nat res option"
  new_obj :: "vos_object llinks \<Rightarrow> rid"

section \<open>The object index\<close>

definition vos_oi_find :: "obj_env \<Rightarrow> nat \<Rightarrow> bytes \<Rightarrow> u64 \<Rightarrow> nat res" where
  "vos_oi_find env cont oid epoch =
     (if \<not> vc_otab_df env cont then Inl DER_NONEXIST
      else oi_lookup env cont \<lparr>o_oid = oid, o_epc_lo = epoch, o_epc_hi = epoch\<rparr>)"

definition vos_oi_find_alloc :: "obj_env \<Rightarrow> nat \<Rightarrow> bytes \<Rightarrow> u64 \<Rightarrow> nat res option" where
  "vos_oi_find_alloc env cont oid epoch =
     (case vos_oi_find env cont oid epoch of
        Inr df \<Rightarrow> Some (Inr df)
      | Inl _ \<Rightarrow> oi_update env cont \<lparr>o_oid = oid, o_epc_lo = epoch, o_epc_hi = DAOS_EPOCH_MAX\<rparr>)"

section \<open>The cache\<close>

definition obj_lop_alloc :: "bytes \<Rightarrow> nat \<Rightarrow> obj_cache \<Rightarrow> (vos_object res \<times> obj_cache) option" where
  "obj_lop_alloc key cont occ = Some (Inr \<lparr>obj_id = drop 16 key, obj_cont = cont, obj_df = None\<rparr>, occ)"

definition obj_lop_cmp_key :: "obj_env \<Rightarrow> bytes \<Rightarrow> vos_object \<Rightarrow> bool" where
  "obj_lop_cmp_key env key obj \<longleftrightarrow> drop 16 key = obj_id obj \<and> take 16 key = uuid_bytes (vc_id env (obj_cont obj))"

definition obj_lru_ops :: "obj_env \<Rightarrow> (vos_object, nat) lru_user" where
  "obj_lru_ops env = \<lparr>lop_cmp_keys = obj_lop_cmp_key env, lop_alloc_ref = obj_lop_alloc\<rparr>"

definition DHASH_FT_NOLOCK :: u32 where "DHASH_FT_NOLOCK = 1"

definition vos_obj_cache_create :: "int \<Rightarrow> obj_cache" where
  "vos_obj_cache_create cache_size = daos_lru_cache_create cache_size DHASH_FT_NOLOCK"

definition vos_obj_cache_destroy :: "obj_env \<Rightarrow> obj_cache \<Rightarrow> vos_object llinks option" where
  "vos_obj_cache_destroy env occ = daos_lru_cache_destroy (obj_lru_ops env) occ"

definition obj_cache_evict_cond :: "nat option \<Rightarrow> vos_object \<Rightarrow> bool" where
  "obj_cache_evict_cond cont obj = (case cont of None \<Rightarrow> True | Some c \<Rightarrow> obj_cont obj = c)"

definition vos_obj_cache_evict :: "obj_env \<Rightarrow> nat option \<Rightarrow> obj_cache \<Rightarrow> obj_cache option" where
  "vos_obj_cache_evict env cont occ = daos_lru_cache_evict (obj_lru_ops env) (Some (obj_cache_evict_cond cont)) occ"

definition vos_obj_release :: "obj_env \<Rightarrow> rid \<Rightarrow> obj_cache \<Rightarrow> obj_cache option" where
  "vos_obj_release env obj occ = daos_lru_ref_release (obj_lru_ops env) obj occ"

definition vos_obj_evict :: "rid \<Rightarrow> obj_cache \<Rightarrow> obj_cache" where
  "vos_obj_evict obj occ = daos_lru_ref_evict obj occ"

definition vos_obj_evicted :: "obj_cache \<Rightarrow> rid \<Rightarrow> bool option" where
  "vos_obj_evicted occ obj = daos_lru_ref_evicted occ obj"

definition lru_obj_key :: "obj_env \<Rightarrow> nat \<Rightarrow> bytes \<Rightarrow> bytes" where
  "lru_obj_key env cont oid = uuid_bytes (vc_id env cont) @ oid"

text \<open>
  The loop that holds an object. A cached object for other epochs is evicted and the search repeated. The
  second result tells whether the object has a descriptor already.
\<close>

partial_function (option) hold_loop :: "obj_env \<Rightarrow> nat \<Rightarrow> bytes \<Rightarrow> u64 \<Rightarrow> obj_cache \<Rightarrow> ((rid \<times> bool) res \<times> obj_cache) option" where
  "hold_loop env cont oid epoch occ =
     do {
       (r, occ1) \<leftarrow> daos_lru_ref_hold (obj_lru_ops env) (lru_obj_key env cont oid) (Some cont) (new_obj env (dlc_links occ)) occ;
       case r of
         Inl e \<Rightarrow> Some (Inl e, occ1)
       | Inr obj \<Rightarrow>
           do {
             k \<leftarrow> dlc_links occ1 obj;
             case obj_df (ll_item k) of
               None \<Rightarrow> Some (Inr (obj, False), occ1)
             | Some df \<Rightarrow>
                 if fst (df_epochs env df) \<le> epoch \<and> snd (df_epochs env df) \<ge> epoch then Some (Inr (obj, True), occ1)
                 else do {
                   occ2 \<leftarrow> vos_obj_release env obj (vos_obj_evict obj occ1);
                   hold_loop env cont oid epoch occ2
                 }
           }
     }"

declare hold_loop.simps [code]

definition set_obj_df :: "rid \<Rightarrow> nat option \<Rightarrow> obj_cache \<Rightarrow> obj_cache" where
  "set_obj_df obj df occ =
     occ\<lparr>dlc_links := upd_llink obj (\<lambda>k. k\<lparr>ll_item := (ll_item k)\<lparr>obj_df := df\<rparr>\<rparr>) (dlc_links occ)\<rparr>"

definition vos_obj_hold :: "obj_env \<Rightarrow> nat \<Rightarrow> bytes \<Rightarrow> u64 \<Rightarrow> bool \<Rightarrow> obj_cache \<Rightarrow> (rid res \<times> obj_cache) option" where
  "vos_obj_hold env cont oid epoch no_create occ =
     do {
       (r, occ1) \<leftarrow> hold_loop env cont oid epoch occ;
       case r of
         Inl e \<Rightarrow> Some (Inl e, occ1)
       | Inr (obj, True) \<Rightarrow> Some (Inr obj, occ1)
       | Inr (obj, False) \<Rightarrow>
           do {
             rc \<leftarrow> (if no_create then Some (vos_oi_find env cont oid epoch) else vos_oi_find_alloc env cont oid epoch);
             case rc of
               Inr df \<Rightarrow> Some (Inr obj, set_obj_df obj (Some df) occ1)
             | Inl e \<Rightarrow>
                 if no_create \<and> e = DER_NONEXIST then Some (Inr obj, set_obj_df obj None occ1)
                 else do { occ2 \<leftarrow> vos_obj_release env obj occ1; Some (Inl e, occ2) }
           }
     }"

definition vos_obj_revalidate :: "obj_env \<Rightarrow> u64 \<Rightarrow> rid \<Rightarrow> obj_cache \<Rightarrow> (rid res \<times> obj_cache) option" where
  "vos_obj_revalidate env epoch obj occ =
     do {
       evicted \<leftarrow> vos_obj_evicted occ obj;
       if \<not> evicted then Some (Inr obj, occ)
       else do {
         k \<leftarrow> dlc_links occ obj;
         (r, occ1) \<leftarrow> vos_obj_hold env (obj_cont (ll_item k)) (obj_id (ll_item k)) epoch (obj_df (ll_item k) = None) occ;
         case r of
           Inl e \<Rightarrow> Some (Inl e, occ1)
         | Inr obj' \<Rightarrow>
             if obj' = obj then None
             else do { occ2 \<leftarrow> vos_obj_release env obj occ1; Some (Inr obj', occ2) }
       }
     }"

section \<open>The cache of objects is such a cache\<close>

definition obj_key :: "obj_env \<Rightarrow> vos_object \<Rightarrow> bytes" where
  "obj_key env obj = lru_obj_key env (obj_cont obj) (obj_id obj)"

definition obj_args_ok :: "obj_env \<Rightarrow> bytes \<Rightarrow> nat \<Rightarrow> bool" where
  "obj_args_ok env key cont \<longleftrightarrow> take 16 key = uuid_bytes (vc_id env cont)"

lemma length_uuid_bytes [simp]: "length (uuid_bytes u) = 16"
  by (simp add: uuid_bytes_def)

lemma obj_key_args [simp]: "obj_args_ok env (lru_obj_key env cont oid) cont" "lru_obj_key env cont oid \<noteq> []"
  using length_uuid_bytes[of "vc_id env cont"] by (auto simp: obj_args_ok_def lru_obj_key_def simp del: length_uuid_bytes)

interpretation obj: lru_client "obj_lru_ops env" "obj_key env" "obj_args_ok env" for env
proof
  show "lop_cmp_keys (obj_lru_ops env) key item \<longleftrightarrow> obj_key env item = key" for key item
    by (auto simp: obj_lru_ops_def obj_lop_cmp_key_def obj_key_def lru_obj_key_def append_eq_conv_conj)
  show "obj_args_ok env key args \<Longrightarrow> \<exists>r. lop_alloc_ref (obj_lru_ops env) key args lc = Some (r, lc) \<and>
      (\<forall>item. r = Inr item \<longrightarrow> obj_key env item = key)" for key args lc
    by (auto simp: obj_lru_ops_def obj_lop_alloc_def obj_key_def lru_obj_key_def obj_args_ok_def)
      (metis append_take_drop_id)
qed

end
