(* ===== verification/Obj_Props.thy ===== *)
theory Obj_Props
  imports Obj_Cache
begin

text \<open>
  What the cache of objects promises to its users, in every state that they can bring it to.
\<close>

abbreviation cache_ok :: "obj_env \<Rightarrow> obj_cache \<Rightarrow> bool" where
  "cache_ok env \<equiv> lru_inv (obj_lru_ops env) (obj_key env)"

definition covers :: "obj_env \<Rightarrow> nat \<Rightarrow> u64 \<Rightarrow> bool" where
  "covers env df epoch \<longleftrightarrow> fst (df_epochs env df) \<le> epoch \<and> epoch \<le> snd (df_epochs env df)"

text \<open>
  The allocator returns an address that is free. A lookup in the index finds a descriptor whose epochs
  overlap the key; an update for an epoch at which there is no object creates a descriptor for the key.
\<close>

definition alloc_ok :: "obj_env \<Rightarrow> bool" where
  "alloc_ok env \<longleftrightarrow> (\<forall>s. finite (dom s) \<longrightarrow> s (new_obj env s) = None)"

definition index_ok :: "obj_env \<Rightarrow> bool" where
  "index_ok env \<longleftrightarrow>
     (\<forall>c key df. oi_lookup env c key = Inr df \<longrightarrow>
        fst (df_epochs env df) \<le> o_epc_hi key \<and> o_epc_lo key \<le> snd (df_epochs env df)) \<and>
     (\<forall>c oid epoch e df. vos_oi_find env c oid epoch = Inl e \<longrightarrow>
        oi_update env c \<lparr>o_oid = oid, o_epc_lo = epoch, o_epc_hi = DAOS_EPOCH_MAX\<rparr> = Some (Inr df) \<longrightarrow>
        df_epochs env df = (epoch, DAOS_EPOCH_MAX))"

lemma oi_covers:
  assumes "index_ok env"
  shows "vos_oi_find env c oid epoch = Inr df \<Longrightarrow> covers env df epoch"
    "vos_oi_find_alloc env c oid epoch = Some (Inr df) \<Longrightarrow> covers env df epoch"
proof -
  show f: "vos_oi_find env c oid epoch = Inr df \<Longrightarrow> covers env df epoch" for df
    using assms by (fastforce simp: index_ok_def vos_oi_find_def covers_def split: if_splits)
  assume u: "vos_oi_find_alloc env c oid epoch = Some (Inr df)"
  show "covers env df epoch"
  proof (cases "vos_oi_find env c oid epoch")
    case (Inl e)
    then have "oi_update env c \<lparr>o_oid = oid, o_epc_lo = epoch, o_epc_hi = DAOS_EPOCH_MAX\<rparr> = Some (Inr df)"
      using u by (simp add: vos_oi_find_alloc_def)
    then have "df_epochs env df = (epoch, DAOS_EPOCH_MAX)" using assms Inl unfolding index_ok_def by blast
    then show ?thesis by (simp add: covers_def DAOS_EPOCH_MAX_def)
  next
    case (Inr d)
    then show ?thesis using u f by (simp add: vos_oi_find_alloc_def)
  qed
qed

text \<open>The cache depends on its parameters only by the UUIDs of the containers.\<close>

lemma cache_ok_cong: "vc_id env = vc_id env' \<Longrightarrow> cache_ok env occ = cache_ok env' occ"
proof -
  assume v: "vc_id env = vc_id env'"
  have "obj_lru_ops env = obj_lru_ops env'" using v by (simp add: obj_lru_ops_def obj_lop_cmp_key_def fun_eq_iff)
  moreover have "obj_key env = obj_key env'" using v by (simp add: obj_key_def lru_obj_key_def fun_eq_iff)
  ultimately show ?thesis by simp
qed

lemma cache_finite: "cache_ok env occ \<Longrightarrow> finite (dom (dlc_links occ))"
  by (simp add: lru_inv_def)

lemma cache_new: "cache_ok env occ \<Longrightarrow> alloc_ok env \<Longrightarrow> dlc_links occ (new_obj env (dlc_links occ)) = None"
  using cache_finite by (simp add: alloc_ok_def)

section \<open>Holding an object\<close>

text \<open>Release and eviction in the cache of objects.\<close>

lemma busy_iff:
  assumes "cache_ok env occ"
  shows "l \<in> set (dlc_busy_list occ) \<longleftrightarrow> (\<exists>k. dlc_links occ l = Some k \<and> ll_ref k \<ge> 2)"
proof
  assume "l \<in> set (dlc_busy_list occ)"
  then show "\<exists>k. dlc_links occ l = Some k \<and> ll_ref k \<ge> 2"
    using obj.inv_live[OF assms, of l] obj.okD(7)[OF assms] by blast
next
  assume "\<exists>k. dlc_links occ l = Some k \<and> ll_ref k \<ge> 2"
  then obtain k where k: "dlc_links occ l = Some k" "ll_ref k \<noteq> 1" by auto
  then have "l \<in> set (dlc_idle_list occ) \<union> set (dlc_busy_list occ)" using obj.okD(2)[OF assms] by blast
  then show "l \<in> set (dlc_busy_list occ)" using k obj.okD(6)[OF assms] by blast
qed

lemma release_ok:
  assumes "cache_ok env occ" "l \<in> set (dlc_busy_list occ)"
  shows "\<exists>occ'. vos_obj_release env l occ = Some occ' \<and> cache_ok env occ' \<and>
    (dlc_idle_nr occ' = 0 \<or> dlc_busy_nr occ' + dlc_idle_nr occ' < dlc_csize occ') \<and> dlc_csize occ' = dlc_csize occ \<and>
    (\<forall>u k. u \<noteq> l \<and> dlc_links occ u = Some k \<and> ll_ref k \<ge> 2 \<longrightarrow> dlc_links occ' u = Some k)"
proof -
  obtain k where k: "dlc_links occ l = Some k" using obj.inv_live[OF assms(1), of l] assms(2) by auto
  obtain occ1 where o: "cache_ok env occ1" "daos_lru_ref_release (obj_lru_ops env) l occ = evict_loop (obj_lru_ops env) occ1"
    "dlc_csize occ1 = dlc_csize occ" "\<forall>u. u \<noteq> l \<longrightarrow> dlc_links occ1 u = dlc_links occ u"
    using obj.release_one[OF assms k] by auto
  obtain occ' where e: "evict_loop (obj_lru_ops env) occ1 = Some occ'" "cache_ok env occ'"
    "dlc_idle_nr occ' = 0 \<or> dlc_busy_nr occ' + dlc_idle_nr occ' < dlc_csize occ'" "dlc_csize occ' = dlc_csize occ1"
    "dlc_links occ' = dlc_links occ1 |` (set (dlc_idle_list occ') \<union> set (dlc_busy_list occ1))"
    using obj.evict_loop_ok[OF o(1)] by auto
  have "dlc_links occ' u = Some k" if "u \<noteq> l" "dlc_links occ u = Some k" "ll_ref k \<ge> 2" for u k
    using that o(4) busy_iff[OF o(1), of u] e(5) by auto
  then show ?thesis using o(2,3) e by (auto simp: vos_obj_release_def)
qed

text \<open>An object that was evicted while it was held stays with its holder.\<close>

definition evicted_stay :: "obj_cache \<Rightarrow> obj_cache \<Rightarrow> bool" where
  "evicted_stay occ occ' \<longleftrightarrow> (\<forall>l k. dlc_links occ l = Some k \<and> ll_evicted k \<and> ll_ref k \<ge> 2 \<longrightarrow> dlc_links occ' l = Some k)"

lemma evicted_stay_trans: "evicted_stay a b \<Longrightarrow> evicted_stay b c \<Longrightarrow> evicted_stay a c"
  by (simp add: evicted_stay_def)

lemma release_evicted_key:
  assumes "cache_ok env occ" "l \<in> set (dlc_busy_list occ)" "vos_obj_release env l (vos_obj_evict l occ) = Some occ'"
    and "lru_key (obj_key env) (dlc_links occ) l = Some key"
  shows "\<forall>u. lru_key (obj_key env) (dlc_links occ') u \<noteq> Some key"
proof -
  let ?occ = "vos_obj_evict l occ"
  obtain k0 where k0: "dlc_links occ l = Some k0" using obj.inv_live[OF assms(1), of l] assms(2) by auto
  have links: "dlc_links ?occ = (dlc_links occ)(l \<mapsto> k0\<lparr>ll_evicted := True\<rparr>)"
    using k0 by (simp add: vos_obj_evict_def daos_lru_ref_evict_def upd_llink_def)
  have ok: "cache_ok env ?occ" unfolding vos_obj_evict_def by (rule obj.evict_held[OF assms(1,2)])
  have busy: "l \<in> set (dlc_busy_list ?occ)" using assms(2) by (simp add: vos_obj_evict_def daos_lru_ref_evict_def)
  obtain occ1 where o: "cache_ok env occ1" "daos_lru_ref_release (obj_lru_ops env) l ?occ = evict_loop (obj_lru_ops env) occ1"
    "dlc_links occ1 = (dlc_links ?occ)(l := (if ll_ref k0 = 2 then None else Some (k0\<lparr>ll_evicted := True, ll_ref := ll_ref k0 - 1\<rparr>)))"
    using obj.release_one[OF ok busy, of "k0\<lparr>ll_evicted := True\<rparr>"] links by auto
  have no: "lru_key (obj_key env) (dlc_links occ1) u \<noteq> Some key" for u
  proof
    assume u: "lru_key (obj_key env) (dlc_links occ1) u = Some key"
    then have "u \<noteq> l" using o(3) by (auto simp: lru_key_def split: option.splits if_splits)
    then have "lru_key (obj_key env) (dlc_links occ) u = Some key" using u o(3) links by (auto simp: lru_key_def)
    then show False using obj.inv_unique[OF assms(1) _ assms(4)] \<open>u \<noteq> l\<close> by blast
  qed
  obtain X where "dlc_links occ' = dlc_links occ1 |` X"
    using obj.evict_loop_ok[OF o(1)] o(2) assms(3) by (auto simp: vos_obj_release_def)
  then show ?thesis using no by (auto simp: lru_key_def restrict_map_def split: if_splits)
qed

lemma hold_loop_new:
  assumes "cache_ok env occ" "alloc_ok env" "\<forall>u. lru_key (obj_key env) (dlc_links occ) u \<noteq> Some (lru_obj_key env cont oid)"
  shows "\<exists>obj k occ'. hold_loop env cont oid epoch occ = Some (Inr (obj, False), occ') \<and> cache_ok env occ' \<and>
    obj \<in> set (dlc_busy_list occ') \<and> dlc_links occ' obj = Some k \<and> \<not> ll_evicted k \<and>
    obj_key env (ll_item k) = lru_obj_key env cont oid \<and> obj_df (ll_item k) = None \<and> evicted_stay occ occ'"
proof -
  have args: "\<forall>args. Some cont = Some args \<longrightarrow> obj_args_ok env (lru_obj_key env cont oid) args" by auto
  show ?thesis
  proof (cases rule: obj.hold_ok[OF assms(1) obj_key_args(2)[of env cont oid] cache_new[OF assms(1,2)] args])
    case (1 l k occ')
    then show ?thesis using assms(3) by blast
  next
    case (2 item occ' args)
    then show ?thesis
      using cache_new[OF assms(1,2)]
      by (subst hold_loop.simps) (auto simp: obj_lru_ops_def obj_lop_alloc_def evicted_stay_def)
  next
    case (3 e)
    then show ?thesis by (auto simp: obj_lru_ops_def obj_lop_alloc_def)
  qed
qed

text \<open>
  The loop ends: an object for other epochs is evicted, so that the next search creates one.
\<close>

lemma hold_loop_ok:
  assumes "cache_ok env occ" "alloc_ok env"
  shows "\<exists>obj k found occ'. hold_loop env cont oid epoch occ = Some (Inr (obj, found), occ') \<and> cache_ok env occ' \<and>
    obj \<in> set (dlc_busy_list occ') \<and> dlc_links occ' obj = Some k \<and> \<not> ll_evicted k \<and>
    obj_key env (ll_item k) = lru_obj_key env cont oid \<and>
    (if found then \<exists>df. obj_df (ll_item k) = Some df \<and> covers env df epoch else obj_df (ll_item k) = None) \<and> evicted_stay occ occ'"
proof -
  have args: "\<forall>args. Some cont = Some args \<longrightarrow> obj_args_ok env (lru_obj_key env cont oid) args" by auto
  show ?thesis
  proof (cases rule: obj.hold_ok[OF assms(1) obj_key_args(2)[of env cont oid] cache_new[OF assms] args])
    case (1 l k occ1)
    have key: "lru_key (obj_key env) (dlc_links occ1) l = Some (lru_obj_key env cont oid)"
      using 1(1,2) by (simp add: 1(6) lru_key_def split: if_splits)
    then have k: "\<not> ll_evicted k" "obj_key env (ll_item k) = lru_obj_key env cont oid"
      using 1(1,2) by (auto simp: lru_key_def split: if_splits)
    show ?thesis
    proof (cases "\<exists>df. obj_df (ll_item k) = Some df \<and> \<not> covers env df epoch")
      case True
      then obtain df where df: "obj_df (ll_item k) = Some df" "\<not> covers env df epoch" by blast
      have e1: "evicted_stay occ (vos_obj_evict l occ1)"
        using 1(2) k(1) by (auto simp: evicted_stay_def vos_obj_evict_def daos_lru_ref_evict_def upd_llink_def 1(6))
      have ev: "cache_ok env (vos_obj_evict l occ1)" "l \<in> set (dlc_busy_list (vos_obj_evict l occ1))"
        using obj.evict_held[OF 1(4,5)] 1(5) by (simp_all add: vos_obj_evict_def daos_lru_ref_evict_def)
      obtain occ2 where o: "vos_obj_release env l (vos_obj_evict l occ1) = Some occ2" "cache_ok env occ2"
        "\<forall>u k. u \<noteq> l \<and> dlc_links (vos_obj_evict l occ1) u = Some k \<and> ll_ref k \<ge> 2 \<longrightarrow> dlc_links occ2 u = Some k"
        using release_ok[OF ev] by blast
      have stay: "evicted_stay occ occ2"
        using e1 o(3) 1(2) k(1) unfolding evicted_stay_def by (metis option.inject)
      note none = release_evicted_key[OF 1(4,5) o(1) key]
      have "hold_loop env cont oid epoch occ = hold_loop env cont oid epoch occ2"
        using 1(3) df o(1) by (subst hold_loop.simps) (auto simp: 1(6) covers_def)
      then show ?thesis using hold_loop_new[OF o(2) assms(2) none, of epoch] evicted_stay_trans[OF stay] by force
    next
      case False
      have "evicted_stay occ occ1" using 1(2) k(1) by (auto simp: evicted_stay_def 1(6))
      then show ?thesis
        using False 1(3-5) k by (subst hold_loop.simps) (cases "obj_df (ll_item k)"; auto simp: 1(6) covers_def)
    qed
  next
    case (2 item occ' args)
    then show ?thesis using hold_loop_new[OF assms, of cont oid epoch] by force
  next
    case (3 e)
    then show ?thesis by (auto simp: obj_lru_ops_def obj_lop_alloc_def)
  qed
qed

text \<open>Writing the descriptor of an object does not concern the cache.\<close>

lemma set_df_ok:
  assumes "cache_ok env occ"
  shows "cache_ok env (set_obj_df l df occ)"
proof (cases "dlc_links occ l")
  case None
  then have "set_obj_df l df occ = occ" by (cases occ) (auto simp: set_obj_df_def upd_llink_def)
  then show ?thesis using assms by simp
next
  case (Some k)
  let ?s = "(dlc_links occ)(l \<mapsto> k\<lparr>ll_item := (ll_item k)\<lparr>obj_df := df\<rparr>\<rparr>)"
  have s: "dlc_links (set_obj_df l df occ) = ?s" using Some by (simp add: set_obj_df_def upd_llink_def)
  have key: "lru_key (obj_key env) ?s = lru_key (obj_key env) (dlc_links occ)"
    using Some by (auto simp: lru_key_def obj_key_def fun_eq_iff)
  have t: "table_ok (lru_ops (obj_lru_ops env)) (lru_key (obj_key env)) (dlc_htable occ) ?s"
    by (rule obj.tab.table_ok_state[OF obj.inv_table[OF assms]]) (simp add: key)
  have d: "dom ?s = dom (dlc_links occ)" using Some by auto
  have r: "ll_ref k' = ll_ref k'' \<and> ll_evicted k' = ll_evicted k''"
    if "?s u = Some k'" "dlc_links occ u = Some k''" for u k' k''
    using that Some by (auto split: if_splits)
  have rest: "dlc_htable (set_obj_df l df occ) = dlc_htable occ" "dlc_busy_list (set_obj_df l df occ) = dlc_busy_list occ"
    "dlc_idle_list (set_obj_df l df occ) = dlc_idle_list occ" "dlc_busy_nr (set_obj_df l df occ) = dlc_busy_nr occ"
    "dlc_idle_nr (set_obj_df l df occ) = dlc_idle_nr occ"
    by (simp_all add: set_obj_df_def upd_llink_def split: option.split)
  note ok = obj.okD[OF assms]
  show ?thesis
    unfolding lru_inv_def s rest key
  proof (intro conjI, goal_cases)
    case 7
    show ?case using r ok(2,6) by (metis UnI1 domD)
  next
    case 8
    show ?case using r ok(2,7) by (metis UnI2 domD)
  next
    case 9
    show ?case using obj.inv_unique[OF assms] by blast
  qed (use t d ok(1-5) in simp_all)
qed

lemma evict_cache_ok:
  assumes "cache_ok env occ"
  shows "\<exists>occ'. vos_obj_cache_evict env cont occ = Some occ' \<and> cache_ok env occ' \<and>
    dlc_busy_list occ' = dlc_busy_list occ \<and>
    (\<forall>l. dlc_links occ' l = (case dlc_links occ l of
       None \<Rightarrow> None
     | Some k \<Rightarrow> if \<not> obj_cache_evict_cond cont (ll_item k) then Some k
                 else if l \<in> set (dlc_busy_list occ) then Some (k\<lparr>ll_evicted := True\<rparr>) else None))"
proof -
  let ?c = "Some (obj_cache_evict_cond cont)"
  obtain occ1 where o: "evict_busy ?c (dlc_busy_list occ) occ = Some occ1" "cache_ok env occ1"
    "dlc_idle_list occ1 = dlc_idle_list occ" "dlc_busy_list occ1 = dlc_busy_list occ"
    "\<forall>u. dlc_links occ1 u = (if u \<in> set (dlc_busy_list occ) then map_option (marked ?c) (dlc_links occ u) else dlc_links occ u)"
    using obj.evict_busy_ok[OF assms, of "dlc_busy_list occ" ?c] by auto
  have d: "distinct (dlc_idle_list occ1)" using obj.okD(3)[OF o(2)] by simp
  obtain occ2 where e: "evict_idle (obj_lru_ops env) ?c (dlc_idle_list occ1) occ1 = Some occ2" "cache_ok env occ2"
    "dlc_busy_list occ2 = dlc_busy_list occ1"
    "\<forall>u. dlc_links occ2 u = (case dlc_links occ1 u of
        None \<Rightarrow> None | Some k \<Rightarrow> if u \<in> set (dlc_idle_list occ1) \<and> hit ?c (ll_item k) then None else Some k)"
    using obj.evict_idle_ok[OF o(2) d subset_refl, of ?c] by blast
  have "dlc_links occ2 l = (case dlc_links occ l of
       None \<Rightarrow> None
     | Some k \<Rightarrow> if \<not> obj_cache_evict_cond cont (ll_item k) then Some k
                 else if l \<in> set (dlc_busy_list occ) then Some (k\<lparr>ll_evicted := True\<rparr>) else None)" for l
  proof (cases "dlc_links occ l")
    case (Some k)
    then have "l \<in> set (dlc_idle_list occ) \<union> set (dlc_busy_list occ)" using obj.okD(2)[OF assms] by blast
    moreover have "l \<in> set (dlc_idle_list occ) \<Longrightarrow> l \<notin> set (dlc_busy_list occ)" using obj.okD(3)[OF assms] by auto
    ultimately show ?thesis using Some o(3,5) e(4) by (auto simp: marked_def)
  qed (use o(5) e(4) in auto)
  then show ?thesis
    using o(1,4) e(1-3) by (auto simp: vos_obj_cache_evict_def daos_lru_cache_evict_def)
qed

text \<open>
  What a hold gives. It fails to return only if the update of the index does.
\<close>

definition hold_result :: "obj_env \<Rightarrow> nat \<Rightarrow> bytes \<Rightarrow> u64 \<Rightarrow> bool \<Rightarrow> rid res \<Rightarrow> obj_cache \<Rightarrow> bool" where
  "hold_result env cont oid epoch no_create r occ \<longleftrightarrow>
     (case r of
        Inl e \<Rightarrow> (if no_create then Some (vos_oi_find env cont oid epoch) else vos_oi_find_alloc env cont oid epoch) = Some (Inl e)
      | Inr obj \<Rightarrow> \<exists>k. obj \<in> set (dlc_busy_list occ) \<and> dlc_links occ obj = Some k \<and> \<not> ll_evicted k \<and>
          obj_key env (ll_item k) = lru_obj_key env cont oid \<and>
          (case obj_df (ll_item k) of
             Some df \<Rightarrow> covers env df epoch
           | None \<Rightarrow> no_create \<and> vos_oi_find env cont oid epoch = Inl DER_NONEXIST))"

lemma obj_hold_ok:
  assumes "cache_ok env occ" "alloc_ok env" "index_ok env"
  shows "case vos_obj_hold env cont oid epoch no_create occ of
      None \<Rightarrow> \<not> no_create \<and> vos_oi_find_alloc env cont oid epoch = None
    | Some (r, occ') \<Rightarrow> cache_ok env occ' \<and> evicted_stay occ occ' \<and> hold_result env cont oid epoch no_create r occ'"
proof -
  let ?oi = "if no_create then Some (vos_oi_find env cont oid epoch) else vos_oi_find_alloc env cont oid epoch"
  obtain obj k found occ1 where h: "hold_loop env cont oid epoch occ = Some (Inr (obj, found), occ1)" "cache_ok env occ1"
    "obj \<in> set (dlc_busy_list occ1)" "dlc_links occ1 obj = Some k" "\<not> ll_evicted k"
    "obj_key env (ll_item k) = lru_obj_key env cont oid" "evicted_stay occ occ1"
    "if found then \<exists>df. obj_df (ll_item k) = Some df \<and> covers env df epoch else obj_df (ll_item k) = None"
    using hold_loop_ok[OF assms(1,2)] by blast
  have link: "dlc_links (set_obj_df obj df occ1) obj = Some (k\<lparr>ll_item := (ll_item k)\<lparr>obj_df := df\<rparr>\<rparr>)"
    "dlc_busy_list (set_obj_df obj df occ1) = dlc_busy_list occ1" for df
    using h(4) by (simp_all add: set_obj_df_def upd_llink_def)
  have "evicted_stay occ1 (set_obj_df obj df occ1)" for df
    using h(4,5) by (auto simp: evicted_stay_def set_obj_df_def upd_llink_def)
  then have stay: "evicted_stay occ (set_obj_df obj df occ1)" for df using evicted_stay_trans[OF h(7)] by blast
  have key: "obj_key env ((ll_item k)\<lparr>obj_df := df\<rparr>) = lru_obj_key env cont oid" for df
    using h(6) by (simp add: obj_key_def)
  note set = link key stay set_df_ok[OF h(2)] h(3,5)
  obtain occ2 where o: "vos_obj_release env obj occ1 = Some occ2" "cache_ok env occ2"
    "\<forall>u k. u \<noteq> obj \<and> dlc_links occ1 u = Some k \<and> ll_ref k \<ge> 2 \<longrightarrow> dlc_links occ2 u = Some k"
    using release_ok[OF h(2,3)] by blast
  have "evicted_stay occ1 occ2" using o(3) h(4,5) unfolding evicted_stay_def by (metis option.inject)
  then have stay2: "evicted_stay occ occ2" using evicted_stay_trans[OF h(7)] by blast
  consider "found" | "\<not> found" "?oi = None" | df where "\<not> found" "?oi = Some (Inr df)" | e where "\<not> found" "?oi = Some (Inl e)"
    by (metis not_None_eq sum.exhaust)
  then show ?thesis
  proof cases
    case 1
    then show ?thesis using h by (auto simp: vos_obj_hold_def hold_result_def)
  next
    case 2
    then show ?thesis using h(1) by (auto simp: vos_obj_hold_def split: if_splits)
  next
    case (3 df)
    then have "covers env df epoch" using oi_covers[OF assms(3)] by (auto split: if_splits)
    then show ?thesis using 3 h(1) set by (auto simp: vos_obj_hold_def hold_result_def)
  next
    case (4 e)
    then show ?thesis using h(1) set o(1,2) stay2 by (auto simp: vos_obj_hold_def hold_result_def split: if_splits)
  qed
qed

lemma revalidate_ok:
  assumes "cache_ok env occ" "alloc_ok env" "index_ok env" "dlc_links occ obj = Some k" "ll_ref k \<ge> 2"
  shows "case vos_obj_revalidate env epoch obj occ of
      None \<Rightarrow> ll_evicted k \<and> vos_oi_find_alloc env (obj_cont (ll_item k)) (obj_id (ll_item k)) epoch = None
    | Some (r, occ') \<Rightarrow> cache_ok env occ' \<and>
        (case r of
           Inl e \<Rightarrow> ll_evicted k
         | Inr obj' \<Rightarrow> obj' \<in> set (dlc_busy_list occ') \<and> vos_obj_evicted occ' obj' = Some False \<and> (obj' = obj \<longleftrightarrow> \<not> ll_evicted k))"
proof (cases "ll_evicted k")
  case False
  moreover have "obj \<in> set (dlc_busy_list occ)" using busy_iff[OF assms(1)] assms(4,5) by blast
  ultimately show ?thesis using assms by (simp add: vos_obj_revalidate_def vos_obj_evicted_def daos_lru_ref_evicted_def)
next
  case True
  let ?hold = "vos_obj_hold env (obj_cont (ll_item k)) (obj_id (ll_item k)) epoch (obj_df (ll_item k) = None) occ"
  note ho = obj_hold_ok[OF assms(1-3), where cont = "obj_cont (ll_item k)" and oid = "obj_id (ll_item k)" and epoch = epoch
      and no_create = "obj_df (ll_item k) = None"]
  have ev: "vos_obj_evicted occ obj = Some True"
    using True assms(4) by (simp add: vos_obj_evicted_def daos_lru_ref_evicted_def)
  show ?thesis
  proof (cases ?hold)
    case None
    then show ?thesis using ho ev True assms(4) by (simp add: vos_obj_revalidate_def)
  next
    case (Some p)
    then obtain r occ1 where h: "?hold = Some (r, occ1)" "cache_ok env occ1" "evicted_stay occ occ1"
      "hold_result env (obj_cont (ll_item k)) (obj_id (ll_item k)) epoch (obj_df (ll_item k) = None) r occ1"
      using ho by (cases p) auto
    have o: "dlc_links occ1 obj = Some k" using h(3) assms(4,5) True by (simp add: evicted_stay_def)
    then have "obj \<in> set (dlc_busy_list occ1)" using busy_iff[OF h(2)] assms(5) by blast
    then obtain occ2 where r2: "vos_obj_release env obj occ1 = Some occ2" "cache_ok env occ2"
      "\<forall>u k. u \<noteq> obj \<and> dlc_links occ1 u = Some k \<and> ll_ref k \<ge> 2 \<longrightarrow> dlc_links occ2 u = Some k"
      using release_ok[OF h(2)] by blast
    show ?thesis
    proof (cases r)
      case (Inl e)
      then show ?thesis using h(1,2) ev True assms(4) by (simp add: vos_obj_revalidate_def)
    next
      case (Inr obj')
      then obtain k' where k': "dlc_links occ1 obj' = Some k'" "\<not> ll_evicted k'" "ll_ref k' \<ge> 2"
        using h(4) busy_iff[OF h(2), of obj'] by (auto simp: hold_result_def)
      then have ne: "obj' \<noteq> obj" using o True by auto
      then have l: "dlc_links occ2 obj' = Some k'" using r2(3) k' by blast
      then have "obj' \<in> set (dlc_busy_list occ2)" using busy_iff[OF r2(2)] k'(3) by blast
      then show ?thesis
        using h(1) r2(1,2) ev True assms(4) k' Inr ne l
        by (simp add: vos_obj_revalidate_def vos_obj_evicted_def daos_lru_ref_evicted_def)
    qed
  qed
qed

section \<open>The states of the cache\<close>

text \<open>
  What the server can make of a cache: it creates one with a size that an \<^verbatim>\<open>int\<close> can hold, holds objects,
  releases, evicts and revalidates objects that it holds, and evicts the objects of a container that is
  closed. The index and the descriptors may change between these steps; the UUIDs of the containers do not.
\<close>

inductive obj_reach :: "(nat \<Rightarrow> co_uuid) \<Rightarrow> int \<Rightarrow> obj_cache \<Rightarrow> bool" for ids :: "nat \<Rightarrow> co_uuid" and bits :: int where
  obj_created: "bits < 31 \<Longrightarrow> obj_reach ids bits (vos_obj_cache_create bits)"
| obj_held: "\<lbrakk>obj_reach ids bits occ; vc_id env = ids; alloc_ok env; index_ok env;
    vos_obj_hold env cont oid epoch no_create occ = Some (r, occ')\<rbrakk> \<Longrightarrow> obj_reach ids bits occ'"
| obj_released: "\<lbrakk>obj_reach ids bits occ; vc_id env = ids; obj \<in> set (dlc_busy_list occ); vos_obj_release env obj occ = Some occ'\<rbrakk> \<Longrightarrow>
    obj_reach ids bits occ'"
| obj_evicted: "\<lbrakk>obj_reach ids bits occ; obj \<in> set (dlc_busy_list occ)\<rbrakk> \<Longrightarrow> obj_reach ids bits (vos_obj_evict obj occ)"
| obj_revalidated: "\<lbrakk>obj_reach ids bits occ; vc_id env = ids; alloc_ok env; index_ok env; obj \<in> set (dlc_busy_list occ);
    vos_obj_revalidate env epoch obj occ = Some (r, occ')\<rbrakk> \<Longrightarrow> obj_reach ids bits occ'"
| obj_cache_evicted: "\<lbrakk>obj_reach ids bits occ; vc_id env = ids; vos_obj_cache_evict env cont occ = Some occ'\<rbrakk> \<Longrightarrow>
    obj_reach ids bits occ'"

lemma created_ok: "bits < 31 \<Longrightarrow> cache_ok env (vos_obj_cache_create bits)"
  unfolding lru_inv_def vos_obj_cache_create_def daos_lru_cache_create_def
  using obj.tab.table_ok_new[of "nat (max 4 (bits - 3))" env DHASH_FT_NOLOCK "\<lambda>l. None"]
  by (auto simp: lru_key_def linked_def dhash_table_create_inplace_def)

lemma reach_cache_ok:
  assumes "obj_reach ids bits occ"
  shows "vc_id env = ids \<Longrightarrow> cache_ok env occ"
  using assms
proof (induction arbitrary: env)
  case obj_created
  then show ?case by (simp add: created_ok)
next
  case (obj_held occ env' cont oid epoch no_create r occ')
  have "cache_ok env' occ'"
    using obj_hold_ok[OF obj_held.IH[OF obj_held.hyps(2)] obj_held.hyps(3,4), where cont = cont and oid = oid and epoch = epoch and no_create = no_create] obj_held.hyps(5) by simp
  then show ?case using cache_ok_cong[of env env'] obj_held.hyps(2) obj_held.prems by simp
next
  case (obj_released occ env' obj occ')
  then have "cache_ok env' occ'" using release_ok[of env' occ obj] by auto
  then show ?case using cache_ok_cong[of env env'] obj_released by simp
next
  case (obj_evicted occ obj)
  then show ?case using obj.evict_held[of env occ obj] by (simp add: vos_obj_evict_def)
next
  case (obj_revalidated occ env' obj epoch r occ')
  note ok = obj_revalidated.IH[OF obj_revalidated.hyps(2)]
  obtain k where k: "dlc_links occ obj = Some k" "ll_ref k \<ge> 2" using busy_iff[OF ok] obj_revalidated.hyps(5) by blast
  have "cache_ok env' occ'"
    using revalidate_ok[OF ok obj_revalidated.hyps(3,4) k, where epoch = epoch] obj_revalidated.hyps(6) by simp
  then show ?case using cache_ok_cong[of env env'] obj_revalidated.hyps(2) obj_revalidated.prems by simp
next
  case (obj_cache_evicted occ env' cont occ')
  then have "cache_ok env' occ'" using evict_cache_ok[of env' occ cont] by auto
  then show ?case using cache_ok_cong[of env env'] obj_cache_evicted by simp
qed

section \<open>Properties\<close>

text \<open>A model of the parameters: an index that creates every object, and the allocator that takes the lowest address.\<close>

definition obj_env0 :: obj_env where
  "obj_env0 = \<lparr>vc_id = (\<lambda>c. (0, of_nat c)), vc_otab_df = (\<lambda>c. True), df_epochs = (\<lambda>df. (of_nat df, DAOS_EPOCH_MAX)),
    oi_lookup = (\<lambda>c key. Inl DER_NONEXIST), oi_update = (\<lambda>c key. Some (Inr (unat (o_epc_lo key)))),
    new_obj = (\<lambda>s. LEAST l. s l = None)\<rparr>"

abbreviation ids0 :: "nat \<Rightarrow> co_uuid" where
  "ids0 \<equiv> vc_id obj_env0"

lemma obj_env0_ok: "alloc_ok obj_env0" "index_ok obj_env0"
proof -
  have "s (LEAST l. s l = None) = None" if f: "finite (dom s)" for s :: "vos_object llinks"
  proof (rule LeastI_ex)
    obtain l where "l \<notin> dom s" using ex_new_if_finite[OF infinite_UNIV_nat f] by blast
    then show "\<exists>l. s l = None" by (auto simp: domIff)
  qed
  then show "alloc_ok obj_env0" by (simp add: alloc_ok_def obj_env0_def)
  show "index_ok obj_env0" by (simp add: index_ok_def obj_env0_def)
qed

lemma obj_env0_alloc [simp]: "vos_oi_find_alloc obj_env0 c oid epoch = Some (Inr (unat epoch))"
  by (simp add: obj_env0_def vos_oi_find_alloc_def vos_oi_find_def)

text \<open>A cache with an object that is held.\<close>

lemma obj_env0_held:
  obtains occ obj where "obj_reach ids0 10 occ" "obj \<in> set (dlc_busy_list occ)"
proof -
  obtain r occ where h: "vos_obj_hold obj_env0 1 [] 7 False (vos_obj_cache_create 10) = Some (r, occ)"
    "hold_result obj_env0 1 [] 7 False r occ"
    using obj_hold_ok[OF created_ok[of 10 obj_env0] obj_env0_ok, where cont = 1 and oid = "[]" and epoch = 7 and no_create = False] by (auto split: option.splits)
  then obtain obj where "obj \<in> set (dlc_busy_list occ)" by (auto simp: hold_result_def split: sum.splits)
  then show thesis using that obj_held[OF obj_created refl obj_env0_ok h(1)] by simp
qed

text \<open>
  C7. Holding an object returns, unless the update of the index fails an assertion. It gives an object of the
  container with the id asked for, which is held, in the cache and not evicted, and whose descriptor, if it
  has one, covers the epoch; it has none only if creation was not asked for and the index has no object for
  the epoch. The call fails only if the index does, and with its error.
\<close>

theorem vos_obj_hold_ok:
  assumes "obj_reach (vc_id env) bits occ" "alloc_ok env" "index_ok env"
  shows "case vos_obj_hold env cont oid epoch no_create occ of
      None \<Rightarrow> \<not> no_create \<and> vos_oi_find_alloc env cont oid epoch = None
    | Some (Inl e, occ') \<Rightarrow>
        (if no_create then Some (vos_oi_find env cont oid epoch) else vos_oi_find_alloc env cont oid epoch) = Some (Inl e)
    | Some (Inr obj, occ') \<Rightarrow>
        \<exists>k. obj \<in> set (dlc_busy_list occ') \<and> dlc_links occ' obj = Some k \<and> \<not> ll_evicted k \<and>
          obj_key env (ll_item k) = lru_obj_key env cont oid \<and>
          (case obj_df (ll_item k) of
             Some df \<Rightarrow> covers env df epoch
           | None \<Rightarrow> no_create \<and> vos_oi_find env cont oid epoch = Inl DER_NONEXIST)"
proof -
  note h = obj_hold_ok[OF reach_cache_ok[OF assms(1) refl] assms(2,3), where cont = cont and oid = oid and epoch = epoch
      and no_create = no_create]
  show ?thesis
  proof (cases "vos_obj_hold env cont oid epoch no_create occ")
    case None
    then show ?thesis using h by simp
  next
    case (Some p)
    obtain r occ' where "p = (r, occ')" by (cases p)
    then show ?thesis using h Some by (cases r) (simp_all only: hold_result_def option.case prod.case sum.case)
  qed
qed

theorem vos_obj_hold_ok_witness:
  "\<exists>occ. obj_reach ids0 10 occ \<and> dlc_busy_list occ \<noteq> [] \<and>
    (\<exists>obj k df occ'. vos_obj_hold obj_env0 2 [1] 7 False occ = Some (Inr obj, occ') \<and> dlc_links occ' obj = Some k \<and>
       obj_df (ll_item k) = Some df \<and> covers obj_env0 df 7)"
proof -
  obtain occ obj where o: "obj_reach ids0 10 occ" "obj \<in> set (dlc_busy_list occ)" by (rule obj_env0_held)
  note h = vos_obj_hold_ok[OF o(1) obj_env0_ok, where cont = 2 and oid = "[1]" and epoch = 7 and no_create = False]
  obtain r occ' where r: "vos_obj_hold obj_env0 2 [1] 7 False occ = Some (r, occ')"
    using h by (cases "vos_obj_hold obj_env0 2 [1] 7 False occ") auto
  have "\<exists>obj k df occ'. vos_obj_hold obj_env0 2 [1] 7 False occ = Some (Inr obj, occ') \<and> dlc_links occ' obj = Some k \<and>
       obj_df (ll_item k) = Some df \<and> covers obj_env0 df 7"
    using h r by (cases r) (auto split: option.splits)
  moreover have "dlc_busy_list occ \<noteq> []" using o(2) by auto
  ultimately show ?thesis using o(1) by blast
qed

text \<open>
  C35. An object that was evicted while it was held can be looked up again: revalidation returns, unless the
  update of the index fails an assertion. Its own assertion, that the new object is another one, holds. On
  success it gives an object that is held and not evicted, which is the same one just if that was not
  evicted.
\<close>

theorem vos_obj_revalidate_ok:
  assumes "obj_reach (vc_id env) bits occ" "alloc_ok env" "index_ok env" "obj \<in> set (dlc_busy_list occ)"
  shows "\<exists>k. dlc_links occ obj = Some k \<and>
    (case vos_obj_revalidate env epoch obj occ of
       None \<Rightarrow> ll_evicted k \<and> vos_oi_find_alloc env (obj_cont (ll_item k)) (obj_id (ll_item k)) epoch = None
     | Some (Inl e, occ') \<Rightarrow> ll_evicted k
     | Some (Inr obj', occ') \<Rightarrow>
         obj' \<in> set (dlc_busy_list occ') \<and> vos_obj_evicted occ' obj' = Some False \<and> (obj' = obj \<longleftrightarrow> \<not> ll_evicted k))"
proof -
  note ok = reach_cache_ok[OF assms(1) refl]
  obtain k where k: "dlc_links occ obj = Some k" "ll_ref k \<ge> 2" using busy_iff[OF ok] assms(4) by blast
  from revalidate_ok[OF ok assms(2,3) k, where epoch = epoch] show ?thesis
    using k(1) by (auto split: option.splits prod.splits sum.splits)
qed

theorem vos_obj_revalidate_ok_witness:
  "\<exists>occ obj. obj_reach ids0 10 occ \<and> vos_obj_evicted occ obj = Some True \<and>
    (\<exists>r occ'. vos_obj_revalidate obj_env0 7 obj occ = Some (r, occ') \<and> r \<noteq> Inr obj)"
proof -
  obtain occ obj where o: "obj_reach ids0 10 occ" "obj \<in> set (dlc_busy_list occ)" by (rule obj_env0_held)
  let ?occ = "vos_obj_evict obj occ"
  have e: "obj_reach ids0 10 ?occ" "obj \<in> set (dlc_busy_list ?occ)"
    using obj_evicted[OF o] o(2) by (simp_all add: vos_obj_evict_def daos_lru_ref_evict_def)
  obtain k where "dlc_links occ obj = Some k" using busy_iff[OF reach_cache_ok[OF o(1) refl]] o(2) by blast
  then have v: "dlc_links ?occ obj = Some (k\<lparr>ll_evicted := True\<rparr>)"
    by (simp add: vos_obj_evict_def daos_lru_ref_evict_def upd_llink_def)
  have "\<exists>r occ'. vos_obj_revalidate obj_env0 7 obj ?occ = Some (r, occ') \<and> r \<noteq> Inr obj"
    using vos_obj_revalidate_ok[OF e(1) obj_env0_ok e(2), where epoch = 7] v by (fastforce split: sum.splits option.splits prod.splits)
  moreover have "vos_obj_evicted ?occ obj = Some True" using v by (simp add: vos_obj_evicted_def daos_lru_ref_evicted_def)
  ultimately show ?thesis using e(1) by blast
qed

text \<open>
  C36. Releasing an object always returns, and makes room: afterwards no object is idle or the cache has fewer
  objects than its size. The objects that others hold stay as they are.
\<close>

theorem vos_obj_release_makes_room:
  assumes "obj_reach (vc_id env) bits occ" "obj \<in> set (dlc_busy_list occ)"
  shows "\<exists>occ'. vos_obj_release env obj occ = Some occ' \<and>
    (dlc_idle_list occ' = [] \<or> length (dlc_busy_list occ') + length (dlc_idle_list occ') < dlc_csize occ') \<and>
    (\<forall>u \<in> set (dlc_busy_list occ). u \<noteq> obj \<longrightarrow> dlc_links occ' u = dlc_links occ u)"
proof -
  note ok = reach_cache_ok[OF assms(1) refl]
  obtain occ' where r: "vos_obj_release env obj occ = Some occ'" "cache_ok env occ'"
    "dlc_idle_nr occ' = 0 \<or> dlc_busy_nr occ' + dlc_idle_nr occ' < dlc_csize occ'"
    "\<forall>u k. u \<noteq> obj \<and> dlc_links occ u = Some k \<and> ll_ref k \<ge> 2 \<longrightarrow> dlc_links occ' u = Some k"
    using release_ok[OF ok assms(2)] by blast
  then show ?thesis using obj.okD(4,5)[OF r(2)] busy_iff[OF ok] by (auto simp del: length_0_conv simp flip: length_0_conv)
qed

theorem vos_obj_release_makes_room_witness:
  "\<exists>occ obj occ'. obj_reach ids0 10 occ \<and> obj \<in> set (dlc_busy_list occ) \<and> vos_obj_release obj_env0 obj occ = Some occ' \<and>
    (dlc_idle_list occ' = [] \<or> length (dlc_busy_list occ') + length (dlc_idle_list occ') < dlc_csize occ')"
proof -
  obtain occ obj where o: "obj_reach ids0 10 occ" "obj \<in> set (dlc_busy_list occ)" by (rule obj_env0_held)
  then show ?thesis using vos_obj_release_makes_room[OF o] by blast
qed

text \<open>
  C37. Evicting the objects of a container leaves none that the container can be found with: those that are
  held are marked, the others are freed, and the objects of other containers stay as they are.
\<close>

theorem vos_obj_cache_evict_ok:
  assumes "obj_reach (vc_id env) bits occ"
  shows "\<exists>occ'. vos_obj_cache_evict env cont occ = Some occ' \<and> dlc_busy_list occ' = dlc_busy_list occ \<and>
    (\<forall>l. dlc_links occ' l = (case dlc_links occ l of
       None \<Rightarrow> None
     | Some k \<Rightarrow> if cont \<noteq> None \<and> cont \<noteq> Some (obj_cont (ll_item k)) then Some k
                 else if l \<in> set (dlc_busy_list occ) then Some (k\<lparr>ll_evicted := True\<rparr>) else None))"
proof -
  have c: "obj_cache_evict_cond cont obj \<longleftrightarrow> \<not> (cont \<noteq> None \<and> cont \<noteq> Some (obj_cont obj))" for obj
    by (auto simp: obj_cache_evict_cond_def split: option.splits)
  show ?thesis using evict_cache_ok[OF reach_cache_ok[OF assms refl], of cont] unfolding c not_not by blast
qed

theorem vos_obj_cache_evict_ok_witness:
  "\<exists>occ obj occ'. obj_reach ids0 10 occ \<and> obj \<in> set (dlc_busy_list occ) \<and>
    vos_obj_cache_evict obj_env0 None occ = Some occ' \<and> vos_obj_evicted occ' obj = Some True"
proof -
  obtain occ obj where o: "obj_reach ids0 10 occ" "obj \<in> set (dlc_busy_list occ)" by (rule obj_env0_held)
  obtain k where k: "dlc_links occ obj = Some k" using busy_iff[OF reach_cache_ok[OF o(1) refl]] o(2) by blast
  obtain occ' where "vos_obj_cache_evict obj_env0 None occ = Some occ'" "dlc_links occ' obj = Some (k\<lparr>ll_evicted := True\<rparr>)"
    using vos_obj_cache_evict_ok[OF o(1), of None] k o(2) by auto
  moreover from this have "vos_obj_evicted occ' obj = Some True" by (simp add: vos_obj_evicted_def daos_lru_ref_evicted_def)
  ultimately show ?thesis using o by blast
qed

text \<open>
  C8. Whatever the server does with a cache, the cache stays well-formed: the hash table, the list of held
  and the list of idle objects have the same objects, which are the live ones; a held object has the
  reference of the table and one more, an idle one only that of the table; the counters are the lengths of
  the lists; and no two objects that are not evicted have the same container and id.
\<close>

theorem vos_obj_cache_wf:
  assumes "obj_reach (vc_id env) bits occ"
  shows "lru_inv (obj_lru_ops env) (obj_key env) occ"
  using assms refl by (rule reach_cache_ok)

theorem vos_obj_cache_wf_witness:
  "\<exists>occ. obj_reach ids0 10 occ \<and> dlc_busy_list occ \<noteq> [] \<and> lru_inv (obj_lru_ops obj_env0) (obj_key obj_env0) occ"
proof -
  obtain occ obj where o: "obj_reach ids0 10 occ" "obj \<in> set (dlc_busy_list occ)" by (rule obj_env0_held)
  then have "dlc_busy_list occ \<noteq> []" by auto
  then show ?thesis using o(1) vos_obj_cache_wf[OF o(1)] by blast
qed

text \<open>A reference for the search: only the hash table is asked.\<close>

definition lru_hold_ref :: "('a, 'b) lru_user \<Rightarrow> bytes \<Rightarrow> 'b option \<Rightarrow> rid \<Rightarrow> 'a daos_lru_cache \<Rightarrow>
    (rid res \<times> 'a daos_lru_cache) option" where
  "lru_hold_ref user key create_args new lcache =
     (case lru_hash_search user key lcache of
        (Some l, lc) \<Rightarrow> lru_found l lc
      | (None, lc) \<Rightarrow>
          (case create_args of
             None \<Rightarrow> Some (Inl DER_NONEXIST, lc)
           | Some args \<Rightarrow>
               do {
                 (r, lc1) \<leftarrow> lru_new user key args new lc;
                 case r of Inl e \<Rightarrow> Some (Inl e, lc1) | Inr l \<Rightarrow> lru_found l lc1
               }))"

text \<open>
  C38. Looking at the first held and the first idle object before the hash table is asked makes no
  difference to what a hold gives and to the cache that it leaves.
\<close>

theorem daos_lru_ref_hold_fast:
  assumes "obj_reach (vc_id env) bits occ"
  shows "daos_lru_ref_hold (obj_lru_ops env) (lru_obj_key env cont oid) create_args new occ =
    lru_hold_ref (obj_lru_ops env) (lru_obj_key env cont oid) create_args new occ"
  using obj.search_eq[OF reach_cache_ok[OF assms refl], of "lru_obj_key env cont oid"]
  by (simp add: daos_lru_ref_hold_def lru_hold_ref_def split: prod.split option.split)

theorem daos_lru_ref_hold_fast_witness:
  "\<exists>occ. obj_reach ids0 10 occ \<and> dlc_busy_list occ \<noteq> [] \<and>
    daos_lru_ref_hold (obj_lru_ops obj_env0) (lru_obj_key obj_env0 1 []) None 5 occ =
    lru_hold_ref (obj_lru_ops obj_env0) (lru_obj_key obj_env0 1 []) None 5 occ"
proof -
  obtain occ obj where o: "obj_reach ids0 10 occ" "obj \<in> set (dlc_busy_list occ)" by (rule obj_env0_held)
  then have "dlc_busy_list occ \<noteq> []" by auto
  then show ?thesis using o(1) daos_lru_ref_hold_fast[OF o(1)] by blast
qed

end
