(* ===== verification/Spec2Isabelle.thy ===== *)
theory Spec2Isabelle
  imports Pool_Map Btree_Class Rdb_Consistency Cont_Props Evt_Props Tse_Props Obj_Props
begin

text \<open>
  A verification of parts of DAOS, a distributed object store in C (\<^verbatim>\<open>src/src\<close>).

  \<^bold>\<open>The program.\<close> A pool is storage on a set of servers; a container is a versioned object store in a pool.
  The pool and the container service keep their state in a replicated database (\<^verbatim>\<open>rdb\<close>): a hierarchy of
  key-value stores, each a B+ tree (\<^verbatim>\<open>common/btree.c\<close>), changed by transactions that Raft replicates and every
  replica applies. A client opens a container and gets a handle; writes belong to epochs, and the container
  service tracks which epochs handles hold, reference and have committed (\<^verbatim>\<open>container/srv_epoch.c\<close>). A server
  keeps the written extents of an array in a tree of rectangles of offsets and epochs (\<^verbatim>\<open>vos/evtree.c\<close>), and
  the objects in use in a cache (\<^verbatim>\<open>vos/vos_obj_cache.c\<close>) over an LRU cache (\<^verbatim>\<open>common/lru.c\<close>) over a hash table. Clients
  run their calls as tasks of a scheduler (\<^verbatim>\<open>common/tse.c\<close>).

  \<^bold>\<open>Conventions.\<close> Operations are functions on values; a C function that fails returns \<open>Inl\<close> of an error code
  of \<open>der\<close> (\<^verbatim>\<open>daos_errno.h\<close>), and the result \<open>None\<close> is a failed assertion, an access to freed memory or, for the
  scheduler and the caches, not returning. Machine integers are words where they can wrap or are compared as bytes. Byte
  order is that of x86. Memory is not modelled except where its release is the point: allocation succeeds,
  and a tree is the value that its root pointer leads to. Functions that a caller passes in (comparison of a
  sort, class of a tree, callback of an iteration, function of a task) are parameters.

  \<^bold>\<open>Theories and sources.\<close>

  \<^item> \<open>Prelude\<close>: error codes, words, little-endian bytes, list and option lemmas, the collections of simp rules.

  \<^item> \<open>Array_Sort\<close> (\<^verbatim>\<open>common/sort.c\<close>): combsort and binary search, with the contracts \<open>sort_contract\<close> and
  \<open>find_contract\<close> on the comparison and swap of the caller. \<open>Pool_Map\<close> (\<^verbatim>\<open>common/pool_map.c\<close>) interprets them
  for its component sorters, and proves lookups by id and the list of failed targets.

  \<^item> \<open>Btree\<close> (\<^verbatim>\<open>common/btree.c\<close>): nodes, probing, insertion, deletion. \<open>Btree_Inv\<close>, \<open>Btree_Search\<close>, \<open>Btree_Insert\<close>
  and \<open>Btree_Delete\<close> prove the invariant (order, fill, equal depth) and the effect on the list of records.
  \<open>Btree_Map\<close> states what a tree class must provide (locale \<open>btr_class\<close>) and that a tree of such a class is a
  finite map. \<open>Btree_Iter\<close> has iterators, statistics and destruction. \<open>Hash\<close> (\<^verbatim>\<open>common/hash.c\<close>) and \<open>Btree_Class\<close>
  (\<^verbatim>\<open>common/btree_class.c\<close>) have the KV, IV and EC classes, which are interpretations of that locale. A KV tree
  compares Murmur hashes only, so its keys in use must have distinct hashes; that is a hypothesis.

  \<^item> \<open>Rdb_Codec\<close> (\<^verbatim>\<open>rdb/rdb_util.c\<close>, \<^verbatim>\<open>rdb/rdb_path.c\<close>): I/O vectors and paths as bytes. \<open>Rdb_Tx\<close> (\<^verbatim>\<open>rdb/rdb_tx.c\<close>):
  building a log entry. \<open>Rdb_Store\<close> (\<^verbatim>\<open>rdb/rdb_util.c\<close>, \<^verbatim>\<open>rdb/rdb_tree.c\<close>, \<^verbatim>\<open>rdb/rdb_tx.c\<close>): stores within stores
  and the application of an entry. \<open>Rdb_Apply\<close> rests on the laws of a store (locale \<open>kvs_laws\<close>, interpreted
  with the B+ trees) and refines the application to a transaction on nested maps; \<open>Rdb_Consistency\<close> has what
  clients see.

  \<^item> \<open>Cont_Epoch\<close> (\<^verbatim>\<open>container/srv_epoch.c\<close>) and \<open>Cont_Svc\<close> (\<^verbatim>\<open>container/srv_container.c\<close>): epochs and the handlers
  of the service, over the database as a store of containers, handles and counters. \<open>Epoch_Counters\<close> proves
  what the counters count (locale \<open>counter_store\<close>). \<open>Cont_Inv\<close>, \<open>Cont_Steps\<close> and \<open>Cont_Reach\<close> prove an invariant of
  every state that requests reach; \<open>Cont_Props\<close> has its consequences and the requests excluded from it, each
  with a run of the code that shows why. The excluded ones (\<open>req_ok\<close>) are epochs above 255, whose order in
  the counter stores is not numerical, commits that keep the referenced epoch, destroying a container that
  is open, and using a handle with another container than its own.

  \<^item> \<open>Evt\<close> (\<^verbatim>\<open>vos/evtree.c\<close>, \<^verbatim>\<open>vos/evt_iter.c\<close>, \<^verbatim>\<open>akey_fetch_recx\<close> of \<^verbatim>\<open>vos/vos_obj.c\<close>): the tree of rectangles.
  \<open>Evt_Inv\<close> proves the invariant and that a search finds what a scan of all extents finds; \<open>Evt_Sem\<close> and
  \<open>Evt_Visible\<close> say which write is visible at an offset and an epoch and how an insertion changes that;
  \<open>Evt_Iter\<close> has the iterator and \<open>Evt_Props\<close> the results.

  \<^item> \<open>Tse\<close> (\<^verbatim>\<open>common/tse.c\<close>): tasks, callbacks, dependencies and references. \<open>Tse_Ref\<close> proves reference counting,
  \<open>Tse_Run\<close> and \<open>Tse_Inv\<close> the run of one task and the invariant between tasks, \<open>Tse_Props\<close> that all tasks are
  run in the order of their dependencies and released.

  \<^item> \<open>Dhash\<close> (\<^verbatim>\<open>common/hash.c\<close>): chained hash tables and the tables of handles and of UUIDs. \<open>Dhash_Props\<close> proves
  lookup, insertion and deletion once for all tables (locale \<open>dhash_laws\<close>) and interprets it for both. \<open>Lru\<close>
  (\<^verbatim>\<open>common/lru.c\<close>): the cache. \<open>Lru_Props\<close> proves its invariant, that holds, releases and evictions keep it and
  what they change, for every client whose functions agree on keys (locale \<open>lru_client\<close>, which has the laws
  of the table as a sublocale). \<open>Obj_Cache\<close> (\<^verbatim>\<open>vos/vos_obj_cache.c\<close>, two functions of \<^verbatim>\<open>vos/vos_obj_index.c\<close>) is the
  cache of objects, which interprets that locale; \<open>Obj_Props\<close> has what holds in every state that the server
  can bring it to. The tree of the object index is a parameter of these theories, since its keys are ranges
  compared by overlap; hypotheses say that a descriptor it returns fits the key (\<open>index_ok\<close>) and that a new
  object gets a free address (\<open>alloc_ok\<close>).

  \<^bold>\<open>Bounds and termination.\<close> Recursion is structural or has a termination proof. The loops of the scheduler
  and of the caches may run forever in general and are partial functions into \<open>option\<close>; that they return is part of what is proved
  of them. The depth of a B+ tree is bounded by its number of records.

  \<^bold>\<open>Not modelled.\<close> Raft is a submodule whose sources are absent, and CaRT, Argobots and libpmemobj are
  libraries: the RPC formats and handlers that only call them, the server process, bulk transfers, rebuild,
  tiering, management and the command line tools are left out. So is concurrency: operations run one at a
  time, under the locks that the code takes. The other layers of the object store between the trees and the RPCs,
  placement, the pool service and the client library are not modelled either.
\<close>

end
